(* ===== verification/CBAT_Prelude.thy ===== *)
theory CBAT_Prelude
  imports Main "HOL-Library.Monad_Syntax"
begin

text \<open>
  Shared vocabulary of the development: machine addresses, the collections of rewrite rules that
  the component theories fill, and the generic facts on lists and bits that several of them use.
\<close>

section \<open>Addresses\<close>

text \<open>
  A pointer is a natural number.  \<open>NULL\<close> is 0 and \<open>LLX_RETURN_IS_LEAF\<close> is the C value
  \<open>(void*) 1\<close>, so objects live at addresses from 2 on.  A pointer to one of the two child fields
  of a node is the pair of the node and a flag that is true for \<open>left\<close>.
\<close>

type_synonym addr = nat
type_synonym field_ref = "addr \<times> bool"

abbreviation (input) NULL :: addr where
  "NULL \<equiv> 0"

abbreviation (input) LLX_RETURN_IS_LEAF :: addr where
  "LLX_RETURN_IS_LEAF \<equiv> 1"

section \<open>Rule collections\<close>

named_theorems heap_simps \<open>what the memory operations read and write\<close>
named_theorems frame_simps \<open>what the memory operations leave alone\<close>

section \<open>Lists\<close>

lemma sorted_wrt_less_append_iff:
  fixes xs ys :: "'a::linorder list"
  shows "sorted_wrt (<) (xs @ ys) \<longleftrightarrow>
     sorted_wrt (<) xs \<and> sorted_wrt (<) ys \<and> (\<forall>x\<in>set xs. \<forall>y\<in>set ys. x < y)"
  by (auto simp: sorted_wrt_append)

lemma map_of_append_None:
  "k \<notin> fst ` set xs \<Longrightarrow> map_of (xs @ ys) k = map_of ys k"
  by (induction xs) auto

lemma map_of_not_key: "k \<notin> fst ` set xs \<Longrightarrow> map_of xs k = None"
  by (simp add: map_of_eq_None_iff)

end
