(* ===== verification/CBAT_Memory.thy ===== *)
theory CBAT_Memory
  imports CBAT_Prelude
begin

text \<open>
  The data of the balanced augmented tree (\<open>common/node_types.h\<close>,
  \<open>ds/brown_ext_chromatic_augment_lf/node.h\<close> and \<open>scxrecord.h\<close>), the object that owns it
  (class \<open>Chromatic\<close>), and the allocation macros of \<open>chromatic_impl.h\<close>.

  Memory is three stores, one per record type, with a next free address each.  Allocation
  (\<open>allocator_new\<close>) returns an address that was never used before: a record passed to
  \<open>retire\<close> is handed to the reclaimer and its address does not come back, which is what
  epoch-based reclamation promises to a running operation.
\<close>

section \<open>Nodes, versions and SCX records\<close>

record ('k, 'v) Node =
  key :: 'k
  left :: addr
  right :: addr
  weight :: int
  val :: 'v
  marked :: bool
  version :: addr
  scxRecord :: addr

record 'k Version =
  vleft :: addr
  vright :: addr
  vstatus :: addr
  vkey :: 'k
  vsum :: int
  visSecondCas :: bool

record SCXRecord =
  allFrozen :: bool
  scx_type :: nat
  scx_state :: int
  scx_nodes :: "nat \<Rightarrow> addr"
  scxRecordsSeen :: "nat \<Rightarrow> addr"
  newNode :: addr
  scx_field :: field_ref

abbreviation (input) STATE_INPROGRESS :: int where "STATE_INPROGRESS \<equiv> 0"
abbreviation (input) STATE_COMMITTED :: int where "STATE_COMMITTED \<equiv> 1"
abbreviation (input) STATE_ABORTED :: int where "STATE_ABORTED \<equiv> 2"

abbreviation (input) MAX_NODES :: nat where "MAX_NODES \<equiv> 6"

subsection \<open>Operation types and the tables indexed by them\<close>

abbreviation (input) TYPE_INS :: nat where "TYPE_INS \<equiv> 0"
abbreviation (input) TYPE_DEL :: nat where "TYPE_DEL \<equiv> 1"
abbreviation (input) TYPE_BLK :: nat where "TYPE_BLK \<equiv> 2"
abbreviation (input) TYPE_RB1 :: nat where "TYPE_RB1 \<equiv> 3"
abbreviation (input) TYPE_RB2 :: nat where "TYPE_RB2 \<equiv> 4"
abbreviation (input) TYPE_PUSH :: nat where "TYPE_PUSH \<equiv> 5"
abbreviation (input) TYPE_W1 :: nat where "TYPE_W1 \<equiv> 6"
abbreviation (input) TYPE_W2 :: nat where "TYPE_W2 \<equiv> 7"
abbreviation (input) TYPE_W3 :: nat where "TYPE_W3 \<equiv> 8"
abbreviation (input) TYPE_W4 :: nat where "TYPE_W4 \<equiv> 9"
abbreviation (input) TYPE_W5 :: nat where "TYPE_W5 \<equiv> 10"
abbreviation (input) TYPE_W6 :: nat where "TYPE_W6 \<equiv> 11"
abbreviation (input) TYPE_W7 :: nat where "TYPE_W7 \<equiv> 12"
abbreviation (input) TYPE_RB1SYM :: nat where "TYPE_RB1SYM \<equiv> 17"
abbreviation (input) TYPE_RB2SYM :: nat where "TYPE_RB2SYM \<equiv> 18"
abbreviation (input) TYPE_PUSHSYM :: nat where "TYPE_PUSHSYM \<equiv> 19"
abbreviation (input) TYPE_W1SYM :: nat where "TYPE_W1SYM \<equiv> 20"
abbreviation (input) TYPE_W2SYM :: nat where "TYPE_W2SYM \<equiv> 21"
abbreviation (input) TYPE_W3SYM :: nat where "TYPE_W3SYM \<equiv> 22"
abbreviation (input) TYPE_W4SYM :: nat where "TYPE_W4SYM \<equiv> 23"
abbreviation (input) TYPE_W5SYM :: nat where "TYPE_W5SYM \<equiv> 24"
abbreviation (input) TYPE_W6SYM :: nat where "TYPE_W6SYM \<equiv> 25"
abbreviation (input) TYPE_W7SYM :: nat where "TYPE_W7SYM \<equiv> 26"
abbreviation (input) TYPE_REPLACE :: nat where "TYPE_REPLACE \<equiv> 31"
abbreviation (input) TYPE_NOOP :: nat where "TYPE_NOOP \<equiv> 32"

definition NUM_INSERTED :: "nat list" where
  "NUM_INSERTED =
    [3, 1, 3, 2, 3, 3,
     4, 4, 5, 5, 4, 4, 3,
     5, 3, 5, 3,
     2, 3, 3,
     4, 4, 5, 5, 4, 4, 3,
     5, 3, 5, 3,
     1,
     0]"

definition NUM_TO_FREEZE :: "nat list" where
  "NUM_TO_FREEZE =
    [1, 3, 4, 3, 4, 4,
     5, 5, 6, 6, 5, 5, 4,
     6, 4, 6, 4,
     3, 4, 4,
     5, 5, 6, 6, 5, 5, 4,
     6, 4, 6, 4,
     1,
     0]"

definition NUM_OF_NODES :: "nat list" where
  "NUM_OF_NODES =
    [2, 4, 4, 3, 4, 4,
     5, 5, 6, 6, 5, 5, 4,
     6, 4, 6, 4,
     3, 4, 4,
     5, 5, 6, 6, 5, 5, 4,
     6, 4, 6, 4,
     2,
     0]"

lemmas table_defs = NUM_INSERTED_def NUM_TO_FREEZE_def NUM_OF_NODES_def

section \<open>The tree object\<close>

text \<open>
  The fields of class \<open>Chromatic\<close>; \<open>nodeH\<close>, \<open>versionH\<close> and \<open>scxH\<close> are the memory its pointers
  point into.  The per-thread arrays are indexed by the thread id.  \<open>retiredNodes\<close> and its two
  companions record the calls of \<open>recordmgr->retire\<close>, the most recent first, and
  \<open>freedVersions\<close> those of \<open>recordmgr->deallocate\<close>.
\<close>

record ('k, 'v) Chromatic =
  NO_KEY :: 'k
  NO_VALUE :: 'v
  allowedViolations :: int
  root :: addr
  dummy :: addr
  thread_init :: "nat \<Rightarrow> bool"
  allocatedSCXRecord :: "nat \<Rightarrow> addr"
  allocatedNodes :: "nat \<Rightarrow> nat \<Rightarrow> addr"
  allocatedVersions :: "nat \<Rightarrow> nat \<Rightarrow> addr"
  nodeH :: "addr \<Rightarrow> ('k, 'v) Node"
  versionH :: "addr \<Rightarrow> 'k Version"
  scxH :: "addr \<Rightarrow> SCXRecord"
  nextNode :: addr
  nextVersion :: addr
  nextSCX :: addr
  retiredNodes :: "addr list"
  retiredVersions :: "addr list"
  retiredSCXs :: "addr list"
  freedVersions :: "addr list"

subsection \<open>Reading a node\<close>

abbreviation nkey :: "('k, 'v) Chromatic \<Rightarrow> addr \<Rightarrow> 'k" where
  "nkey st a \<equiv> key (nodeH st a)"
abbreviation nval :: "('k, 'v) Chromatic \<Rightarrow> addr \<Rightarrow> 'v" where
  "nval st a \<equiv> val (nodeH st a)"
abbreviation nweight :: "('k, 'v) Chromatic \<Rightarrow> addr \<Rightarrow> int" where
  "nweight st a \<equiv> weight (nodeH st a)"
abbreviation nleft :: "('k, 'v) Chromatic \<Rightarrow> addr \<Rightarrow> addr" where
  "nleft st a \<equiv> left (nodeH st a)"
abbreviation nright :: "('k, 'v) Chromatic \<Rightarrow> addr \<Rightarrow> addr" where
  "nright st a \<equiv> right (nodeH st a)"

definition IS_SENTINEL :: "('k, 'v) Chromatic \<Rightarrow> addr \<Rightarrow> addr \<Rightarrow> bool" where
  "IS_SENTINEL st node parent \<longleftrightarrow> nkey st node = NO_KEY st \<or> nkey st parent = NO_KEY st"

definition get_field :: "('k, 'v) Chromatic \<Rightarrow> field_ref \<Rightarrow> addr" where
  "get_field st f = (if snd f then nleft st (fst f) else nright st (fst f))"

definition set_field :: "field_ref \<Rightarrow> addr \<Rightarrow> ('k, 'v) Chromatic \<Rightarrow> ('k, 'v) Chromatic" where
  "set_field f a st =
    (let n = nodeH st (fst f)
     in st\<lparr>nodeH := (nodeH st)(fst f := if snd f then n\<lparr>left := a\<rparr> else n\<lparr>right := a\<rparr>)\<rparr>)"

section \<open>Allocation\<close>

definition REPLACE_ALLOCATED_SCXRECORD :: "nat \<Rightarrow> ('k, 'v) Chromatic \<Rightarrow> ('k, 'v) Chromatic" where
  "REPLACE_ALLOCATED_SCXRECORD tid st =
    st\<lparr>allocatedSCXRecord := (allocatedSCXRecord st)(tid := nextSCX st),
       nextSCX := Suc (nextSCX st)\<rparr>"

definition REPLACE_ALLOCATED_NODE :: "nat \<Rightarrow> nat \<Rightarrow> ('k, 'v) Chromatic \<Rightarrow> ('k, 'v) Chromatic" where
  "REPLACE_ALLOCATED_NODE tid i st =
    st\<lparr>allocatedNodes := (allocatedNodes st)(tid := (allocatedNodes st tid)(i := nextNode st)),
       nextNode := Suc (nextNode st)\<rparr>"

definition REPLACE_ALLOCATED_VERSION ::
    "nat \<Rightarrow> nat \<Rightarrow> ('k, 'v) Chromatic \<Rightarrow> ('k, 'v) Chromatic" where
  "REPLACE_ALLOCATED_VERSION tid i st =
    st\<lparr>allocatedVersions :=
         (allocatedVersions st)(tid := (allocatedVersions st tid)(i := nextVersion st)),
       nextVersion := Suc (nextVersion st)\<rparr>"

subsection \<open>Initialisation macros\<close>

definition initializeVersion ::
    "addr \<Rightarrow> 'k \<Rightarrow> int \<Rightarrow> addr \<Rightarrow> addr \<Rightarrow> ('k, 'v) Chromatic \<Rightarrow> ('k, 'v) Chromatic" where
  "initializeVersion newver k s l r st =
    st\<lparr>versionH := (versionH st)(newver :=
         (versionH st newver)\<lparr>vkey := k, vsum := s, vleft := l, vright := r\<rparr>)\<rparr>"

definition initializeNodeWithVersion ::
    "addr \<Rightarrow> 'k \<Rightarrow> 'v \<Rightarrow> int \<Rightarrow> addr \<Rightarrow> addr \<Rightarrow> addr \<Rightarrow>
     ('k, 'v) Chromatic \<Rightarrow> ('k, 'v) Chromatic" where
  "initializeNodeWithVersion newnode k v w l r vernode st =
    st\<lparr>nodeH := (nodeH st)(newnode :=
         \<lparr>key = k, left = l, right = r, weight = w, val = v, marked = False,
          version = vernode, scxRecord = dummy st\<rparr>)\<rparr>"

text \<open>
  \<open>initializeNode\<close> gives a leaf a version of its own, with sum 1, and leaves the version of an
  internal node \<open>NULL\<close>.
\<close>

definition initializeNode ::
    "addr \<Rightarrow> 'k \<Rightarrow> 'v \<Rightarrow> int \<Rightarrow> addr \<Rightarrow> addr \<Rightarrow> ('k, 'v) Chromatic \<Rightarrow> ('k, 'v) Chromatic" where
  "initializeNode newnode k v w l r st =
    (if l = NULL
     then let vernode = nextVersion st;
              st1 = initializeVersion vernode k 1 NULL NULL (st\<lparr>nextVersion := Suc vernode\<rparr>)
          in initializeNodeWithVersion newnode k v w l r vernode st1
     else initializeNodeWithVersion newnode k v w l r NULL st)"

definition initializeSCXRecord ::
    "addr \<Rightarrow> nat \<Rightarrow> addr list \<Rightarrow> addr list \<Rightarrow> field_ref \<Rightarrow> addr \<Rightarrow>
     ('k, 'v) Chromatic \<Rightarrow> ('k, 'v) Chromatic" where
  "initializeSCXRecord newop type nodes llxResults fld new st =
    (let old = scxH st newop
     in st\<lparr>scxH := (scxH st)(newop :=
          \<lparr>allFrozen = False, scx_type = type, scx_state = STATE_INPROGRESS,
           scx_nodes = (\<lambda>i. if i < NUM_OF_NODES ! type then nodes ! i else scx_nodes old i),
           scxRecordsSeen =
             (\<lambda>i. if i < NUM_TO_FREEZE ! type then llxResults ! i else scxRecordsSeen old i),
           newNode = new, scx_field = fld\<rparr>)\<rparr>)"

subsection \<open>Threads and the constructor\<close>

fun init_pools :: "nat \<Rightarrow> nat \<Rightarrow> ('k, 'v) Chromatic \<Rightarrow> ('k, 'v) Chromatic" where
  "init_pools 0 tid st = st"
| "init_pools (Suc n) tid st =
     REPLACE_ALLOCATED_NODE tid n (REPLACE_ALLOCATED_VERSION tid n (init_pools n tid st))"

definition initThread :: "nat \<Rightarrow> ('k, 'v) Chromatic \<Rightarrow> ('k, 'v) Chromatic" where
  "initThread tid st =
    (if thread_init st tid then st
     else let st1 = st\<lparr>thread_init := (thread_init st)(tid := True)\<rparr>
          in if allocatedSCXRecord st1 tid = NULL
             then init_pools (MAX_NODES - 1) tid (REPLACE_ALLOCATED_SCXRECORD tid st1)
             else st1)"

definition deinitThread :: "nat \<Rightarrow> ('k, 'v) Chromatic \<Rightarrow> ('k, 'v) Chromatic" where
  "deinitThread tid st =
    (if \<not> thread_init st tid then st
     else st\<lparr>thread_init := (thread_init st)(tid := False)\<rparr>)"

text \<open>
  Memory before anything is allocated.  The record constructors of the source leave their fields
  uninitialised; every field is written before it is read, so the blank values do not matter.
\<close>

definition blank :: "'k \<Rightarrow> 'v \<Rightarrow> int \<Rightarrow> ('k, 'v) Chromatic" where
  "blank noKey noValue allowed =
    \<lparr>NO_KEY = noKey, NO_VALUE = noValue, allowedViolations = allowed, root = NULL, dummy = NULL,
     thread_init = (\<lambda>_. False), allocatedSCXRecord = (\<lambda>_. NULL),
     allocatedNodes = (\<lambda>_ _. NULL), allocatedVersions = (\<lambda>_ _. NULL),
     nodeH = (\<lambda>_. \<lparr>key = noKey, left = NULL, right = NULL, weight = 0, val = noValue,
                    marked = False, version = NULL, scxRecord = NULL\<rparr>),
     versionH = (\<lambda>_. \<lparr>vleft = NULL, vright = NULL, vstatus = NULL, vkey = noKey, vsum = 0,
                       visSecondCas = False\<rparr>),
     scxH = (\<lambda>_. \<lparr>allFrozen = False, scx_type = TYPE_NOOP, scx_state = STATE_INPROGRESS,
                   scx_nodes = (\<lambda>_. NULL), scxRecordsSeen = (\<lambda>_. NULL), newNode = NULL,
                   scx_field = (NULL, True)\<rparr>),
     nextNode = 2, nextVersion = 2, nextSCX = 2,
     retiredNodes = [], retiredVersions = [], retiredSCXs = [], freedVersions = []\<rparr>"

definition Chromatic_new :: "'k \<Rightarrow> 'v \<Rightarrow> int \<Rightarrow> ('k, 'v) Chromatic" where
  "Chromatic_new noKey noValue allowed =
    (let st = initThread 0 (blank noKey noValue allowed);
         d = nextSCX st;
         st = st\<lparr>dummy := d, nextSCX := Suc d,
                 scxH := (scxH st)(d := (scxH st d)\<lparr>scx_type := TYPE_NOOP,
                                                    scx_state := STATE_ABORTED\<rparr>)\<rparr>;
         rootleftver = nextVersion st;
         st = initializeVersion rootleftver noKey 0 NULL NULL (st\<lparr>nextVersion := Suc rootleftver\<rparr>);
         rootver = nextVersion st;
         st = initializeVersion rootver noKey 0 rootleftver NULL (st\<lparr>nextVersion := Suc rootver\<rparr>);
         rootleft = nextNode st;
         st = initializeNodeWithVersion rootleft noKey noValue 1 NULL NULL rootleftver
                (st\<lparr>nextNode := Suc rootleft\<rparr>);
         r = nextNode st;
         st = initializeNodeWithVersion r noKey noValue 1 rootleft NULL rootver
                (st\<lparr>nextNode := Suc r\<rparr>)
     in st\<lparr>root := r\<rparr>)"

end
