(* ===== verification/LLX_SCX.thy ===== *)
theory LLX_SCX
  imports CBAT_Memory
begin

unbundle bit_operations_syntax

text \<open>
  The LLX and SCX primitives (\<open>llx\<close>, \<open>help\<close> (here \<open>help_SCX\<close>), \<open>scx\<close> and the memory bookkeeping after an SCX) of
  \<open>ds/brown_ext_chromatic_augment_lf/chromatic_impl.h\<close>, as one thread executes them.  The memory
  they start from is arbitrary: it may hold SCX records of other threads that are still in
  progress, so every retry, help and abort branch of the source is a branch here.

  The reclaimer is DEBRA (\<open>common/recordmgr/reclaimer_debra.h\<close>): \<open>protect\<close> always succeeds,
  \<open>shouldHelp\<close> is true and \<open>supportsCrashRecovery\<close> is false, so \<open>endOp\<close> and
  \<open>qUnprotectAll\<close> touch nothing that is modelled here.
\<close>

section \<open>The reclaimer's answers\<close>

definition protect :: "addr \<Rightarrow> bool" where
  "protect obj = True"

definition shouldHelp :: bool where
  "shouldHelp = True"

definition supportsCrashRecovery :: bool where
  "supportsCrashRecovery = False"

definition IF_FAIL_TO_PROTECT_SCX :: "('k, 'v) Chromatic \<Rightarrow> addr \<Rightarrow> bool" where
  "IF_FAIL_TO_PROTECT_SCX st obj \<longleftrightarrow> obj \<noteq> dummy st \<and> \<not> protect obj"

definition IF_FAIL_TO_PROTECT_NODE :: "('k, 'v) Chromatic \<Rightarrow> addr \<Rightarrow> bool" where
  "IF_FAIL_TO_PROTECT_NODE st obj \<longleftrightarrow> obj \<noteq> root st \<and> \<not> protect obj"

lemma protect_succeeds [simp]:
  "\<not> IF_FAIL_TO_PROTECT_SCX st obj" "\<not> IF_FAIL_TO_PROTECT_NODE st obj"
  by (simp_all add: IF_FAIL_TO_PROTECT_SCX_def IF_FAIL_TO_PROTECT_NODE_def protect_def)

section \<open>The state word of an aborted SCX record\<close>

text \<open>
  2 bits of state, 5 bits for the index at which the freezing loop stopped, 24 bits of flags that
  say which nodes were frozen; the highest bit is unused.
\<close>

definition ABORT_STATE_INIT :: "nat \<Rightarrow> int \<Rightarrow> int" where
  "ABORT_STATE_INIT i flags = STATE_ABORTED OR push_bit 2 (int i) OR push_bit 7 flags"

definition STATE_GET_FLAGS :: "int \<Rightarrow> int" where
  "STATE_GET_FLAGS state = state AND 0x7FFFFF80"

definition STATE_GET_HIGHEST_INDEX_REACHED :: "int \<Rightarrow> nat" where
  "STATE_GET_HIGHEST_INDEX_REACHED state = nat (drop_bit 2 (state AND 0x7C))"

definition STATE_GET_WITH_FLAG_OFF :: "int \<Rightarrow> nat \<Rightarrow> int" where
  "STATE_GET_WITH_FLAG_OFF state i = state AND NOT (push_bit (i + 7) 1)"

lemma abort_state_sum:
  assumes "i < 32" and "0 \<le> flags"
  shows "ABORT_STATE_INIT i flags = 2 + 4 * int i + 128 * flags"
proof -
  have 1: "2 OR push_bit 2 (int i) = 2 + push_bit 2 (int i)"
    by (rule disjunctive_add[symmetric]) (auto simp: bit_simps bit_2_iff)
  have "(2 + push_bit 2 (int i)) < 128" using assms by (simp add: push_bit_eq_mult)
  then have low: "take_bit 7 (2 + push_bit 2 (int i)) = 2 + push_bit 2 (int i)"
    by (simp add: take_bit_int_eq_self push_bit_eq_mult)
  have 2: "(2 + push_bit 2 (int i)) OR push_bit 7 flags = (2 + push_bit 2 (int i)) + push_bit 7 flags"
    by (rule disjunctive_add[symmetric], subst low[symmetric]) (auto simp: bit_simps)
  show ?thesis
    unfolding ABORT_STATE_INIT_def or.assoc[symmetric] 1 2 by (simp add: push_bit_eq_mult)
qed

lemma abort_state_bounds:
  assumes "i < 32" and "0 \<le> flags" and "flags < 2 ^ 24"
  shows "STATE_ABORTED \<le> ABORT_STATE_INIT i flags" "ABORT_STATE_INIT i flags < 2 ^ 31"
    "ABORT_STATE_INIT i flags mod 4 = STATE_ABORTED"
  using assms by (auto simp: abort_state_sum) presburger

lemma and_field: "(x::int) AND push_bit m (mask n) = push_bit m (take_bit n (drop_bit m x))"
  by (rule bit_eqI) (auto simp: bit_simps)

lemma abort_state_fields:
  assumes "i < 32" and "0 \<le> flags" and "flags < 2 ^ 24"
  shows "STATE_GET_HIGHEST_INDEX_REACHED (ABORT_STATE_INIT i flags) = i"
    "STATE_GET_FLAGS (ABORT_STATE_INIT i flags) = push_bit 7 flags"
proof -
  let ?s = "ABORT_STATE_INIT i flags"
  have m1: "(0x7C::int) = push_bit 2 (mask 5)" and m2: "(0x7FFFFF80::int) = push_bit 7 (mask 24)"
    by (simp_all add: mask_eq_exp_minus_1 push_bit_eq_mult)
  have "?s AND 0x7C = push_bit 2 (take_bit 5 (drop_bit 2 ?s))"
    unfolding m1 by (rule and_field)
  moreover have "drop_bit 2 ?s = int i + 32 * flags"
    using assms by (simp add: abort_state_sum drop_bit_eq_div)
  ultimately show "STATE_GET_HIGHEST_INDEX_REACHED ?s = i"
    using assms by (simp add: STATE_GET_HIGHEST_INDEX_REACHED_def take_bit_eq_mod push_bit_eq_mult drop_bit_eq_div)
  have "?s AND 0x7FFFFF80 = push_bit 7 (take_bit 24 (drop_bit 7 ?s))"
    unfolding m2 by (rule and_field)
  moreover have "drop_bit 7 ?s = flags"
    using assms by (simp add: abort_state_sum drop_bit_eq_div)
  ultimately show "STATE_GET_FLAGS ?s = push_bit 7 flags"
    using assms by (simp add: STATE_GET_FLAGS_def take_bit_int_eq_self)
qed

section \<open>help\<close>

text \<open>Writing fields of a node and of an SCX record.\<close>

definition set_scxRecord :: "addr \<Rightarrow> addr \<Rightarrow> ('k, 'v) Chromatic \<Rightarrow> ('k, 'v) Chromatic" where
  "set_scxRecord n s st = st\<lparr>nodeH := (nodeH st)(n := (nodeH st n)\<lparr>scxRecord := s\<rparr>)\<rparr>"

definition set_marked :: "addr \<Rightarrow> ('k, 'v) Chromatic \<Rightarrow> ('k, 'v) Chromatic" where
  "set_marked n st = st\<lparr>nodeH := (nodeH st)(n := (nodeH st n)\<lparr>marked := True\<rparr>)\<rparr>"

definition set_state :: "addr \<Rightarrow> int \<Rightarrow> ('k, 'v) Chromatic \<Rightarrow> ('k, 'v) Chromatic" where
  "set_state s x st = st\<lparr>scxH := (scxH st)(s := (scxH st s)\<lparr>scx_state := x\<rparr>)\<rparr>"

definition set_allFrozen :: "addr \<Rightarrow> ('k, 'v) Chromatic \<Rightarrow> ('k, 'v) Chromatic" where
  "set_allFrozen s st = st\<lparr>scxH := (scxH st)(s := (scxH st s)\<lparr>allFrozen := True\<rparr>)\<rparr>"

text \<open>
  The freezing loop from index \<open>i\<close> on.  It returns \<open>Some state\<close> when \<open>help\<close> returns that state
  from inside the loop and \<open>None\<close> when the loop runs to its end.
\<close>

function freeze_loop ::
    "nat \<Rightarrow> nat \<Rightarrow> addr \<Rightarrow> int \<Rightarrow> ('k, 'v) Chromatic \<Rightarrow> int option \<times> ('k, 'v) Chromatic" where
  "freeze_loop i nFreeze s flags st =
    (if i < nFreeze
     then if scxRecordsSeen (scxH st s) i = LLX_RETURN_IS_LEAF
       then freeze_loop (Suc i) nFreeze s flags st
       else if scxRecord (nodeH st (scx_nodes (scxH st s) i)) = scxRecordsSeen (scxH st s) i
       then freeze_loop (Suc i) nFreeze s (flags OR push_bit i 1)
              (set_scxRecord (scx_nodes (scxH st s) i) s st)
       else if scxRecord (nodeH st (scx_nodes (scxH st s) i)) = s
       then freeze_loop (Suc i) nFreeze s (flags OR push_bit i 1) st
       else if allFrozen (scxH st s) then (Some STATE_COMMITTED, st)
       else if i = 0 then (Some (ABORT_STATE_INIT 0 0), st)
       else if scx_state (scxH st s) = STATE_INPROGRESS
       then (Some (ABORT_STATE_INIT i flags), set_state s (ABORT_STATE_INIT i flags) st)
       else (Some (scx_state (scxH st s)), st)
     else (None, st))"
  by pat_completeness auto
termination
  by (relation "measure (\<lambda>(i, nFreeze, s, flags, st). nFreeze - i)") auto

declare freeze_loop.simps [simp del]

function mark_loop ::
    "nat \<Rightarrow> nat \<Rightarrow> addr \<Rightarrow> ('k, 'v) Chromatic \<Rightarrow> ('k, 'v) Chromatic" where
  "mark_loop i nFreeze s st =
    (if i < nFreeze
     then if scxRecordsSeen (scxH st s) i = LLX_RETURN_IS_LEAF
       then mark_loop (Suc i) nFreeze s st
       else mark_loop (Suc i) nFreeze s (set_marked (scx_nodes (scxH st s) i) st)
     else st)"
  by pat_completeness auto
termination
  by (relation "measure (\<lambda>(i, nFreeze, s, st). nFreeze - i)") auto

declare mark_loop.simps [simp del]

definition help_SCX :: "addr \<Rightarrow> bool \<Rightarrow> ('k, 'v) Chromatic \<Rightarrow> int \<times> ('k, 'v) Chromatic" where
  "help_SCX s helpingOther st =
    (let rec = scxH st s; nFreeze = NUM_TO_FREEZE ! scx_type rec in
     if scx_state rec \<noteq> STATE_INPROGRESS then (scx_state rec, st)
     else case freeze_loop (if helpingOther then 1 else 0) nFreeze s 1 st of
       (Some state, st) \<Rightarrow> (state, st)
     | (None, st) \<Rightarrow>
         let st = set_allFrozen s st;
             st = mark_loop 1 nFreeze s st;
             st = (if get_field st (scx_field rec) = scx_nodes rec 1
                   then set_field (scx_field rec) (newNode rec) st else st);
             st = set_state s STATE_COMMITTED st
         in (STATE_COMMITTED, st))"

section \<open>llx\<close>

text \<open>
  The result, then the two out-parameters.  A null result means that the caller retries.
\<close>

definition llx ::
    "addr \<Rightarrow> ('k, 'v) Chromatic \<Rightarrow> (addr \<times> addr \<times> addr) \<times> ('k, 'v) Chromatic" where
  "llx node st =
    (let scx1 = scxRecord (nodeH st node) in
     if IF_FAIL_TO_PROTECT_SCX st scx1 then ((NULL, NULL, NULL), st)
     else let state = scx_state (scxH st scx1); mrk = marked (nodeH st node) in
     if state = STATE_COMMITTED \<and> \<not> mrk \<or> state \<ge> STATE_ABORTED
     then let retLeft = nleft st node; retRight = nright st node in
       if retLeft = NULL then ((LLX_RETURN_IS_LEAF, retLeft, retRight), st)
       else let scx2 = scxRecord (nodeH st node) in
         if scx1 = scx2 then ((scx1, retLeft, retRight), st)
         else if shouldHelp
         then if IF_FAIL_TO_PROTECT_SCX st scx2 then ((NULL, retLeft, retRight), st)
              else ((NULL, retLeft, retRight), snd (help_SCX scx2 True st))
         else ((NULL, retLeft, retRight), st)
     else if state = STATE_INPROGRESS
     then if shouldHelp then ((NULL, NULL, NULL), snd (help_SCX scx1 True st))
          else ((NULL, NULL, NULL), st)
     else if shouldHelp
     then let scx3 = scxRecord (nodeH st node) in
       if IF_FAIL_TO_PROTECT_SCX st scx3 then ((NULL, NULL, NULL), st)
       else ((NULL, NULL, NULL), snd (help_SCX scx3 True st))
     else ((NULL, NULL, NULL), st))"

section \<open>Memory bookkeeping after an SCX, and scx\<close>

definition retireSCX :: "addr \<Rightarrow> ('k, 'v) Chromatic \<Rightarrow> ('k, 'v) Chromatic" where
  "retireSCX s st = st\<lparr>retiredSCXs := s # retiredSCXs st\<rparr>"

definition retireNode :: "addr \<Rightarrow> ('k, 'v) Chromatic \<Rightarrow> ('k, 'v) Chromatic" where
  "retireNode n st = st\<lparr>retiredNodes := n # retiredNodes st\<rparr>"

text \<open>The index of \<open>node\<close> among the frozen nodes of a record, as the search loop finds it.\<close>

definition frozen_index :: "SCXRecord \<Rightarrow> addr \<Rightarrow> nat option" where
  "frozen_index rec node =
    List.find (\<lambda>i. scx_nodes rec i = node) [0..<NUM_TO_FREEZE ! scx_type rec]"

definition tryRetireSCXRecord ::
    "addr \<Rightarrow> addr \<Rightarrow> ('k, 'v) Chromatic \<Rightarrow> bool \<times> ('k, 'v) Chromatic" where
  "tryRetireSCXRecord otherSCX node st =
    (if otherSCX = dummy st then (False, st)
     else let rec = scxH st otherSCX in
       if scx_state rec = STATE_COMMITTED then (True, retireSCX otherSCX st)
       else case frozen_index rec node of
           None \<Rightarrow> (False, st)
         | Some i \<Rightarrow>
             let stateNew = STATE_GET_WITH_FLAG_OFF (scx_state rec) i;
                 st = set_state otherSCX stateNew st
             in if STATE_GET_FLAGS stateNew = 0 then (True, retireSCX otherSCX st)
                else (False, st))"

text \<open>The three loops of \<open>reclaimMemoryAfterSCX\<close>, for the first \<open>n\<close> indices each.\<close>

fun replace_pools :: "nat \<Rightarrow> nat \<Rightarrow> ('k, 'v) Chromatic \<Rightarrow> ('k, 'v) Chromatic" where
  "replace_pools 0 tid st = st"
| "replace_pools (Suc n) tid st =
     REPLACE_ALLOCATED_VERSION tid n (REPLACE_ALLOCATED_NODE tid n (replace_pools n tid st))"

fun retire_seen :: "nat \<Rightarrow> addr list \<Rightarrow> addr list \<Rightarrow> ('k, 'v) Chromatic \<Rightarrow> ('k, 'v) Chromatic" where
  "retire_seen 0 nodes seen st = st"
| "retire_seen (Suc n) nodes seen st =
    (let st = retire_seen n nodes seen st
     in if seen ! n = LLX_RETURN_IS_LEAF then st
        else snd (tryRetireSCXRecord (seen ! n) (nodes ! n) st))"

fun retire_nodes :: "nat \<Rightarrow> addr list \<Rightarrow> ('k, 'v) Chromatic \<Rightarrow> ('k, 'v) Chromatic" where
  "retire_nodes 0 nodes st = st"
| "retire_nodes (Suc n) nodes st =
    (let st = retire_nodes n nodes st in if n = 0 then st else retireNode (nodes ! n) st)"

definition reclaimMemoryAfterSCX ::
    "nat \<Rightarrow> nat \<Rightarrow> addr list \<Rightarrow> addr list \<Rightarrow> int \<Rightarrow>
     ('k, 'v) Chromatic \<Rightarrow> bool \<times> ('k, 'v) Chromatic" where
  "reclaimMemoryAfterSCX tid operationType nodes seen state st =
    (let highestIndexReached =
           (if state = STATE_COMMITTED then NUM_TO_FREEZE ! operationType
            else STATE_GET_HIGHEST_INDEX_REACHED state)
     in if highestIndexReached = 0 then (False, st)
        else let st = REPLACE_ALLOCATED_SCXRECORD tid st;
                 st = (if state = STATE_COMMITTED
                       then replace_pools (NUM_INSERTED ! operationType) tid st else st);
                 st = retire_seen highestIndexReached nodes seen st
             in if state = STATE_COMMITTED
                then (True, retire_nodes (NUM_OF_NODES ! operationType) nodes st)
                else (False, st))"

definition scx ::
    "nat \<Rightarrow> nat \<Rightarrow> addr list \<Rightarrow> addr list \<Rightarrow> field_ref \<Rightarrow> addr \<Rightarrow>
     ('k, 'v) Chromatic \<Rightarrow> bool \<times> ('k, 'v) Chromatic" where
  "scx tid operationType nodes llxResults fld new st =
    (let newscxrecord = allocatedSCXRecord st tid;
         st = initializeSCXRecord newscxrecord operationType nodes llxResults fld new st;
         (state, st) = help_SCX newscxrecord False st
     in reclaimMemoryAfterSCX tid operationType nodes llxResults state st)"

end
