(* ===== verification/Chromatic_Trees.thy ===== *)
theory Chromatic_Trees
  imports CBAT_Prelude
begin

text \<open>
  The abstract view of the node store: leaf-oriented trees whose nodes carry the address, key,
  value and weight of the record they stand for, contexts (a tree with a hole, as a search leaves
  behind it), and the three properties of a chromatic tree that the updates keep: the search-tree
  order, leaf weights of at least one with equal weight on all paths, and the map the leaves
  represent.
\<close>

section \<open>Trees\<close>

datatype ('k, 'v) ct =
    Lf (adr: addr) (tkey: 'k) (tval: 'v) (wt: int)
  | Nd (adr: addr) (tkey: 'k) (tval: 'v) (wt: int) (lft: "('k, 'v) ct") (rgt: "('k, 'v) ct")

fun addrs :: "('k, 'v) ct \<Rightarrow> addr list" where
  "addrs (Lf a k v w) = [a]"
| "addrs (Nd a k v w l r) = a # addrs l @ addrs r"

fun leaves :: "('k, 'v) ct \<Rightarrow> ('k \<times> 'v) list" where
  "leaves (Lf a k v w) = [(k, v)]"
| "leaves (Nd a k v w l r) = leaves l @ leaves r"

abbreviation lkeys :: "('k, 'v) ct \<Rightarrow> 'k list" where
  "lkeys t \<equiv> map fst (leaves t)"

fun ikeys :: "('k, 'v) ct \<Rightarrow> 'k set" where
  "ikeys (Lf a k v w) = {}"
| "ikeys (Nd a k v w l r) = insert k (ikeys l \<union> ikeys r)"

fun is_leaf :: "('k, 'v) ct \<Rightarrow> bool" where
  "is_leaf (Lf a k v w) = True"
| "is_leaf (Nd a k v w l r) = False"

fun ladr :: "('k, 'v) ct \<Rightarrow> addr" where
  "ladr (Lf a k v w) = NULL"
| "ladr (Nd a k v w l r) = adr l"

fun radr :: "('k, 'v) ct \<Rightarrow> addr" where
  "radr (Lf a k v w) = NULL"
| "radr (Nd a k v w l r) = adr r"

text \<open>A copy of the root of a tree at a new address with a new weight.\<close>

fun copy :: "addr \<Rightarrow> int \<Rightarrow> ('k, 'v) ct \<Rightarrow> ('k, 'v) ct" where
  "copy a' w' (Lf a k v w) = Lf a' k v w'"
| "copy a' w' (Nd a k v w l r) = Nd a' k v w' l r"

lemma adr_in_addrs [simp]: "adr t \<in> set (addrs t)"
  by (cases t) auto

lemma addrs_nonempty [simp]: "addrs t \<noteq> []"
  by (cases t) auto

lemma leaves_nonempty [simp]: "leaves t \<noteq> []"
  by (induction t) auto

lemma copy_sel [simp]:
  "adr (copy a w t) = a" "tkey (copy a w t) = tkey t" "tval (copy a w t) = tval t"
  "wt (copy a w t) = w" "leaves (copy a w t) = leaves t" "ikeys (copy a w t) = ikeys t"
  "is_leaf (copy a w t) = is_leaf t" "ladr (copy a w t) = ladr t" "radr (copy a w t) = radr t"
  "addrs (copy a w t) = a # tl (addrs t)"
  by (cases t; simp)+

lemma set_tl_addrs: "set (addrs t) = insert (adr t) (set (tl (addrs t)))"
  by (cases t) auto

lemma distinct_addrs_tl: "distinct (addrs t) \<Longrightarrow> adr t \<notin> set (tl (addrs t)) \<and> distinct (tl (addrs t))"
  by (cases t) auto

section \<open>Order\<close>

fun bst :: "('k::linorder, 'v) ct \<Rightarrow> bool" where
  "bst (Lf a k v w) = True"
| "bst (Nd a k v w l r) =
    ((\<forall>x\<in>set (lkeys l). x < k) \<and> (\<forall>x\<in>set (lkeys r). k \<le> x) \<and> bst l \<and> bst r)"

lemma bst_copy [simp]: "bst (copy a w t) = bst t"
  by (cases t) auto

lemma bst_sorted: "bst t \<Longrightarrow> sorted_wrt (<) (lkeys t)"
  by (induction t) (fastforce simp: sorted_wrt_append)+

section \<open>Weights\<close>

text \<open>
  \<open>pathw t n\<close>: the weights on every path from the root to a leaf add up to \<open>n\<close>, no weight is
  negative and no leaf has weight 0.
\<close>

fun pathw :: "('k, 'v) ct \<Rightarrow> int \<Rightarrow> bool" where
  "pathw (Lf a k v w) n \<longleftrightarrow> w = n \<and> 1 \<le> w"
| "pathw (Nd a k v w l r) n \<longleftrightarrow> 0 \<le> w \<and> pathw l (n - w) \<and> pathw r (n - w)"

lemma pathw_pos: "pathw t n \<Longrightarrow> 1 \<le> n"
  by (induction t arbitrary: n) force+

lemma pathw_wt: "pathw t n \<Longrightarrow> 0 \<le> wt t \<and> wt t \<le> n"
  using pathw_pos by (cases t) (fastforce)+

lemma pathw_copy:
  assumes "pathw t n" and "0 \<le> w" and "is_leaf t \<Longrightarrow> 1 \<le> w"
  shows "pathw (copy a w t) (n - wt t + w)"
  using assms by (cases t) (auto simp: algebra_simps)

lemma pathw_red_internal:
  assumes "pathw t n" and "wt t = 0"
  obtains a k v l r where "t = Nd a k v 0 l r"
  using assms by (cases t) auto

lemma pathw_light_internal:
  assumes "pathw t n" and "wt t < n"
  obtains a k v l r where "t = Nd a k v (wt t) l r"
  using assms by (cases t) auto

section \<open>Contexts\<close>

text \<open>
  One frame per node above the hole, the innermost first.  \<open>FL\<close> has the hole as its left child
  and keeps the right one, \<open>FR\<close> the other way round.
\<close>

datatype ('k, 'v) frame =
    FL (fadr: addr) (fkey: 'k) (fval: 'v) (fwt: int) (fsib: "('k, 'v) ct")
  | FR (fadr: addr) (fkey: 'k) (fval: 'v) (fwt: int) (fsib: "('k, 'v) ct")

type_synonym ('k, 'v) ctx = "('k, 'v) frame list"

fun fill :: "('k, 'v) frame \<Rightarrow> ('k, 'v) ct \<Rightarrow> ('k, 'v) ct" where
  "fill (FL a k v w s) t = Nd a k v w t s"
| "fill (FR a k v w s) t = Nd a k v w s t"

fun plug :: "('k, 'v) ctx \<Rightarrow> ('k, 'v) ct \<Rightarrow> ('k, 'v) ct" where
  "plug [] t = t"
| "plug (f # C) t = plug C (fill f t)"

fun is_FL :: "('k, 'v) frame \<Rightarrow> bool" where
  "is_FL (FL a k v w s) = True"
| "is_FL (FR a k v w s) = False"

text \<open>The field that holds the pointer to the hole, below a root whose left child is the tree.\<close>

fun hole :: "addr \<Rightarrow> ('k, 'v) ctx \<Rightarrow> field_ref" where
  "hole rt [] = (rt, True)"
| "hole rt (f # C) = (fadr f, is_FL f)"

fun caddrs :: "('k, 'v) ctx \<Rightarrow> addr list" where
  "caddrs [] = []"
| "caddrs (f # C) = fadr f # addrs (fsib f) @ caddrs C"

fun lctx :: "('k, 'v) ctx \<Rightarrow> ('k \<times> 'v) list" where
  "lctx [] = []"
| "lctx (f # C) = lctx C @ (if is_FL f then [] else leaves (fsib f))"

fun rctx :: "('k, 'v) ctx \<Rightarrow> ('k \<times> 'v) list" where
  "rctx [] = []"
| "rctx (f # C) = (if is_FL f then leaves (fsib f) else []) @ rctx C"

fun cikeys :: "('k, 'v) ctx \<Rightarrow> 'k set" where
  "cikeys [] = {}"
| "cikeys (f # C) = insert (fkey f) (ikeys (fsib f) \<union> cikeys C)"

lemma plug_append: "plug (C @ D) t = plug D (plug C t)"
  by (induction C arbitrary: t) auto

lemma set_addrs_fill: "set (addrs (fill f t)) = insert (fadr f) (set (addrs t) \<union> set (addrs (fsib f)))"
  by (cases f) auto

lemma set_addrs_plug: "set (addrs (plug C t)) = set (addrs t) \<union> set (caddrs C)"
  by (induction C arbitrary: t) (auto simp: set_addrs_fill)

lemma distinct_addrs_fill:
  "distinct (addrs (fill f t)) \<longleftrightarrow>
     distinct (addrs t) \<and> distinct (addrs (fsib f)) \<and> fadr f \<notin> set (addrs t) \<and>
     fadr f \<notin> set (addrs (fsib f)) \<and> set (addrs t) \<inter> set (addrs (fsib f)) = {}"
  by (cases f) auto

lemma distinct_addrs_plug:
  "distinct (addrs (plug C t)) \<longleftrightarrow>
     distinct (addrs t) \<and> distinct (caddrs C) \<and> set (addrs t) \<inter> set (caddrs C) = {}"
  by (induction C arbitrary: t) (auto simp: distinct_addrs_fill set_addrs_fill)

lemma leaves_plug: "leaves (plug C t) = lctx C @ leaves t @ rctx C"
proof (induction C arbitrary: t)
  case (Cons f C)
  then show ?case by (cases f) auto
qed simp

lemma ikeys_plug: "ikeys (plug C t) = ikeys t \<union> cikeys C"
proof (induction C arbitrary: t)
  case (Cons f C)
  then show ?case by (cases f) auto
qed simp

lemma hole_in: "fst (hole rt C) \<in> insert rt (set (caddrs C))"
  by (cases C) auto

text \<open>The side conditions under which the hole is where a search for a key leads.\<close>

fun on_path :: "'k::linorder \<Rightarrow> ('k, 'v) ctx \<Rightarrow> bool" where
  "on_path x [] = True"
| "on_path x (f # C) = ((if is_FL f then x < fkey f else fkey f \<le> x) \<and> on_path x C)"

lemma bst_plug_inner: "bst (plug C t) \<Longrightarrow> bst t"
proof (induction C arbitrary: t)
  case (Cons f C)
  then have "bst (fill f t)" by simp
  then show ?case by (cases f) auto
qed simp

lemma bst_plug_lctx:
  assumes "bst (plug C t)" and "on_path x C"
  shows "\<forall>y\<in>set (map fst (lctx C)). y < x"
  using assms
proof (induction C arbitrary: t)
  case (Cons f C)
  have "bst (fill f t)" using Cons.prems(1) bst_plug_inner by auto
  then show ?case using Cons by (cases f) fastforce+
qed simp

lemma bst_plug_rctx:
  assumes "bst (plug C t)" and "on_path x C"
  shows "\<forall>y\<in>set (map fst (rctx C)). x < y"
  using assms
proof (induction C arbitrary: t)
  case (Cons f C)
  have "bst (fill f t)" using Cons.prems(1) bst_plug_inner by auto
  then show ?case using Cons by (cases f) fastforce+
qed simp

lemma bst_plug_replace:
  assumes "bst (plug C t)" and "bst t'" and "on_path x C"
    and "set (lkeys t') \<subseteq> insert x (set (lkeys t))"
  shows "bst (plug C t')"
  using assms
proof (induction C arbitrary: t t')
  case (Cons f C)
  have b: "bst (fill f t)" using Cons.prems(1) bst_plug_inner by auto
  have b': "bst (fill f t')"
    using b Cons.prems(2-4) by (cases f) fastforce+
  have "set (lkeys (fill f t')) \<subseteq> insert x (set (lkeys (fill f t)))"
    using Cons.prems(4) by (cases f) auto
  then show ?case using Cons.IH[OF _ b'] Cons.prems(1,3) by simp
qed simp

lemma bst_plug_same_keys:
  assumes "bst (plug C t)" and "bst t'" and "set (lkeys t') \<subseteq> set (lkeys t)"
  shows "bst (plug C t')"
  using assms
proof (induction C arbitrary: t t')
  case (Cons f C)
  have b: "bst (fill f t)" using Cons.prems(1) bst_plug_inner by auto
  have b': "bst (fill f t')"
    using b Cons.prems(2-3) by (cases f) fastforce+
  have "set (lkeys (fill f t')) \<subseteq> set (lkeys (fill f t))"
    using Cons.prems(3) by (cases f) auto
  then show ?case using Cons.IH[OF _ b'] Cons.prems(1) by simp
qed simp

lemma pathw_plug:
  assumes "pathw (plug C t) n"
  obtains m where "pathw t m" "\<And>t'. pathw t' m \<Longrightarrow> pathw (plug C t') n"
    "\<forall>f\<in>set C. 0 \<le> fwt f"
proof -
  have "\<exists>m. pathw t m \<and> (\<forall>t'. pathw t' m \<longrightarrow> pathw (plug C t') n) \<and> (\<forall>f\<in>set C. 0 \<le> fwt f)"
    using assms
  proof (induction C arbitrary: t)
    case (Cons f C)
    from Cons.prems have "pathw (plug C (fill f t)) n" by simp
    from Cons.IH[OF this] obtain m where m: "pathw (fill f t) m"
      "\<forall>t'. pathw t' m \<longrightarrow> pathw (plug C t') n" "\<forall>f\<in>set C. 0 \<le> fwt f" by blast
    from m(1) have "pathw t (m - fwt f)" "0 \<le> fwt f" by (cases f; simp)+
    moreover have "\<forall>t'. pathw t' (m - fwt f) \<longrightarrow> pathw (plug (f # C) t') n"
      using m(1,2) by (cases f) auto
    ultimately show ?case using m(3) by (intro exI[of _ "m - fwt f"]) auto
  qed auto
  then show ?thesis using that by blast
qed

section \<open>Searching\<close>

fun zdown :: "'k::linorder \<Rightarrow> ('k, 'v) ctx \<Rightarrow> ('k, 'v) ct \<Rightarrow> ('k, 'v) ctx \<times> ('k, 'v) ct" where
  "zdown x C (Lf a k v w) = (C, Lf a k v w)"
| "zdown x C (Nd a k v w l r) =
    (if x < k then zdown x (FL a k v w r # C) l else zdown x (FR a k v w l # C) r)"

lemma zdown_plug: "zdown x C t = (D, u) \<Longrightarrow> plug D u = plug C t"
  by (induction x C t rule: zdown.induct) (auto split: if_splits)

lemma zdown_leaf: "zdown x C t = (D, u) \<Longrightarrow> is_leaf u"
  by (induction x C t rule: zdown.induct) (auto split: if_splits)

lemma zdown_on_path: "zdown x C t = (D, u) \<Longrightarrow> on_path x C \<Longrightarrow> on_path x D"
  by (induction x C t rule: zdown.induct) (auto split: if_splits)

lemma zdown_suffix: "zdown x C t = (D, u) \<Longrightarrow> \<exists>E. D = E @ C"
proof (induction x C t arbitrary: D u rule: zdown.induct)
  case (2 x C a k v w l r)
  then show ?case by (cases "x < k") fastforce+
qed simp

text \<open>A search of a tree ends at a leaf that holds the key, if any leaf does.\<close>

lemma zdown_lookup:
  assumes "bst t" and "zdown x C t = (D, u)"
  shows "map_of (leaves t) x = (if tkey u = x then Some (tval u) else None)"
  using assms
proof (induction x C t rule: zdown.induct)
  case (2 x C a k v w l r)
  show ?case
  proof (cases "x < k")
    case True
    then have "x \<notin> fst ` set (leaves r)" using 2(3) by fastforce
    then have "map_of (leaves r) x = None" by (rule map_of_not_key)
    then show ?thesis using 2 True by (auto simp: map_add_def)
  next
    case False
    then have "x \<notin> fst ` set (leaves l)" using 2(3) by fastforce
    then have "map_of (leaves l) x = None" by (rule map_of_not_key)
    then show ?thesis using 2 False by (auto simp: map_add_def split: option.splits)
  qed
qed auto

end
