(* ===== verification/Heap_Trees.thy ===== *)
theory Heap_Trees
  imports LLX_SCX Chromatic_Trees
begin

text \<open>
  Trees in the node store: when the records reachable from the root form the tree \<open>T\<close>
  (\<open>hwf st T\<close>) and what \<open>llx\<close> returns on its nodes.
\<close>

section \<open>Trees and contexts in memory\<close>

definition same_fields :: "('k, 'v) Node \<Rightarrow> ('k, 'v) Node \<Rightarrow> bool" where
  "same_fields m n \<longleftrightarrow> key m = key n \<and> val m = val n \<and> weight m = weight n \<and>
     left m = left n \<and> right m = right n"

fun tree_at :: "(addr \<Rightarrow> ('k, 'v) Node) \<Rightarrow> ('k, 'v) ct \<Rightarrow> bool" where
  "tree_at h (Lf a k v w) \<longleftrightarrow>
     a \<noteq> NULL \<and> key (h a) = k \<and> val (h a) = v \<and> weight (h a) = w \<and>
     left (h a) = NULL \<and> right (h a) = NULL"
| "tree_at h (Nd a k v w l r) \<longleftrightarrow>
     a \<noteq> NULL \<and> key (h a) = k \<and> val (h a) = v \<and> weight (h a) = w \<and>
     left (h a) = adr l \<and> right (h a) = adr r \<and> tree_at h l \<and> tree_at h r"

fun frame_at :: "(addr \<Rightarrow> ('k, 'v) Node) \<Rightarrow> ('k, 'v) frame \<Rightarrow> addr \<Rightarrow> bool" where
  "frame_at h (FL b k v w s) a \<longleftrightarrow>
     b \<noteq> NULL \<and> key (h b) = k \<and> val (h b) = v \<and> weight (h b) = w \<and>
     left (h b) = a \<and> right (h b) = adr s \<and> tree_at h s"
| "frame_at h (FR b k v w s) a \<longleftrightarrow>
     b \<noteq> NULL \<and> key (h b) = k \<and> val (h b) = v \<and> weight (h b) = w \<and>
     left (h b) = adr s \<and> right (h b) = a \<and> tree_at h s"

fun ctx_at :: "(addr \<Rightarrow> ('k, 'v) Node) \<Rightarrow> ('k, 'v) ctx \<Rightarrow> addr \<Rightarrow> bool" where
  "ctx_at h [] a = True"
| "ctx_at h (f # C) a \<longleftrightarrow> frame_at h f a \<and> ctx_at h C (fadr f)"

lemma tree_at_adr: "tree_at h t \<Longrightarrow> adr t \<noteq> NULL"
  by (cases t) auto

lemma tree_at_sel:
  assumes "tree_at h t"
  shows "key (h (adr t)) = tkey t" "val (h (adr t)) = tval t" "weight (h (adr t)) = wt t"
    "left (h (adr t)) = ladr t" "right (h (adr t)) = radr t"
  using assms by (cases t; simp)+

lemma tree_at_ladr: "tree_at h t \<Longrightarrow> ladr t = NULL \<longleftrightarrow> is_leaf t"
  by (cases t) (auto dest: tree_at_adr)

lemma tree_at_fill: "tree_at h (fill f t) \<longleftrightarrow> frame_at h f (adr t) \<and> tree_at h t"
  by (cases f) auto

lemma adr_fill [simp]: "adr (fill f t) = fadr f"
  by (cases f) auto

lemma tree_at_plug: "tree_at h (plug C t) \<longleftrightarrow> tree_at h t \<and> ctx_at h C (adr t)"
  by (induction C arbitrary: t) (auto simp: tree_at_fill)

lemma adr_plug: "adr (plug C t) = (if C = [] then adr t else fadr (last C))"
  by (induction C arbitrary: t) auto

lemma tree_at_cong:
  "(\<And>a. a \<in> set (addrs t) \<Longrightarrow> same_fields (h a) (h' a)) \<Longrightarrow> tree_at h t = tree_at h' t"
  by (induction t) (auto simp: same_fields_def)

lemma ctx_at_cong:
  assumes "\<And>a. a \<in> set (caddrs C) \<Longrightarrow> same_fields (h a) (h' a)"
  shows "ctx_at h C x = ctx_at h' C x"
  using assms
proof (induction C arbitrary: x)
  case (Cons f C)
  have "frame_at h f x = frame_at h' f x"
    using Cons.prems tree_at_cong[of "fsib f" h h']
    by (cases f) (auto simp: same_fields_def)
  then show ?case using Cons by simp
qed simp

lemma ctx_at_fadr: "ctx_at h C a \<Longrightarrow> f \<in> set C \<Longrightarrow> fadr f \<noteq> NULL \<and> weight (h (fadr f)) = fwt f
  \<and> key (h (fadr f)) = fkey f"
proof (induction C arbitrary: a)
  case (Cons g C)
  then show ?case by (cases g) auto
qed simp

section \<open>Well-formed memory\<close>

definition ready :: "('k, 'v) Chromatic \<Rightarrow> nat \<Rightarrow> bool" where
  "ready st t \<longleftrightarrow> allocatedSCXRecord st t \<noteq> NULL"

definition finished :: "SCXRecord \<Rightarrow> bool" where
  "finished r \<longleftrightarrow> scx_state r = STATE_COMMITTED \<or>
     STATE_ABORTED \<le> scx_state r \<and> scx_state r mod 4 = STATE_ABORTED"

text \<open>The spare records of the threads: allocated, pairwise different, in use by nobody.\<close>

definition spare_ok :: "(nat \<Rightarrow> bool) \<Rightarrow> (nat \<Rightarrow> nat \<Rightarrow> addr) \<Rightarrow> addr \<Rightarrow> bool" where
  "spare_ok R f m \<longleftrightarrow> 2 \<le> m \<and> (\<forall>t i. R t \<and> i < 5 \<longrightarrow> 2 \<le> f t i \<and> f t i < m) \<and>
     (\<forall>t i u j. R t \<and> R u \<and> i < 5 \<and> j < 5 \<and> f t i = f u j \<longrightarrow> t = u \<and> i = j)"

definition spare_scx_ok :: "(nat \<Rightarrow> bool) \<Rightarrow> (nat \<Rightarrow> addr) \<Rightarrow> addr \<Rightarrow> addr \<Rightarrow> bool" where
  "spare_scx_ok R f d m \<longleftrightarrow> 2 \<le> d \<and> d < m \<and> (\<forall>t. R t \<longrightarrow> 2 \<le> f t \<and> f t < m \<and> f t \<noteq> d) \<and>
     (\<forall>t u. R t \<and> R u \<and> f t = f u \<longrightarrow> t = u)"

definition pools_ok :: "('k, 'v) Chromatic \<Rightarrow> bool" where
  "pools_ok st \<longleftrightarrow> finished (scxH st (dummy st)) \<and>
     spare_scx_ok (ready st) (allocatedSCXRecord st) (dummy st) (nextSCX st) \<and>
     spare_ok (ready st) (allocatedNodes st) (nextNode st) \<and>
     spare_ok (ready st) (allocatedVersions st) (nextVersion st)"

lemma spare_ok_mono: "spare_ok R f m \<Longrightarrow> m \<le> m' \<Longrightarrow> spare_ok R f m'"
  unfolding spare_ok_def using less_le_trans[of _ m m'] order_trans[of 2 m m'] by blast

lemma spare_ok_refill:
  assumes ok: "spare_ok R f m"
  shows "spare_ok R (f(tid := \<lambda>i. if i < n then m + i else f tid i)) (m + n)"
proof -
  define g where "g = f(tid := \<lambda>i. if i < n then m + i else f tid i)"
  have f: "2 \<le> f t i" "f t i < m" if "R t" "i < 5" for t i
    using ok that unfolding spare_ok_def by blast+
  have inj: "t = u \<and> i = j" if "R t" "R u" "i < 5" "j < 5" "f t i = f u j" for t i u j
    using ok that unfolding spare_ok_def by blast
  have m: "2 \<le> m" using ok unfolding spare_ok_def by blast
  have "2 \<le> g t i \<and> g t i < m + n" if "R t \<and> i < 5" for t i
    using f[of t i] that m by (auto simp: g_def)
  moreover have "t = u \<and> i = j" if "R t \<and> R u \<and> i < 5 \<and> j < 5 \<and> g t i = g u j" for t i u j
    using that f(2)[of t i] f(2)[of u j] inj[of t u i j] by (auto simp: g_def split: if_splits)
  ultimately show ?thesis using m unfolding g_def[symmetric] spare_ok_def
    by (intro conjI allI impI) (simp, blast+)
qed

lemma spare_scx_ok_refill:
  assumes "spare_scx_ok R f d m"
  shows "spare_scx_ok R (f(tid := m)) d (Suc m)"
proof -
  define g where "g = f(tid := m)"
  have f: "2 \<le> f t" "f t < m" "f t \<noteq> d" if "R t" for t
    using assms that unfolding spare_scx_ok_def by blast+
  have d: "2 \<le> d" "d < m" using assms unfolding spare_scx_ok_def by blast+
  have inj: "t = u" if "R t" "R u" "f t = f u" for t u
    using assms that unfolding spare_scx_ok_def by blast
  have "2 \<le> g t \<and> g t < Suc m \<and> g t \<noteq> d" if "R t" for t
    using f[of t] that d by (auto simp: g_def)
  moreover have "t = u" if "R t \<and> R u \<and> g t = g u" for t u
    using that f(2)[of t] f(2)[of u] inj[of t u] by (auto simp: g_def split: if_splits)
  ultimately show ?thesis
    using d unfolding g_def[symmetric] spare_scx_ok_def by (intro conjI allI impI) (simp, simp, blast+)
qed

text \<open>A version that some node may point to: allocated and not a spare record.\<close>

definition live_version :: "('k, 'v) Chromatic \<Rightarrow> addr \<Rightarrow> bool" where
  "live_version st v \<longleftrightarrow> 2 \<le> v \<and> v < nextVersion st \<and>
     (\<forall>t i. ready st t \<and> i < 5 \<longrightarrow> allocatedVersions st t i \<noteq> v)"

text \<open>
  A node of the tree: not marked, frozen by no SCX in progress, and not a spare record.
\<close>

definition live_node :: "('k, 'v) Chromatic \<Rightarrow> addr \<Rightarrow> bool" where
  "live_node st a \<longleftrightarrow>
     2 \<le> a \<and> a < nextNode st \<and> \<not> marked (nodeH st a) \<and>
     2 \<le> scxRecord (nodeH st a) \<and> scxRecord (nodeH st a) < nextSCX st \<and>
     finished (scxH st (scxRecord (nodeH st a))) \<and>
     (\<forall>t. ready st t \<longrightarrow> scxRecord (nodeH st a) \<noteq> allocatedSCXRecord st t) \<and>
     (\<forall>t i. ready st t \<and> i < 5 \<longrightarrow> allocatedNodes st t i \<noteq> a)"

definition hwf :: "('k, 'v) Chromatic \<Rightarrow> ('k, 'v) ct \<Rightarrow> bool" where
  "hwf st T \<longleftrightarrow>
     pools_ok st \<and> tree_at (nodeH st) T \<and> nleft st (root st) = adr T \<and>
     nright st (root st) = NULL \<and> nkey st (root st) = NO_KEY st \<and> nweight st (root st) = 1 \<and>
     distinct (root st # addrs T) \<and> (\<forall>a\<in>set (root st # addrs T). live_node st a)"

lemma hwfD:
  assumes "hwf st T"
  shows "pools_ok st" "tree_at (nodeH st) T" "nleft st (root st) = adr T"
    "nright st (root st) = NULL" "nkey st (root st) = NO_KEY st" "nweight st (root st) = 1"
    "distinct (addrs T)" "root st \<notin> set (addrs T)" "live_node st (root st)"
    "\<And>a. a \<in> set (addrs T) \<Longrightarrow> live_node st a"
  using assms by (auto simp: hwf_def)

section \<open>llx on a live node\<close>

definition llx_value :: "('k, 'v) Chromatic \<Rightarrow> addr \<Rightarrow> addr" where
  "llx_value st a = (if nleft st a = NULL then LLX_RETURN_IS_LEAF else scxRecord (nodeH st a))"

lemma llx_live:
  assumes "live_node st a"
  shows "llx a st = ((llx_value st a, nleft st a, nright st a), st)"
  using assms by (auto simp: llx_def live_node_def finished_def llx_value_def Let_def)

lemma llx_value_nonnull: "live_node st a \<Longrightarrow> llx_value st a \<noteq> NULL"
  by (auto simp: llx_value_def live_node_def)

end
