(* ===== verification/Subtree_Replacement.thy ===== *)
theory Subtree_Replacement
  imports Heap_Trees
begin

unbundle bit_operations_syntax

text \<open>
  What one SCX does to a well-formed memory when no other thread interferes, and the two rules
  every update of the tree rests on: \<open>scx_replace\<close> (an SCX puts the tree \<open>S'\<close> in the place of \<open>S\<close>)
  and \<open>scx_rebuild\<close> (the same after the new nodes were filled in by \<open>initializeNode\<close>).
\<close>

section \<open>One SCX without interference\<close>

definition frozen_set :: "SCXRecord \<Rightarrow> nat \<Rightarrow> nat \<Rightarrow> addr set" where
  "frozen_set r i n = {scx_nodes r j |j. i \<le> j \<and> j < n \<and> scxRecordsSeen r j \<noteq> LLX_RETURN_IS_LEAF}"

lemma frozen_set_step:
  "i < n \<Longrightarrow> frozen_set r i n =
     (if scxRecordsSeen r i = LLX_RETURN_IS_LEAF then frozen_set r (Suc i) n
      else insert (scx_nodes r i) (frozen_set r (Suc i) n))"
  by (auto simp: frozen_set_def) (metis Suc_leI le_neq_implies_less)+

lemma frozen_set_empty [simp]: "\<not> i < n \<Longrightarrow> frozen_set r i n = {}"
  by (auto simp: frozen_set_def)

lemma freeze_loop_all:
  assumes "\<And>j. i \<le> j \<Longrightarrow> j < n \<Longrightarrow> scxRecordsSeen (scxH st s) j \<noteq> LLX_RETURN_IS_LEAF \<Longrightarrow>
      scxRecord (nodeH st (scx_nodes (scxH st s) j)) = scxRecordsSeen (scxH st s) j"
    and "inj_on (scx_nodes (scxH st s)) {i..<n}"
  shows "freeze_loop i n s fl st =
    (None, st\<lparr>nodeH := (\<lambda>a. if a \<in> frozen_set (scxH st s) i n then (nodeH st a)\<lparr>scxRecord := s\<rparr>
                            else nodeH st a)\<rparr>)"
  using assms
proof (induction i n s fl st rule: freeze_loop.induct)
  case (1 i n s fl st)
  let ?r = "scxH st s"
  show ?case
  proof (cases "i < n")
    case False
    then show ?thesis by (simp add: freeze_loop.simps)
  next
    case True
    have inj: "inj_on (scx_nodes ?r) {Suc i..<n}"
      using "1.prems"(2) by (rule inj_on_subset) auto
    show ?thesis
    proof (cases "scxRecordsSeen ?r i = LLX_RETURN_IS_LEAF")
      case leaf: True
      show ?thesis
        using True leaf "1.IH"(1)[OF True leaf _ inj] "1.prems"(1)
        by (simp add: freeze_loop.simps[of i] frozen_set_step)
    next
      case False
      define st1 where "st1 = set_scxRecord (scx_nodes ?r i) s st"
      have same: "scxH st1 = scxH st" by (simp add: st1_def set_scxRecord_def)
      have seen: "scxRecord (nodeH st (scx_nodes ?r i)) = scxRecordsSeen ?r i"
        using "1.prems"(1) True False by auto
      have other: "scx_nodes ?r j \<noteq> scx_nodes ?r i" if "Suc i \<le> j" "j < n" for j
        using inj_onD[OF "1.prems"(2), of j i] that by auto
      have "freeze_loop (Suc i) n s (fl OR push_bit i 1) st1 =
        (None, st1\<lparr>nodeH := (\<lambda>a. if a \<in> frozen_set (scxH st1 s) (Suc i) n
           then (nodeH st1 a)\<lparr>scxRecord := s\<rparr> else nodeH st1 a)\<rparr>)"
        unfolding st1_def
      proof (rule "1.IH"(2)[OF True False seen])
        fix j assume "Suc i \<le> j" "j < n"
          "scxRecordsSeen (scxH (set_scxRecord (scx_nodes ?r i) s st) s) j \<noteq> LLX_RETURN_IS_LEAF"
        then show "scxRecord (nodeH (set_scxRecord (scx_nodes ?r i) s st)
             (scx_nodes (scxH (set_scxRecord (scx_nodes ?r i) s st) s) j)) =
           scxRecordsSeen (scxH (set_scxRecord (scx_nodes ?r i) s st) s) j"
          using other "1.prems"(1)[of j] by (simp add: set_scxRecord_def)
      qed (use inj in \<open>simp add: set_scxRecord_def\<close>)
      moreover have "freeze_loop i n s fl st = freeze_loop (Suc i) n s (fl OR push_bit i 1) st1"
        using True False seen by (simp add: freeze_loop.simps[of i] st1_def)
      ultimately show ?thesis
        using True False
        by (auto simp: frozen_set_step st1_def set_scxRecord_def intro!: arg_cong[of _ _ "\<lambda>h. st\<lparr>nodeH := h\<rparr>"])
    qed
  qed
qed

lemma mark_loop_all:
  "mark_loop i n s st =
     st\<lparr>nodeH := (\<lambda>a. if a \<in> frozen_set (scxH st s) i n then (nodeH st a)\<lparr>marked := True\<rparr>
                      else nodeH st a)\<rparr>"
proof (induction i n s st rule: mark_loop.induct)
  case (1 i n s st)
  show ?case
  proof (cases "i < n")
    case False
    then show ?thesis by (simp add: mark_loop.simps)
  next
    case True
    then show ?thesis
      using "1.IH"
      by (auto simp: mark_loop.simps[of i] frozen_set_step set_marked_def
          intro!: arg_cong[of _ _ "\<lambda>h. st\<lparr>nodeH := h\<rparr>"])
  qed
qed


definition freeze_nodes ::
    "addr \<Rightarrow> addr set \<Rightarrow> addr set \<Rightarrow> (addr \<Rightarrow> ('k, 'v) Node) \<Rightarrow> addr \<Rightarrow> ('k, 'v) Node" where
  "freeze_nodes s F M h a =
    (let x = (if a \<in> F then (h a)\<lparr>scxRecord := s\<rparr> else h a)
     in if a \<in> M then x\<lparr>marked := True\<rparr> else x)"

abbreviation frozen_heap ::
    "addr \<Rightarrow> SCXRecord \<Rightarrow> nat \<Rightarrow> (addr \<Rightarrow> ('k, 'v) Node) \<Rightarrow> addr \<Rightarrow> ('k, 'v) Node" where
  "frozen_heap s r n \<equiv> freeze_nodes s (frozen_set r 0 n) (frozen_set r 1 n)"

definition put_field :: "field_ref \<Rightarrow> addr \<Rightarrow> (addr \<Rightarrow> ('k, 'v) Node) \<Rightarrow> addr \<Rightarrow> ('k, 'v) Node" where
  "put_field f x h = h(fst f := if snd f then (h (fst f))\<lparr>left := x\<rparr> else (h (fst f))\<lparr>right := x\<rparr>)"

lemma freeze_nodes_same: "same_fields (freeze_nodes s F M h a) (h a)"
  by (auto simp: freeze_nodes_def same_fields_def Let_def)

lemma freeze_nodes_sel [simp]:
  "version (freeze_nodes s F M h a) = version (h a)"
  "marked (freeze_nodes s F M h a) \<longleftrightarrow> a \<in> M \<or> marked (h a)"
  "scxRecord (freeze_nodes s F M h a) = (if a \<in> F then s else scxRecord (h a))"
  by (auto simp: freeze_nodes_def Let_def)

text \<open>
  When every node still points to the SCX record that LLX saw and the field still holds the node
  to be replaced, \<open>help\<close> freezes, finalises, changes the field and commits.
\<close>

lemma help_commits:
  fixes st :: "('k, 'v) Chromatic"
  assumes r: "r = scxH st s" and n: "n = NUM_TO_FREEZE ! scx_type r"
    and ip: "scx_state r = STATE_INPROGRESS"
    and seen: "\<And>j. j < n \<Longrightarrow> scxRecordsSeen r j \<noteq> LLX_RETURN_IS_LEAF \<Longrightarrow>
      scxRecord (nodeH st (scx_nodes r j)) = scxRecordsSeen r j"
    and inj: "inj_on (scx_nodes r) {0..<n}"
    and fld: "get_field st (scx_field r) = scx_nodes r 1"
  shows "help_SCX s False st =
    (STATE_COMMITTED,
     st\<lparr>nodeH := put_field (scx_field r) (newNode r) (frozen_heap s r n (nodeH st)),
        scxH := (scxH st)(s := r\<lparr>allFrozen := True, scx_state := STATE_COMMITTED\<rparr>)\<rparr>)"
proof -
  define h1 where "h1 = (\<lambda>a. if a \<in> frozen_set r 0 n then (nodeH st a)\<lparr>scxRecord := s\<rparr> else nodeH st a)"
  have fr: "freeze_loop 0 n s 1 st = (None, st\<lparr>nodeH := h1\<rparr>)"
    unfolding h1_def r by (rule freeze_loop_all) (use seen inj r in auto)
  define st2 where "st2 = set_allFrozen s (st\<lparr>nodeH := h1\<rparr>)"
  have r2: "frozen_set (scxH st2 s) 1 n = frozen_set r 1 n"
    by (simp add: st2_def set_allFrozen_def frozen_set_def r)
  have "nodeH st2 = h1" by (simp add: st2_def set_allFrozen_def)
  then have "(\<lambda>a. if a \<in> frozen_set (scxH st2 s) 1 n then (nodeH st2 a)\<lparr>marked := True\<rparr>
      else nodeH st2 a) = frozen_heap s r n (nodeH st)"
    unfolding r2 by (auto simp: h1_def freeze_nodes_def Let_def fun_eq_iff)
  then have mk: "mark_loop 1 n s st2 = st2\<lparr>nodeH := frozen_heap s r n (nodeH st)\<rparr>"
    by (simp only: mark_loop_all)
  have gf: "get_field (st2\<lparr>nodeH := frozen_heap s r n (nodeH st)\<rparr>) (scx_field r) = scx_nodes r 1"
    using fld freeze_nodes_same[of s "frozen_set r 0 n" "frozen_set r 1 n" "nodeH st" "fst (scx_field r)"]
    by (auto simp: get_field_def same_fields_def split: if_splits)
  show ?thesis
    using ip gf
    by (simp add: help_SCX_def r[symmetric] n[symmetric] fr st2_def[symmetric]
          mk[unfolded One_nat_def] Let_def)
       (simp add: st2_def set_allFrozen_def set_field_def put_field_def set_state_def Let_def r)
qed

subsection \<open>The bookkeeping after a committed SCX\<close>

lemma replace_pools_eq:
  "replace_pools n tid st =
     st\<lparr>allocatedNodes := (allocatedNodes st)(tid := \<lambda>i. if i < n then nextNode st + i else allocatedNodes st tid i),
        allocatedVersions := (allocatedVersions st)(tid := \<lambda>i. if i < n then nextVersion st + i else allocatedVersions st tid i),
        nextNode := nextNode st + n, nextVersion := nextVersion st + n\<rparr>"
proof (induction n)
  case 0
  show ?case by simp
next
  case (Suc n)
  then show ?case
    by (auto simp: REPLACE_ALLOCATED_VERSION_def REPLACE_ALLOCATED_NODE_def fun_eq_iff less_Suc_eq
        intro!: Chromatic.equality)
qed

lemma retire_nodes_eq:
  "retire_nodes n nodes st = st\<lparr>retiredNodes := rev (map ((!) nodes) [1..<n]) @ retiredNodes st\<rparr>"
  by (induction n) (auto simp: retireNode_def Let_def)

lemma flag_off_mod4: "STATE_GET_WITH_FLAG_OFF x i mod 4 = x mod 4"
proof -
  have "take_bit 2 (x AND NOT (push_bit (i + 7) 1)) = take_bit 2 x"
    by (rule bit_eqI) (auto simp: bit_simps)
  then show ?thesis by (simp add: STATE_GET_WITH_FLAG_OFF_def take_bit_eq_mod)
qed

lemma flag_off_nonneg: "0 \<le> x \<Longrightarrow> 0 \<le> STATE_GET_WITH_FLAG_OFF x i"
  by (simp add: STATE_GET_WITH_FLAG_OFF_def)

lemma finished_flag_off:
  assumes "finished r" "scx_state r \<noteq> STATE_COMMITTED"
  shows "finished (r\<lparr>scx_state := STATE_GET_WITH_FLAG_OFF (scx_state r) i\<rparr>)"
proof -
  let ?x = "STATE_GET_WITH_FLAG_OFF (scx_state r) i"
  have "0 \<le> ?x" using assms flag_off_nonneg[of "scx_state r"] by (auto simp: finished_def)
  moreover have "?x mod 4 = 2" using assms flag_off_mod4[of "scx_state r"] by (auto simp: finished_def)
  ultimately have "2 \<le> ?x" by presburger
  with \<open>?x mod 4 = 2\<close> show ?thesis by (simp add: finished_def)
qed

text \<open>Only SCX records of \<open>A\<close> and the retired list change; finished records stay finished.\<close>

definition scxs_updated ::
    "addr set \<Rightarrow> ('k, 'v) Chromatic \<Rightarrow> ('k, 'v) Chromatic \<Rightarrow> bool" where
  "scxs_updated A st st' \<longleftrightarrow>
     st' = st\<lparr>scxH := scxH st', retiredSCXs := retiredSCXs st'\<rparr> \<and>
     (\<forall>s. s \<notin> A \<longrightarrow> scxH st' s = scxH st s) \<and>
     (\<forall>s. finished (scxH st s) \<longrightarrow> finished (scxH st' s))"

lemma scxs_updated_refl [simp]: "scxs_updated A st st"
  by (simp add: scxs_updated_def)

lemma scxs_updated_frame:
  assumes "scxs_updated A st st'"
  shows "NO_KEY st' = NO_KEY st" "NO_VALUE st' = NO_VALUE st" "root st' = root st"
    "allowedViolations st' = allowedViolations st" "dummy st' = dummy st"
    "allocatedSCXRecord st' = allocatedSCXRecord st" "allocatedNodes st' = allocatedNodes st"
    "allocatedVersions st' = allocatedVersions st" "nodeH st' = nodeH st"
    "versionH st' = versionH st" "nextNode st' = nextNode st" "nextVersion st' = nextVersion st"
    "nextSCX st' = nextSCX st" "retiredNodes st' = retiredNodes st"
  using assms by (cases st, cases st', simp add: scxs_updated_def)+

lemma scxs_updatedD:
  assumes "scxs_updated A st st'"
  shows "s \<notin> A \<Longrightarrow> scxH st' s = scxH st s" "finished (scxH st s) \<Longrightarrow> finished (scxH st' s)"
  using assms unfolding scxs_updated_def by blast+

lemma scxs_updated_retireSCX: "scxs_updated A st st' \<Longrightarrow> scxs_updated A st (retireSCX s st')"
  by (cases st, cases st') (simp add: scxs_updated_def retireSCX_def)

lemma scxs_updated_trans:
  assumes "scxs_updated A st st'" and "scxs_updated B st' st''" and "A \<subseteq> D" and "B \<subseteq> D"
  shows "scxs_updated D st st''"
proof -
  have "st'' = st\<lparr>scxH := scxH st'', retiredSCXs := retiredSCXs st''\<rparr>"
    using assms(1,2) by (cases st, cases st', cases st'') (simp add: scxs_updated_def)
  moreover have "scxH st'' s = scxH st s" if "s \<notin> D" for s
    using that assms(3,4) scxs_updatedD(1)[OF assms(1), of s] scxs_updatedD(1)[OF assms(2), of s]
    by (metis subsetD)
  moreover have "finished (scxH st'' s)" if "finished (scxH st s)" for s
    using that scxs_updatedD(2)[OF assms(1)] scxs_updatedD(2)[OF assms(2)] by blast
  ultimately show ?thesis
    unfolding scxs_updated_def by blast
qed

lemma scxs_updated_flag_off:
  assumes "scx_state (scxH st s) \<noteq> STATE_COMMITTED"
  shows "scxs_updated {s} st (set_state s (STATE_GET_WITH_FLAG_OFF (scx_state (scxH st s)) i) st)"
  using finished_flag_off[OF _ assms] by (auto simp: scxs_updated_def set_state_def)

lemma tryRetire_updated: "scxs_updated {s} st (snd (tryRetireSCXRecord s n st))"
  using scxs_updated_flag_off[of st s] scxs_updated_retireSCX[of "{s}" st]
  by (simp add: tryRetireSCXRecord_def Let_def split: option.split)

lemma retire_seen_updated: "scxs_updated {seen ! i |i. i < n} st (retire_seen n nodes seen st)"
proof (induction n)
  case (Suc n)
  show ?case
  proof (cases "seen ! n = LLX_RETURN_IS_LEAF")
    case True
    then show ?thesis
      using scxs_updated_trans[OF Suc scxs_updated_refl[of "{}"], of "{seen ! i |i. i < Suc n}"]
      by (auto simp: less_Suc_eq)
  next
    case False
    then show ?thesis
      using scxs_updated_trans[OF Suc tryRetire_updated, of "{seen ! i |i. i < Suc n}"]
      by (auto simp: Let_def less_Suc_eq)
  qed
qed simp

subsection \<open>A committing scx\<close>

text \<open>
  What one SCX call of thread \<open>tid\<close> does to a memory in which nobody interferes.
\<close>

definition scx_effect ::
    "nat \<Rightarrow> nat \<Rightarrow> addr list \<Rightarrow> addr list \<Rightarrow> field_ref \<Rightarrow> addr \<Rightarrow>
     ('k, 'v) Chromatic \<Rightarrow> ('k, 'v) Chromatic \<Rightarrow> bool" where
  "scx_effect tid ty nodes seen fld new st st' \<longleftrightarrow>
    (let s = allocatedSCXRecord st tid; nF = NUM_TO_FREEZE ! ty; nI = NUM_INSERTED ! ty;
         F = {nodes ! j |j. j < nF \<and> seen ! j \<noteq> LLX_RETURN_IS_LEAF};
         M = {nodes ! j |j. 1 \<le> j \<and> j < nF \<and> seen ! j \<noteq> LLX_RETURN_IS_LEAF}
     in nodeH st' = put_field fld new (freeze_nodes s F M (nodeH st)) \<and>
        scx_state (scxH st' s) = STATE_COMMITTED \<and>
        (\<forall>s'. s' \<noteq> s \<and> finished (scxH st s') \<longrightarrow> finished (scxH st' s')) \<and>
        allocatedSCXRecord st' = (allocatedSCXRecord st)(tid := nextSCX st) \<and>
        nextSCX st' = Suc (nextSCX st) \<and>
        allocatedNodes st' = (allocatedNodes st)(tid :=
          \<lambda>i. if i < nI then nextNode st + i else allocatedNodes st tid i) \<and>
        allocatedVersions st' = (allocatedVersions st)(tid :=
          \<lambda>i. if i < nI then nextVersion st + i else allocatedVersions st tid i) \<and>
        nextNode st' = nextNode st + nI \<and> nextVersion st' = nextVersion st + nI \<and>
        versionH st' = versionH st \<and> root st' = root st \<and> dummy st' = dummy st \<and>
        NO_KEY st' = NO_KEY st \<and> NO_VALUE st' = NO_VALUE st \<and>
        allowedViolations st' = allowedViolations st \<and>
        retiredNodes st' = rev (map ((!) nodes) [1..<NUM_OF_NODES ! ty]) @ retiredNodes st)"

lemma scx_commits:
  fixes st :: "('k, 'v) Chromatic" and tid ty :: nat
  defines "s \<equiv> allocatedSCXRecord st tid" and "nF \<equiv> NUM_TO_FREEZE ! ty"
  assumes nF: "0 < nF" "nF \<le> NUM_OF_NODES ! ty" "1 < NUM_OF_NODES ! ty"
    and len: "length nodes = NUM_OF_NODES ! ty" and dist: "distinct nodes"
    and seen: "\<And>j. j < nF \<Longrightarrow> seen ! j \<noteq> LLX_RETURN_IS_LEAF \<Longrightarrow>
      scxRecord (nodeH st (nodes ! j)) = seen ! j"
    and fresh: "\<And>j. j < nF \<Longrightarrow> seen ! j \<noteq> s"
    and fld: "get_field st fld = nodes ! 1"
  shows "\<exists>st'. scx tid ty nodes seen fld new st = (True, st') \<and>
           scx_effect tid ty nodes seen fld new st st'"
proof -
  define st1 where "st1 = initializeSCXRecord s ty nodes seen fld new st"
  define r where "r = scxH st1 s"
  have r: "scx_state r = STATE_INPROGRESS" "scx_type r = ty" "newNode r = new" "scx_field r = fld"
    "\<And>j. j < NUM_OF_NODES ! ty \<Longrightarrow> scx_nodes r j = nodes ! j"
    "\<And>j. j < nF \<Longrightarrow> scxRecordsSeen r j = seen ! j"
    by (simp_all add: r_def st1_def initializeSCXRecord_def Let_def nF_def)
  have same: "nodeH st1 = nodeH st" by (simp add: st1_def initializeSCXRecord_def Let_def)
  define h where "h = put_field fld new (frozen_heap s r nF (nodeH st))"
  have hlp: "help_SCX s False st1 = (STATE_COMMITTED,
      st1\<lparr>nodeH := h, scxH := (scxH st1)(s := r\<lparr>allFrozen := True, scx_state := STATE_COMMITTED\<rparr>)\<rparr>)"
    unfolding h_def r(3)[symmetric] r(4)[symmetric] same[symmetric]
  proof (rule help_commits)
    show "r = scxH st1 s" by (simp add: r_def)
    show "nF = NUM_TO_FREEZE ! scx_type r" by (simp add: r nF_def)
    show "inj_on (scx_nodes r) {0..<nF}"
      using dist nF(2) len by (auto simp: inj_on_def r nth_eq_iff_index_eq)
    show "get_field st1 (scx_field r) = scx_nodes r 1"
      using fld nF by (auto simp: r get_field_def same split: if_splits)
    fix j assume "j < nF" "scxRecordsSeen r j \<noteq> LLX_RETURN_IS_LEAF"
    then show "scxRecord (nodeH st1 (scx_nodes r j)) = scxRecordsSeen r j"
      using seen nF by (simp add: r same)
  qed (rule r)
  define st2 where "st2 = st1\<lparr>nodeH := h, scxH := (scxH st1)(s := r\<lparr>allFrozen := True, scx_state := STATE_COMMITTED\<rparr>)\<rparr>"
  define st3 where "st3 = replace_pools (NUM_INSERTED ! ty) tid (REPLACE_ALLOCATED_SCXRECORD tid st2)"
  define st4 where "st4 = retire_seen nF nodes seen st3"
  have rt: "scxs_updated {seen ! i |i. i < nF} st3 st4"
    unfolding st4_def by (rule retire_seen_updated)
  have hlp2: "help_SCX s False st1 = (STATE_COMMITTED, st2)"
    by (simp only: hlp st2_def)
  have e1: "scx tid ty nodes seen fld new st = reclaimMemoryAfterSCX tid ty nodes seen STATE_COMMITTED st2"
    unfolding scx_def Let_def s_def[symmetric] st1_def[symmetric] hlp2 by simp
  have e2: "reclaimMemoryAfterSCX tid ty nodes seen STATE_COMMITTED st2 =
      (True, retire_nodes (NUM_OF_NODES ! ty) nodes st4)"
    using nF(1)
    by (simp add: reclaimMemoryAfterSCX_def nF_def[symmetric] st4_def st3_def Let_def)
  have "scx_effect tid ty nodes seen fld new st (retire_nodes (NUM_OF_NODES ! ty) nodes st4)"
  proof -
    have rj: "scx_nodes r j = nodes ! j" "scxRecordsSeen r j = seen ! j" if "j < nF" for j
      using that nF(2) by (simp_all add: r)
    have F: "frozen_set r i nF = {nodes ! j |j. i \<le> j \<and> j < nF \<and> seen ! j \<noteq> LLX_RETURN_IS_LEAF}" for i
      unfolding frozen_set_def by (rule Collect_cong, rule ex_cong1) (auto simp: rj)
    have hs: "scx_state (scxH st4 s) = STATE_COMMITTED"
    proof -
      have "s \<notin> {seen ! i |i. i < nF}" using fresh by blast
      then show ?thesis using scxs_updatedD(1)[OF rt, of s]
        by (simp add: st3_def st2_def replace_pools_eq REPLACE_ALLOCATED_SCXRECORD_def)
    qed
    have fin: "finished (scxH st4 s')" if "s' \<noteq> s" "finished (scxH st s')" for s'
      using scxs_updatedD(2)[OF rt, of s'] that
      by (simp add: st3_def st2_def st1_def replace_pools_eq REPLACE_ALLOCATED_SCXRECORD_def
          initializeSCXRecord_def Let_def)
    show ?thesis
      using hs fin
      by (simp add: scx_effect_def retire_nodes_eq scxs_updated_frame[OF rt] st3_def st2_def st1_def
          replace_pools_eq REPLACE_ALLOCATED_SCXRECORD_def initializeSCXRecord_def h_def
          s_def[symmetric] nF_def[symmetric] F[of 0, simplified] F[unfolded One_nat_def] Let_def
          cong: if_cong)
  qed
  then show ?thesis using trans[OF e1 e2] by blast
qed

subsection \<open>Replacing a subtree\<close>

lemma scx_effect_ready:
  assumes "scx_effect tid ty nodes seen fld new st st'" and "pools_ok st" and "ready st tid"
  shows "ready st' t = ready st t"
proof -
  have "allocatedSCXRecord st' = (allocatedSCXRecord st)(tid := nextSCX st)"
    using assms(1) unfolding scx_effect_def Let_def by blast
  moreover have "nextSCX st \<noteq> NULL"
    using assms(2) unfolding pools_ok_def spare_scx_ok_def by linarith
  ultimately show ?thesis using assms(3) by (simp add: ready_def)
qed

lemma pools_ok_spare:
  assumes "pools_ok st" and "ready st t"
  shows "2 \<le> allocatedSCXRecord st t" "allocatedSCXRecord st t < nextSCX st"
    "allocatedSCXRecord st t \<noteq> dummy st"
    "\<And>i. i < 5 \<Longrightarrow> 2 \<le> allocatedNodes st t i" "\<And>i. i < 5 \<Longrightarrow> allocatedNodes st t i < nextNode st"
    "\<And>i. i < 5 \<Longrightarrow> 2 \<le> allocatedVersions st t i"
    "\<And>i. i < 5 \<Longrightarrow> allocatedVersions st t i < nextVersion st"
  using assms unfolding pools_ok_def spare_ok_def spare_scx_ok_def by blast+

lemma pools_ok_inj:
  assumes "pools_ok st" and "ready st t" and "ready st u"
  shows "allocatedSCXRecord st t = allocatedSCXRecord st u \<Longrightarrow> t = u"
    "i < 5 \<Longrightarrow> j < 5 \<Longrightarrow> allocatedNodes st t i = allocatedNodes st u j \<Longrightarrow> t = u \<and> i = j"
    "i < 5 \<Longrightarrow> j < 5 \<Longrightarrow> allocatedVersions st t i = allocatedVersions st u j \<Longrightarrow> t = u \<and> i = j"
  using assms unfolding pools_ok_def spare_ok_def spare_scx_ok_def by blast+

lemma pools_ok_dummy:
  assumes "pools_ok st"
  shows "2 \<le> dummy st" "dummy st < nextSCX st" "finished (scxH st (dummy st))"
    "2 \<le> nextNode st" "2 \<le> nextVersion st"
  using assms unfolding pools_ok_def spare_ok_def spare_scx_ok_def by blast+

lemma pools_ok_scx:
  assumes eff: "scx_effect tid ty nodes seen fld new st st'" and ok: "pools_ok st"
    and rd: "ready st tid"
  shows "pools_ok st'"
proof -
  have rdy: "ready st' = ready st"
    using scx_effect_ready[OF eff ok rd] by blast
  have e: "allocatedSCXRecord st' = (allocatedSCXRecord st)(tid := nextSCX st)"
    "nextSCX st' = Suc (nextSCX st)" "dummy st' = dummy st"
    "allocatedNodes st' = (allocatedNodes st)(tid :=
       \<lambda>i. if i < NUM_INSERTED ! ty then nextNode st + i else allocatedNodes st tid i)"
    "allocatedVersions st' = (allocatedVersions st)(tid :=
       \<lambda>i. if i < NUM_INSERTED ! ty then nextVersion st + i else allocatedVersions st tid i)"
    "nextNode st' = nextNode st + NUM_INSERTED ! ty"
    "nextVersion st' = nextVersion st + NUM_INSERTED ! ty"
    "dummy st \<noteq> allocatedSCXRecord st tid \<Longrightarrow> finished (scxH st (dummy st)) \<Longrightarrow>
       finished (scxH st' (dummy st))"
    using eff unfolding scx_effect_def Let_def by blast+
  have "finished (scxH st' (dummy st))"
    using e(8) pools_ok_spare(3)[OF ok rd] pools_ok_dummy(3)[OF ok] by metis
  then show ?thesis
    using ok unfolding pools_ok_def rdy e(1-7)
    by (simp only: spare_ok_refill spare_scx_ok_refill simp_thms)
qed

text \<open>What stays the same for the rest of the program.\<close>

definition framed :: "('k, 'v) Chromatic \<Rightarrow> ('k, 'v) Chromatic \<Rightarrow> bool" where
  "framed st st' \<longleftrightarrow>
     NO_KEY st' = NO_KEY st \<and> NO_VALUE st' = NO_VALUE st \<and>
     allowedViolations st' = allowedViolations st \<and> root st' = root st \<and>
     (\<forall>t. ready st' t = ready st t) \<and>
     (\<forall>v. live_version st v \<longrightarrow> live_version st' v \<and> versionH st' v = versionH st v)"

lemma framed_refl [simp]: "framed st st"
  by (simp add: framed_def)

lemma framed_trans: "framed st st' \<Longrightarrow> framed st' st'' \<Longrightarrow> framed st st''"
  by (simp add: framed_def)

lemma framed_scx:
  assumes eff: "scx_effect tid ty nodes seen fld new st st'" and ok: "pools_ok st"
    and rd: "ready st tid"
  shows "framed st st'"
proof -
  have e: "allocatedVersions st' = (allocatedVersions st)(tid :=
      \<lambda>i. if i < NUM_INSERTED ! ty then nextVersion st + i else allocatedVersions st tid i)"
    "nextVersion st' = nextVersion st + NUM_INSERTED ! ty" "versionH st' = versionH st"
    "NO_KEY st' = NO_KEY st" "NO_VALUE st' = NO_VALUE st" "root st' = root st"
    "allowedViolations st' = allowedViolations st"
    using eff unfolding scx_effect_def Let_def by blast+
  have "live_version st' v" if "live_version st v" for v
    using that by (simp add: live_version_def scx_effect_ready[OF eff ok rd] e)
  then show ?thesis
    by (simp add: framed_def scx_effect_ready[OF eff ok rd] e(3-7))
qed

lemma live_scx:
  assumes eff: "scx_effect tid ty nodes seen fld new st st'" and ok: "pools_ok st"
    and rd: "ready st tid" and live: "live_node st a" and "a \<notin> set (tl nodes)"
    and len: "length nodes = NUM_OF_NODES ! ty" "NUM_TO_FREEZE ! ty \<le> NUM_OF_NODES ! ty"
  shows "live_node st' a"
proof -
  let ?s = "allocatedSCXRecord st tid" and ?nF = "NUM_TO_FREEZE ! ty"
  define F where "F = {nodes ! j |j. j < ?nF \<and> seen ! j \<noteq> LLX_RETURN_IS_LEAF}"
  define M where "M = {nodes ! j |j. 1 \<le> j \<and> j < ?nF \<and> seen ! j \<noteq> LLX_RETURN_IS_LEAF}"
  have "a \<notin> M"
  proof
    assume "a \<in> M"
    then obtain j where "a = nodes ! j" "1 \<le> j" "j < ?nF" unfolding M_def by blast
    then have "a = tl nodes ! (j - 1)" "j - 1 < length (tl nodes)"
      using len by (auto simp: nth_tl)
    with assms(5) show False by auto
  qed
  have e: "nodeH st' = put_field fld new (freeze_nodes ?s F M (nodeH st))"
    "scx_state (scxH st' ?s) = STATE_COMMITTED"
    "\<And>s'. s' \<noteq> ?s \<Longrightarrow> finished (scxH st s') \<Longrightarrow> finished (scxH st' s')"
    "allocatedSCXRecord st' = (allocatedSCXRecord st)(tid := nextSCX st)"
    "allocatedNodes st' = (allocatedNodes st)(tid :=
       \<lambda>i. if i < NUM_INSERTED ! ty then nextNode st + i else allocatedNodes st tid i)"
    "nextSCX st' = Suc (nextSCX st)" "nextNode st' = nextNode st + NUM_INSERTED ! ty"
    using eff unfolding scx_effect_def Let_def F_def M_def by blast+
  note sp = pools_ok_spare[OF ok] pools_ok_inj[OF ok]
  have sel: "marked (nodeH st' a) = marked (nodeH st a)"
    "scxRecord (nodeH st' a) = (if a \<in> F then ?s else scxRecord (nodeH st a))"
    using \<open>a \<notin> M\<close> by (auto simp: e(1) put_field_def)
  have r: "2 \<le> scxRecord (nodeH st a)" "scxRecord (nodeH st a) < nextSCX st"
    "\<And>t. ready st t \<Longrightarrow> scxRecord (nodeH st a) \<noteq> allocatedSCXRecord st t"
    "finished (scxH st (scxRecord (nodeH st a)))"
    using live by (auto simp: live_node_def)
  have fin: "finished (scxH st' (scxRecord (nodeH st' a)))"
    using e(2,3) r(3)[OF rd] r(4) by (simp add: sel finished_def)
  show ?thesis
    unfolding live_node_def scx_effect_ready[OF eff ok rd]
  proof (intro conjI allI impI)
    show "2 \<le> a" "a < nextNode st'" "\<not> marked (nodeH st' a)"
      using live by (simp_all add: live_node_def e(7) sel)
    show "2 \<le> scxRecord (nodeH st' a)" "scxRecord (nodeH st' a) < nextSCX st'"
      using r(1,2) sp(1,2)[OF rd] by (simp_all add: sel e(6))
    show "finished (scxH st' (scxRecord (nodeH st' a)))" by (rule fin)
    fix t assume t: "ready st t"
    then show "scxRecord (nodeH st' a) \<noteq> allocatedSCXRecord st' t"
      using r sp(2)[OF rd] sp(8)[OF rd t] by (auto simp: sel e(4))
  next
    fix t i assume "ready st t \<and> i < (5::nat)"
    then show "allocatedNodes st' t i \<noteq> a"
      using live by (auto simp: live_node_def e(5))
  qed
qed

lemma live_new_scx:
  assumes eff: "scx_effect tid ty nodes seen fld new st st'" and ok: "pools_ok st"
    and rd: "ready st tid" and a: "a = allocatedNodes st tid i" "i < NUM_INSERTED ! ty"
      "NUM_INSERTED ! ty \<le> 5" and fr: "a \<notin> set nodes" "length nodes = NUM_OF_NODES ! ty"
      "NUM_TO_FREEZE ! ty \<le> NUM_OF_NODES ! ty"
    and nd: "\<not> marked (nodeH st a)" "scxRecord (nodeH st a) = dummy st"
  shows "live_node st' a"
proof -
  have i: "i < 5" using a by simp
  have nn: "a \<noteq> nodes ! j" if "j < NUM_TO_FREEZE ! ty" for j
    using fr that nth_mem[of j nodes] by auto
  have e: "marked (nodeH st' a) = marked (nodeH st a)" "scxRecord (nodeH st' a) = scxRecord (nodeH st a)"
    using eff nn by (auto simp: scx_effect_def put_field_def Let_def)
  have e2: "nextNode st' = nextNode st + NUM_INSERTED ! ty" "dummy st' = dummy st"
    "allocatedNodes st' = (allocatedNodes st)(tid :=
       \<lambda>i. if i < NUM_INSERTED ! ty then nextNode st + i else allocatedNodes st tid i)"
    using eff by (auto simp: scx_effect_def Let_def)
  have ok': "pools_ok st'" by (rule pools_ok_scx[OF eff ok rd])
  have d: "2 \<le> dummy st'" "dummy st' < nextSCX st'" "finished (scxH st' (dummy st'))"
    by (rule pools_ok_dummy[OF ok'])+
  have p: "2 \<le> a" "a < nextNode st" using pools_ok_spare(4,5)[OF ok rd i] a by auto
  show ?thesis
    unfolding live_node_def
  proof (intro conjI allI impI)
    show "2 \<le> a" "a < nextNode st'" "\<not> marked (nodeH st' a)"
      using p nd by (auto simp: e e2)
    show "2 \<le> scxRecord (nodeH st' a)" "scxRecord (nodeH st' a) < nextSCX st'"
      "finished (scxH st' (scxRecord (nodeH st' a)))"
      using d by (simp_all add: e nd e2)
    fix t assume "ready st' t"
    then show "scxRecord (nodeH st' a) \<noteq> allocatedSCXRecord st' t"
      using pools_ok_spare(3)[OF ok', of t] by (simp add: e nd e2)
  next
    fix t j assume t: "ready st' t \<and> j < (5::nat)"
    then have "ready st t" using scx_effect_ready[OF eff ok rd] by simp
    then show "allocatedNodes st' t j \<noteq> a"
      using pools_ok_inj(2)[OF ok \<open>ready st t\<close> rd, of j i] t i a p by (auto simp: e2)
  qed
qed

lemma same_fields_refl [simp]: "same_fields x x"
  by (simp add: same_fields_def)

lemma live_not_spare: "live_node st a \<Longrightarrow> ready st t \<Longrightarrow> i < 5 \<Longrightarrow> allocatedNodes st t i \<noteq> a"
  unfolding live_node_def by blast

lemma ctx_at_put:
  assumes "ctx_at h C a" and "distinct (caddrs C)" and "rt \<notin> set (caddrs C)"
  shows "ctx_at (put_field (hole rt C) new h) C new"
proof (cases C)
  case (Cons f D)
  let ?h = "put_field (hole rt C) new h"
  have off: "same_fields (?h b) (h b)" if "b \<in> set (addrs (fsib f)) \<union> set (caddrs D)" for b
    using that assms(2) by (auto simp: Cons put_field_def)
  have "ctx_at ?h D (fadr f) = ctx_at h D (fadr f)"
    by (rule ctx_at_cong) (use off in blast)
  moreover have "tree_at ?h (fsib f) = tree_at h (fsib f)"
    by (rule tree_at_cong) (use off in blast)
  ultimately show ?thesis
    using assms(1) by (cases f) (auto simp: Cons put_field_def)
qed simp

text \<open>
  The effect of an SCX that replaces the subtree \<open>S\<close> below the context \<open>C\<close>: outside the changed
  field the nodes keep their key, value, weight and children, all keep their version, and the
  rest of the program sees no other change.
\<close>

definition replaced :: "('k, 'v) ctx \<Rightarrow> ('k, 'v) Chromatic \<Rightarrow> ('k, 'v) Chromatic \<Rightarrow> bool" where
  "replaced C st st' \<longleftrightarrow> framed st st' \<and>
     (\<forall>a. version (nodeH st' a) = version (nodeH st a)) \<and>
     (\<forall>a. a \<noteq> fst (hole (root st) C) \<longrightarrow> same_fields (nodeH st' a) (nodeH st a)) \<and>
     (\<forall>a. key (nodeH st' a) = key (nodeH st a))"

lemma scx_replace:
  fixes st :: "('k, 'v) Chromatic" and tid ty :: nat
  assumes hw: "hwf st (plug C S)" and rd: "ready st tid"
    and tbl: "0 < NUM_TO_FREEZE ! ty" "NUM_TO_FREEZE ! ty \<le> NUM_OF_NODES ! ty"
      "1 < NUM_OF_NODES ! ty" "NUM_INSERTED ! ty \<le> 5"
    and nodes: "nodes = fst (hole (root st) C) # adr S # ns" "length nodes = NUM_OF_NODES ! ty"
      "distinct (adr S # ns)" "set ns \<subseteq> set (addrs S)"
    and seen: "\<And>j. j < NUM_TO_FREEZE ! ty \<Longrightarrow> seen ! j = llx_value st (nodes ! j)"
    and S': "tree_at (nodeH st) S'" "distinct (addrs S')"
      "set (addrs S') \<subseteq> (set (addrs S) - set (adr S # ns)) \<union>
         {allocatedNodes st tid i |i. i < NUM_INSERTED ! ty}"
      "\<And>a. a \<in> set (addrs S') \<Longrightarrow> a \<notin> set (addrs S) \<Longrightarrow>
         \<not> marked (nodeH st a) \<and> scxRecord (nodeH st a) = dummy st"
  shows "\<exists>st'. scx tid ty nodes seen (hole (root st) C) (adr S') st = (True, st') \<and>
           hwf st' (plug C S') \<and> replaced C st st'"
proof -
  note h = hwfD[OF hw]
  let ?p = "fst (hole (root st) C)" and ?pool = "{allocatedNodes st tid i |i. i < NUM_INSERTED ! ty}"
  have tr: "tree_at (nodeH st) S" "ctx_at (nodeH st) C (adr S)"
    using h(2) by (simp_all add: tree_at_plug)
  have dst: "distinct (addrs S)" "distinct (caddrs C)" "set (addrs S) \<inter> set (caddrs C) = {}"
    using h(7) by (simp_all add: distinct_addrs_plug)
  have rt: "root st \<notin> set (addrs S)" "root st \<notin> set (caddrs C)"
    using h(8) by (simp_all add: set_addrs_plug)
  have p: "?p \<in> insert (root st) (set (caddrs C))" by (rule hole_in)
  have pS: "?p \<notin> set (addrs S)" using p rt dst(3) by auto
  have liveC: "live_node st a" if "a \<in> insert (root st) (set (caddrs C) \<union> set (addrs S))" for a
    using that h(9,10) by (auto simp: set_addrs_plug)
  have nlive: "live_node st a" if "a \<in> set nodes" for a
    using that nodes(1,4) p by (auto intro!: liveC)
  have pool: "a \<notin> insert (root st) (set (caddrs C) \<union> set (addrs S))" if "a \<in> ?pool" for a
  proof -
    from that obtain i where "a = allocatedNodes st tid i" "i < 5" using tbl(4) by auto
    then have "\<not> live_node st a" using live_not_spare[OF _ rd] by blast
    then show ?thesis using liveC by blast
  qed
  have fld: "get_field st (hole (root st) C) = nodes ! 1"
  proof (cases C)
    case Nil
    then show ?thesis using h(3) nodes(1) by (simp add: get_field_def)
  next
    case (Cons f D)
    then show ?thesis using tr(2) nodes(1) by (cases f) (auto simp: get_field_def)
  qed
  have distn: "distinct nodes" using nodes(1,3,4) pS by auto
  have fresh: "seen ! j \<noteq> allocatedSCXRecord st tid" if "j < NUM_TO_FREEZE ! ty" for j
  proof -
    have "live_node st (nodes ! j)" using nlive that tbl(2) nodes(2) by (auto intro: nlive)
    then show ?thesis
      using seen[OF that] rd pools_ok_spare(1)[OF h(1) rd] by (auto simp: llx_value_def live_node_def)
  qed
  have seen': "scxRecord (nodeH st (nodes ! j)) = seen ! j"
    if "j < NUM_TO_FREEZE ! ty" "seen ! j \<noteq> LLX_RETURN_IS_LEAF" for j
    using seen[OF that(1)] that(2) by (auto simp: llx_value_def split: if_splits)
  obtain st' where sc: "scx tid ty nodes seen (hole (root st) C) (adr S') st = (True, st')"
    and eff: "scx_effect tid ty nodes seen (hole (root st) C) (adr S') st st'"
    using scx_commits[OF tbl(1-3) nodes(2) distn seen' fresh fld] by blast
  define h0 where "h0 = freeze_nodes (allocatedSCXRecord st tid)
    {nodes ! j |j. j < NUM_TO_FREEZE ! ty \<and> seen ! j \<noteq> LLX_RETURN_IS_LEAF}
    {nodes ! j |j. 1 \<le> j \<and> j < NUM_TO_FREEZE ! ty \<and> seen ! j \<noteq> LLX_RETURN_IS_LEAF} (nodeH st)"
  have nh: "nodeH st' = put_field (hole (root st) C) (adr S') h0"
    and same: "root st' = root st" "NO_KEY st' = NO_KEY st"
    using eff unfolding scx_effect_def Let_def h0_def by blast+
  have sf0: "same_fields (h0 a) (nodeH st a)" for a
    unfolding h0_def by (rule freeze_nodes_same)
  have sf: "same_fields (nodeH st' a) (nodeH st a)" if "a \<noteq> ?p" for a
    using sf0[of a] that by (simp add: nh put_field_def)
  have kw: "key (nodeH st' a) = key (nodeH st a)" "weight (nodeH st' a) = weight (nodeH st a)" for a
    using sf0[of a] by (auto simp: nh put_field_def same_fields_def)
  have out: "a \<notin> insert (root st) (set (caddrs C))" if "a \<in> set (addrs S')" for a
  proof (cases "a \<in> set (addrs S)")
    case True
    then show ?thesis using dst(3) rt(1) by auto
  next
    case False
    then have "a \<in> ?pool" using S'(3) that by blast
    then show ?thesis using pool by blast
  qed
  have S'C: "set (addrs S') \<inter> set (caddrs C) = {}" "root st \<notin> set (addrs S')" "?p \<notin> set (addrs S')"
    using out p by auto
  have hw': "hwf st' (plug C S')"
    unfolding hwf_def same
  proof (intro conjI)
    show "pools_ok st'" by (rule pools_ok_scx[OF eff h(1) rd])
    have "tree_at (nodeH st') S'"
      using S'(1) sf S'C(3) tree_at_cong[of S' "nodeH st'" "nodeH st"] by metis
    moreover have "ctx_at (nodeH st') C (adr S')"
      unfolding nh using tr(2) sf0 dst(2) rt(2) ctx_at_cong[of C h0 "nodeH st"]
      by (auto intro: ctx_at_put)
    ultimately show "tree_at (nodeH st') (plug C S')" by (simp add: tree_at_plug)
    have rl: "left (h0 (root st)) = nleft st (root st)" "right (h0 (root st)) = nright st (root st)"
      using sf0 by (auto simp: same_fields_def)
    show "nleft st' (root st) = adr (plug C S')"
    proof (cases C)
      case Nil
      then show ?thesis by (simp add: nh put_field_def)
    next
      case (Cons f D)
      then have "fadr f \<noteq> root st" using rt(2) by auto
      then show ?thesis using h(3) rl by (auto simp: nh put_field_def Cons adr_plug)
    qed
    show "nright st' (root st) = NULL"
      using h(4) rl rt(2) by (cases C) (auto simp: nh put_field_def)
    show "nkey st' (root st) = NO_KEY st" "nweight st' (root st) = 1" using h(5,6) by (simp_all add: kw)
    show "distinct (root st # addrs (plug C S'))"
      using S'(2) dst(2) S'C(1,2) rt(2) by (auto simp: distinct_addrs_plug set_addrs_plug)
    show "\<forall>a\<in>set (root st # addrs (plug C S')). live_node st' a"
    proof
      fix a assume a: "a \<in> set (root st # addrs (plug C S'))"
      show "live_node st' a"
      proof (cases "a \<in> ?pool")
        case True
        then obtain i where i: "a = allocatedNodes st tid i" "i < NUM_INSERTED ! ty" by blast
        have "a \<notin> insert (root st) (set (caddrs C) \<union> set (addrs S))" by (rule pool[OF True])
        moreover from this have "a \<in> set (addrs S')" using a by (auto simp: set_addrs_plug)
        ultimately have "a \<notin> set nodes" "\<not> marked (nodeH st a)" "scxRecord (nodeH st a) = dummy st"
          using S'(4)[of a] nodes(1,4) p by auto
        then show ?thesis
          using live_new_scx[OF eff h(1) rd i tbl(4) _ nodes(2) tbl(2)] by blast
      next
        case False
        have tl: "set (tl nodes) \<subseteq> set (addrs S)" using nodes(1,4) by simp
        have "a \<in> insert (root st) (set (caddrs C)) \<or> a \<in> set (addrs S) - set (tl nodes)"
          using a False S'(3) nodes(1) by (auto simp: set_addrs_plug)
        then have "a \<notin> set (tl nodes)" "live_node st a"
          using tl rt dst(3) liveC by blast+
        then show ?thesis using live_scx[OF eff h(1) rd _ _ nodes(2) tbl(2)] by blast
      qed
    qed
  qed
  have "replaced C st st'"
    unfolding replaced_def using framed_scx[OF eff h(1) rd] sf kw
    by (auto simp: nh put_field_def h0_def)
  with sc hw' show ?thesis by blast
qed

section \<open>Building new nodes\<close>

text \<open>
  Between two SCX operations a thread only writes its spare nodes and the versions it allocates
  for them.
\<close>

definition pool_ext :: "nat \<Rightarrow> ('k, 'v) Chromatic \<Rightarrow> ('k, 'v) Chromatic \<Rightarrow> bool" where
  "pool_ext tid st st' \<longleftrightarrow>
     NO_KEY st' = NO_KEY st \<and> NO_VALUE st' = NO_VALUE st \<and>
     allowedViolations st' = allowedViolations st \<and> root st' = root st \<and> dummy st' = dummy st \<and>
     allocatedSCXRecord st' = allocatedSCXRecord st \<and> allocatedNodes st' = allocatedNodes st \<and>
     allocatedVersions st' = allocatedVersions st \<and> scxH st' = scxH st \<and>
     nextNode st' = nextNode st \<and> nextSCX st' = nextSCX st \<and>
     nextVersion st \<le> nextVersion st' \<and>
     (\<forall>v<nextVersion st. versionH st' v = versionH st v) \<and>
     (\<forall>b. (\<forall>i<5. b \<noteq> allocatedNodes st tid i) \<longrightarrow> nodeH st' b = nodeH st b)"

lemma pool_ext_refl [simp]: "pool_ext tid st st"
  by (simp add: pool_ext_def)

lemma pool_extD:
  assumes "pool_ext tid st st'"
  shows "NO_KEY st' = NO_KEY st" "root st' = root st" "dummy st' = dummy st"
    "allocatedSCXRecord st' = allocatedSCXRecord st" "allocatedNodes st' = allocatedNodes st"
    "allocatedVersions st' = allocatedVersions st" "scxH st' = scxH st"
    "nextNode st' = nextNode st" "nextSCX st' = nextSCX st" "nextVersion st \<le> nextVersion st'"
    "\<And>b. (\<And>i. i < 5 \<Longrightarrow> b \<noteq> allocatedNodes st tid i) \<Longrightarrow> nodeH st' b = nodeH st b"
    "\<And>v. v < nextVersion st \<Longrightarrow> versionH st' v = versionH st v"
    "ready st' t = ready st t"
  using assms by (auto simp: pool_ext_def ready_def)

lemma pool_ext_live:
  assumes "pool_ext tid st st'" and "ready st tid" and "live_node st a"
  shows "nodeH st' a = nodeH st a" "live_node st' a"
proof -
  show eq: "nodeH st' a = nodeH st a"
    using pool_extD(11)[OF assms(1), of a] live_not_spare[OF assms(3,2)] by blast
  show "live_node st' a"
    using assms(3) unfolding live_node_def eq pool_extD(4,5,7,8,9,13)[OF assms(1)] .
qed

lemma pool_ext_pools:
  assumes "pool_ext tid st st'" and "pools_ok st"
  shows "pools_ok st'"
proof -
  note e = pool_extD[OF assms(1)]
  have "ready st' = ready st" using e(13) by blast
  then show ?thesis
    using assms(2) spare_ok_mono[OF _ e(10)] unfolding pools_ok_def e(1-9) by simp
qed

lemma pool_ext_framed:
  assumes "pool_ext tid st st'"
  shows "framed st st'"
proof -
  have "live_version st' v \<and> versionH st' v = versionH st v" if "live_version st v" for v
    using that pool_extD(10,12)[OF assms]
    by (simp add: live_version_def pool_extD(4,6,13)[OF assms])
  then show ?thesis using assms pool_extD(13)[OF assms] by (simp add: framed_def pool_ext_def)
qed

lemma pool_ext_hwf:
  assumes "pool_ext tid st st'" and "ready st tid" and "hwf st T"
  shows "hwf st' T"
proof -
  note h = hwfD[OF assms(3)] and live = pool_ext_live[OF assms(1,2)]
  have nd: "nodeH st' a = nodeH st a" if "a \<in> insert (root st) (set (addrs T))" for a
    using that h(9,10) live(1) by blast
  have "tree_at (nodeH st') T"
    using h(2) nd tree_at_cong[of T "nodeH st'" "nodeH st"] by (metis insertCI same_fields_refl)
  moreover have "\<forall>a\<in>set (root st # addrs T). live_node st' a"
    using h(9,10) live(2) by auto
  ultimately show ?thesis
    using assms(3) pool_ext_pools[OF assms(1)]
    by (simp add: hwf_def pool_extD(1,2)[OF assms(1)] nd)
qed

text \<open>A node that \<open>initializeNode\<close> has filled in, and what its version then is.\<close>

definition leaf_version :: "('k, 'v) Chromatic \<Rightarrow> addr \<Rightarrow> 'k \<Rightarrow> int \<Rightarrow> bool" where
  "leaf_version st v k s \<longleftrightarrow> live_version st v \<and> vkey (versionH st v) = k \<and>
     vsum (versionH st v) = s \<and> vleft (versionH st v) = NULL \<and> vright (versionH st v) = NULL"

definition new_node :: "('k, 'v) Chromatic \<Rightarrow> ('k, 'v) Chromatic \<Rightarrow> addr \<Rightarrow> bool" where
  "new_node st st' a \<longleftrightarrow> (let x = nodeH st' a; v = version x; y = versionH st' v in
     \<not> marked x \<and> scxRecord x = dummy st' \<and>
     (if left x = NULL
      then nextVersion st \<le> v \<and> v < nextVersion st' \<and> vkey y = key x \<and> vsum y = 1 \<and>
        vleft y = NULL \<and> vright y = NULL
      else v = NULL))"

definition built :: "('k, 'v) Chromatic \<Rightarrow> addr \<Rightarrow> bool" where
  "built st a \<longleftrightarrow> (if nleft st a = NULL then leaf_version st (version (nodeH st a)) (nkey st a) 1
     else version (nodeH st a) = NULL)"

lemma initializeNode_nodeH [heap_simps]:
  "nodeH (initializeNode a k v w l r st) b =
    (if b = a then \<lparr>key = k, left = l, right = r, weight = w, val = v, marked = False,
       version = (if l = NULL then nextVersion st else NULL), scxRecord = dummy st\<rparr>
     else nodeH st b)"
  by (simp add: initializeNode_def initializeNodeWithVersion_def initializeVersion_def Let_def)

lemma initializeNode_frame [frame_simps]:
  "NO_KEY (initializeNode a k v w l r st) = NO_KEY st"
  "NO_VALUE (initializeNode a k v w l r st) = NO_VALUE st"
  "allowedViolations (initializeNode a k v w l r st) = allowedViolations st"
  "root (initializeNode a k v w l r st) = root st"
  "dummy (initializeNode a k v w l r st) = dummy st"
  "allocatedNodes (initializeNode a k v w l r st) = allocatedNodes st"
  "allocatedVersions (initializeNode a k v w l r st) = allocatedVersions st"
  "allocatedSCXRecord (initializeNode a k v w l r st) = allocatedSCXRecord st"
  "scxH (initializeNode a k v w l r st) = scxH st"
  "nextNode (initializeNode a k v w l r st) = nextNode st"
  "nextSCX (initializeNode a k v w l r st) = nextSCX st"
  by (simp_all add: initializeNode_def initializeNodeWithVersion_def initializeVersion_def Let_def)

lemma initializeNode_version [heap_simps]:
  "nextVersion (initializeNode a k v w l r st) =
     (if l = NULL then Suc (nextVersion st) else nextVersion st)"
  "versionH (initializeNode a k v w l r st) u =
     (if l = NULL \<and> u = nextVersion st
      then (versionH st u)\<lparr>vkey := k, vsum := 1, vleft := NULL, vright := NULL\<rparr> else versionH st u)"
  by (simp_all add: initializeNode_def initializeNodeWithVersion_def initializeVersion_def Let_def)

lemma initializeNode_ext:
  assumes "pool_ext tid st st'" and "i < 5"
  shows "pool_ext tid st (initializeNode (allocatedNodes st tid i) k v w l r st')"
proof -
  have "nodeH (initializeNode (allocatedNodes st tid i) k v w l r st') b = nodeH st b"
    if "\<forall>i<5. b \<noteq> allocatedNodes st tid i" for b
    using that assms(2) pool_extD(11)[OF assms(1)] by (simp add: heap_simps)
  then show ?thesis
    using assms(1) by (simp add: pool_ext_def heap_simps frame_simps)
qed

lemma initializeNode_new:
  assumes "pool_ext tid st st'"
  shows "new_node st (initializeNode a k v w l r st') a"
  using pool_extD(10)[OF assms] by (simp add: new_node_def heap_simps frame_simps Let_def)

lemma initializeNode_new_other:
  assumes "new_node st st' b" and "b \<noteq> a"
  shows "new_node st (initializeNode a k v w l r st') b"
proof (cases "left (nodeH st' b) = NULL")
  case True
  then have "version (nodeH st' b) < nextVersion st'"
    using assms(1) by (simp add: new_node_def Let_def)
  then show ?thesis
    using True assms by (simp add: new_node_def heap_simps frame_simps Let_def)
next
  case False
  then show ?thesis
    using assms by (simp add: new_node_def heap_simps frame_simps Let_def)
qed

lemma initializeNode_tree_at [heap_simps]:
  "a \<notin> set (addrs t) \<Longrightarrow>
     tree_at (nodeH (initializeNode a k v w l r st)) t = tree_at (nodeH st) t"
  by (rule tree_at_cong) (auto simp: heap_simps)

text \<open>
  The effect of an SCX that replaces the subtree \<open>S\<close> below the context \<open>C\<close> by \<open>S'\<close>, whose new
  nodes \<open>initializeNode\<close> has filled in: the old nodes keep their contents and versions, the new
  leaves have a version of their own and the new internal nodes have none.
\<close>

definition rebuilt :: "('k, 'v) ctx \<Rightarrow> ('k, 'v) ct \<Rightarrow> ('k, 'v) ct \<Rightarrow>
    ('k, 'v) Chromatic \<Rightarrow> ('k, 'v) Chromatic \<Rightarrow> bool" where
  "rebuilt C S S' st st' \<longleftrightarrow> framed st st' \<and>
     (\<forall>a\<in>insert (root st) (set (addrs (plug C S))). version (nodeH st' a) = version (nodeH st a)) \<and>
     (\<forall>a\<in>set (addrs S). same_fields (nodeH st' a) (nodeH st a)) \<and>
     (\<forall>a\<in>set (addrs S') - set (addrs S). built st' a)"

lemma new_node_leaf_version:
  assumes "new_node st st1 a" and "pool_ext tid st st1" and "pools_ok st"
    and "nleft st1 a = NULL"
  shows "leaf_version st1 (version (nodeH st1 a)) (nkey st1 a) 1"
proof -
  let ?v = "version (nodeH st1 a)"
  have v: "nextVersion st \<le> ?v" "?v < nextVersion st1"
    using assms(1,4) by (simp_all add: new_node_def Let_def)
  have "allocatedVersions st1 t i \<noteq> ?v" if "ready st1 t" "i < 5" for t i
    using that pools_ok_spare(7)[OF assms(3), of t i] v(1)
    by (simp add: pool_extD(6,13)[OF assms(2)])
  then show ?thesis
    using assms(1,4) v pools_ok_dummy(5)[OF assms(3)]
    by (simp add: leaf_version_def live_version_def new_node_def Let_def)
qed

lemma leaf_version_framed: "leaf_version st v k s \<Longrightarrow> framed st st' \<Longrightarrow> leaf_version st' v k s"
  by (simp add: leaf_version_def framed_def)

lemma scx_rebuild:
  fixes st :: "('k, 'v) Chromatic" and tid ty :: nat
  assumes hw: "hwf st (plug C S)" and rd: "ready st tid" and ext: "pool_ext tid st st1"
    and tbl: "0 < NUM_TO_FREEZE ! ty" "NUM_TO_FREEZE ! ty \<le> length nodes"
      "NUM_OF_NODES ! ty = length nodes" "NUM_INSERTED ! ty \<le> 5"
    and seen0: "\<And>j. j < NUM_TO_FREEZE ! ty \<Longrightarrow> seen ! j = llx_value st (nodes ! j)"
    and nodes: "nodes = fst (hole (root st) C) # adr S # ns"
      "distinct (adr S # ns)" "set ns \<subseteq> set (addrs S)"
    and S': "tree_at (nodeH st1) S'" "distinct (addrs S')"
      "set (addrs S') \<subseteq> (set (addrs S) - set (adr S # ns)) \<union>
         {allocatedNodes st tid i |i. i < NUM_INSERTED ! ty}"
      "\<And>i. i < NUM_INSERTED ! ty \<Longrightarrow> new_node st st1 (allocatedNodes st tid i)"
  shows "\<exists>st'. scx tid ty nodes seen (hole (root st) C) (adr S') st1 = (True, st') \<and>
           hwf st' (plug C S') \<and> rebuilt C S S' st st'"
proof -
  note e = pool_extD[OF ext] and live = pool_ext_live[OF ext rd] and h = hwfD[OF hw]
  have hw1: "hwf st1 (plug C S)" by (rule pool_ext_hwf[OF ext rd hw])
  have inT: "live_node st a" if "a \<in> insert (root st) (set (addrs (plug C S)))" for a
    using that h(9,10) by blast
  have nodesT: "set nodes \<subseteq> insert (root st) (set (addrs (plug C S)))"
    using nodes(1,3) hole_in[of "root st" C] by (auto simp: set_addrs_plug)
  have seen: "seen ! j = llx_value st1 (nodes ! j)" if "j < NUM_TO_FREEZE ! ty" for j
  proof -
    have "nodes ! j \<in> set nodes" using that tbl(2) by auto
    then have "nodeH st1 (nodes ! j) = nodeH st (nodes ! j)" using nodesT inT live(1) by blast
    then show ?thesis using seen0[OF that] by (simp add: llx_value_def)
  qed
  have new: "new_node st st1 a" if "a \<in> set (addrs S')" "a \<notin> set (addrs S)" for a
    using that S'(3,4) by blast
  have sub: "set (addrs S') \<subseteq> (set (addrs S) - set (adr S # ns)) \<union>
         {allocatedNodes st1 tid i |i. i < NUM_INSERTED ! ty}"
    using S'(3) by (simp only: e(5))
  have dm: "\<not> marked (nodeH st1 a) \<and> scxRecord (nodeH st1 a) = dummy st1"
    if "a \<in> set (addrs S')" "a \<notin> set (addrs S)" for a
    using new[OF that] by (simp add: new_node_def Let_def)
  have "1 < length nodes" using nodes(1) by simp
  then obtain st' where st': "scx tid ty nodes seen (hole (root st1) C) (adr S') st1 = (True, st')"
      "hwf st' (plug C S')" "replaced C st1 st'"
    using scx_replace[of st1 C S tid ty nodes ns seen S'] hw1 rd e tbl nodes seen
      S'(1,2) sub dm by auto
  have fr: "framed st st'"
    using st'(3) framed_trans[OF pool_ext_framed[OF ext]] by (auto simp: replaced_def)
  have ver: "version (nodeH st' a) = version (nodeH st1 a)" "key (nodeH st' a) = key (nodeH st1 a)" for a
    using st'(3) by (auto simp: replaced_def)
  have notp: "fst (hole (root st) C) \<notin> set (addrs S) \<union> set (addrs S')"
  proof -
    have "distinct (addrs (plug C S'))" "root st \<notin> set (addrs (plug C S'))"
      using hwfD(7,8)[OF st'(2)] fr by (simp_all add: framed_def)
    then show ?thesis
      using h(7,8) hole_in[of "root st" C] by (auto simp: distinct_addrs_plug set_addrs_plug)
  qed
  have sf: "same_fields (nodeH st' a) (nodeH st1 a)" if "a \<in> set (addrs S) \<union> set (addrs S')" for a
    using st'(3) that notp unfolding replaced_def e(2) by (metis (no_types))
  have "built st' a" if a: "a \<in> set (addrs S') - set (addrs S)" for a
  proof -
    have n: "new_node st st1 a" using new a by blast
    have l: "nleft st' a = nleft st1 a" using sf[of a] a by (simp add: same_fields_def)
    show ?thesis
      using new_node_leaf_version[OF n ext h(1)] leaf_version_framed[of st1 _ _ _ st'] st'(3) n
      by (auto simp: built_def l ver replaced_def new_node_def Let_def)
  qed
  moreover have "version (nodeH st' a) = version (nodeH st a)"
    if "a \<in> insert (root st) (set (addrs (plug C S)))" for a
    using ver live(1)[OF inT[OF that]] by simp
  moreover have "same_fields (nodeH st' a) (nodeH st a)" if "a \<in> set (addrs S)" for a
    using sf[of a] that live(1)[OF inT, of a] by (simp add: set_addrs_plug)
  ultimately have "rebuilt C S S' st st'" using fr unfolding rebuilt_def by blast
  then show ?thesis using st'(1,2) unfolding e(2) by blast
qed

end
