(* ===== verification/Rebalancing_Steps.thy ===== *)
theory Rebalancing_Steps
  imports Subtree_Replacement "HOL-Library.Multiset"
begin

text \<open>
  The 21 rebalancing steps of \<open>ds/brown_ext_chromatic_augment_lf/chromatic_impl.h\<close> (\<open>doBlk\<close>,
  \<open>doRb1\<close>, \<open>doRb2\<close>, \<open>doPush\<close>, \<open>doW1\<close> to \<open>doW7\<close> and their mirror images) as state
  transformers, the tree transformation each of them performs (\<open>blk\<close>, \<open>rb1\<close>, ...), and the
  refinement between the two: run on a well-formed memory without interference, a step succeeds
  and the tree in memory is the transformed tree.
\<close>

section \<open>The steps\<close>

type_synonym ('k, 'v) rebalancing_step =
  "nat \<Rightarrow> addr list \<Rightarrow> addr list \<Rightarrow> bool \<Rightarrow> ('k, 'v) Chromatic \<Rightarrow> bool \<times> ('k, 'v) Chromatic"

definition doBlk :: "('k, 'v) rebalancing_step" where
  "doBlk tid nodes llxResults fieldIsLeft st =
    (let nodeXL = allocatedNodes st tid 1;
         st = initializeNode nodeXL
                (nkey st (nodes ! 2)) (nval st (nodes ! 2)) 1 (nleft st (nodes ! 2)) (nright st
                (nodes ! 2)) st;
         nodeXR = allocatedNodes st tid 2;
         st = initializeNode nodeXR
                (nkey st (nodes ! 3)) (nval st (nodes ! 3)) 1 (nleft st (nodes ! 3)) (nright st
                (nodes ! 3)) st;
         w = (if IS_SENTINEL st (nodes ! 1) (nodes ! 0) then 1 else nweight st (nodes ! 1) - 1);
         nodeX = allocatedNodes st tid 0;
         st = initializeNode nodeX
                (nkey st (nodes ! 1)) (nval st (nodes ! 1)) w nodeXL nodeXR st
     in scx tid TYPE_BLK nodes llxResults (nodes ! 0, fieldIsLeft) nodeX st)"

definition doRb1 :: "('k, 'v) rebalancing_step" where
  "doRb1 tid nodes llxResults fieldIsLeft st =
    (let nodeXR = allocatedNodes st tid 1;
         st = initializeNode nodeXR
                (nkey st (nodes ! 1)) (nval st (nodes ! 1)) 0 (nright st (nodes ! 2)) (nright st
                (nodes ! 1)) st;
         w = nweight st (nodes ! 1);
         nodeX = allocatedNodes st tid 0;
         st = initializeNode nodeX
                (nkey st (nodes ! 2)) (nval st (nodes ! 2)) w (nleft st (nodes ! 2)) nodeXR st
     in scx tid TYPE_RB1 nodes llxResults (nodes ! 0, fieldIsLeft) nodeX st)"

definition doRb2 :: "('k, 'v) rebalancing_step" where
  "doRb2 tid nodes llxResults fieldIsLeft st =
    (let nodeXL = allocatedNodes st tid 1;
         st = initializeNode nodeXL
                (nkey st (nodes ! 2)) (nval st (nodes ! 2)) 0 (nleft st (nodes ! 2))
                (nleft st (nodes ! 3)) st;
         nodeXR = allocatedNodes st tid 2;
         st = initializeNode nodeXR
                (nkey st (nodes ! 1)) (nval st (nodes ! 1)) 0 (nright st (nodes ! 3)) (nright st
                (nodes ! 1)) st;
         w = nweight st (nodes ! 1);
         nodeX = allocatedNodes st tid 0;
         st = initializeNode nodeX
                (nkey st (nodes ! 3)) (nval st (nodes ! 3)) w nodeXL nodeXR st
     in scx tid TYPE_RB2 nodes llxResults (nodes ! 0, fieldIsLeft) nodeX st)"

definition doPush :: "('k, 'v) rebalancing_step" where
  "doPush tid nodes llxResults fieldIsLeft st =
    (let nodeXXL = allocatedNodes st tid 1;
         st = initializeNode nodeXXL
                (nkey st (nodes ! 2)) (nval st (nodes ! 2)) (nweight st (nodes ! 2) - 1)
                (nleft st (nodes ! 2)) (nright st (nodes ! 2)) st;
         nodeXXR = allocatedNodes st tid 2;
         st = initializeNode nodeXXR
                (nkey st (nodes ! 3)) (nval st (nodes ! 3)) 0 (nleft st (nodes ! 3)) (nright st
                (nodes ! 3)) st;
         w = (if IS_SENTINEL st (nodes ! 1) (nodes ! 0) then 1 else nweight st (nodes ! 1) + 1);
         nodeXX = allocatedNodes st tid 0;
         st = initializeNode nodeXX
                (nkey st (nodes ! 1)) (nval st (nodes ! 1)) w nodeXXL nodeXXR st
     in scx tid TYPE_PUSH nodes llxResults (nodes ! 0, fieldIsLeft) nodeXX st)"

definition doW1 :: "('k, 'v) rebalancing_step" where
  "doW1 tid nodes llxResults fieldIsLeft st =
    (let nodeXXLL = allocatedNodes st tid 2;
         st = initializeNode nodeXXLL
                (nkey st (nodes ! 2)) (nval st (nodes ! 2)) (nweight st (nodes ! 2) - 1)
                (nleft st (nodes ! 2)) (nright st (nodes ! 2)) st;
         nodeXXLR = allocatedNodes st tid 3;
         st = initializeNode nodeXXLR
                (nkey st (nodes ! 4)) (nval st (nodes ! 4)) (nweight st (nodes ! 4) - 1)
                (nleft st (nodes ! 4)) (nright st (nodes ! 4)) st;
         nodeXXL = allocatedNodes st tid 1;
         st = initializeNode nodeXXL
                (nkey st (nodes ! 1)) (nval st (nodes ! 1)) 1 nodeXXLL nodeXXLR st;
         w = nweight st (nodes ! 1);
         nodeXX = allocatedNodes st tid 0;
         st = initializeNode nodeXX
                (nkey st (nodes ! 3)) (nval st (nodes ! 3)) w nodeXXL (nright st (nodes ! 3)) st
     in scx tid TYPE_W1 nodes llxResults (nodes ! 0, fieldIsLeft) nodeXX st)"

definition doW2 :: "('k, 'v) rebalancing_step" where
  "doW2 tid nodes llxResults fieldIsLeft st =
    (let nodeXXLL = allocatedNodes st tid 2;
         st = initializeNode nodeXXLL
                (nkey st (nodes ! 2)) (nval st (nodes ! 2)) (nweight st (nodes ! 2) - 1)
                (nleft st (nodes ! 2)) (nright st (nodes ! 2)) st;
         nodeXXLR = allocatedNodes st tid 3;
         st = initializeNode nodeXXLR
                (nkey st (nodes ! 4)) (nval st (nodes ! 4)) 0 (nleft st (nodes ! 4)) (nright st
                (nodes ! 4)) st;
         nodeXXL = allocatedNodes st tid 1;
         st = initializeNode nodeXXL
                (nkey st (nodes ! 1)) (nval st (nodes ! 1)) 1 nodeXXLL nodeXXLR st;
         w = nweight st (nodes ! 1);
         nodeXX = allocatedNodes st tid 0;
         st = initializeNode nodeXX
                (nkey st (nodes ! 3)) (nval st (nodes ! 3)) w nodeXXL (nright st (nodes ! 3)) st
     in scx tid TYPE_W2 nodes llxResults (nodes ! 0, fieldIsLeft) nodeXX st)"

definition doW3 :: "('k, 'v) rebalancing_step" where
  "doW3 tid nodes llxResults fieldIsLeft st =
    (let nodeXXLLL = allocatedNodes st tid 4;
         st = initializeNode nodeXXLLL
                (nkey st (nodes ! 2)) (nval st (nodes ! 2)) (nweight st (nodes ! 2) - 1)
                (nleft st (nodes ! 2)) (nright st (nodes ! 2)) st;
         nodeXXLL = allocatedNodes st tid 2;
         st = initializeNode nodeXXLL
                (nkey st (nodes ! 1)) (nval st (nodes ! 1)) 1 nodeXXLLL (nleft st (nodes ! 5)) st;
         nodeXXLR = allocatedNodes st tid 3;
         st = initializeNode nodeXXLR
                (nkey st (nodes ! 4)) (nval st (nodes ! 4)) 1 (nright st (nodes ! 5)) (nright st
                (nodes ! 4)) st;
         nodeXXL = allocatedNodes st tid 1;
         st = initializeNode nodeXXL
                (nkey st (nodes ! 5)) (nval st (nodes ! 5)) 0 nodeXXLL nodeXXLR st;
         w = nweight st (nodes ! 1);
         nodeXX = allocatedNodes st tid 0;
         st = initializeNode nodeXX
                (nkey st (nodes ! 3)) (nval st (nodes ! 3)) w nodeXXL (nright st (nodes ! 3)) st
     in scx tid TYPE_W3 nodes llxResults (nodes ! 0, fieldIsLeft) nodeXX st)"

definition doW4 :: "('k, 'v) rebalancing_step" where
  "doW4 tid nodes llxResults fieldIsLeft st =
    (let nodeXXLL = allocatedNodes st tid 3;
         st = initializeNode nodeXXLL
                (nkey st (nodes ! 2)) (nval st (nodes ! 2)) (nweight st (nodes ! 2) - 1)
                (nleft st (nodes ! 2)) (nright st (nodes ! 2)) st;
         nodeXXL = allocatedNodes st tid 1;
         st = initializeNode nodeXXL
                (nkey st (nodes ! 1)) (nval st (nodes ! 1)) 1 nodeXXLL (nleft st (nodes ! 4)) st;
         nodeXXRL = allocatedNodes st tid 4;
         st = initializeNode nodeXXRL
                (nkey st (nodes ! 5)) (nval st (nodes ! 5)) 1 (nleft st (nodes ! 5)) (nright st
                (nodes ! 5)) st;
         nodeXXR = allocatedNodes st tid 2;
         st = initializeNode nodeXXR
                (nkey st (nodes ! 3)) (nval st (nodes ! 3)) 0 nodeXXRL (nright st (nodes ! 3)) st;
         w = nweight st (nodes ! 1);
         nodeXX = allocatedNodes st tid 0;
         st = initializeNode nodeXX
                (nkey st (nodes ! 4)) (nval st (nodes ! 4)) w nodeXXL nodeXXR st
     in scx tid TYPE_W4 nodes llxResults (nodes ! 0, fieldIsLeft) nodeXX st)"

definition doW5 :: "('k, 'v) rebalancing_step" where
  "doW5 tid nodes llxResults fieldIsLeft st =
    (let nodeXXLL = allocatedNodes st tid 3;
         st = initializeNode nodeXXLL
                (nkey st (nodes ! 2)) (nval st (nodes ! 2)) (nweight st (nodes ! 2) - 1)
                (nleft st (nodes ! 2)) (nright st (nodes ! 2)) st;
         nodeXXL = allocatedNodes st tid 1;
         st = initializeNode nodeXXL
                (nkey st (nodes ! 1)) (nval st (nodes ! 1)) 1 nodeXXLL (nleft st (nodes ! 3)) st;
         nodeXXR = allocatedNodes st tid 2;
         st = initializeNode nodeXXR
                (nkey st (nodes ! 4)) (nval st (nodes ! 4)) 1 (nleft st (nodes ! 4)) (nright st
                (nodes ! 4)) st;
         w = nweight st (nodes ! 1);
         nodeXX = allocatedNodes st tid 0;
         st = initializeNode nodeXX
                (nkey st (nodes ! 3)) (nval st (nodes ! 3)) w nodeXXL nodeXXR st
     in scx tid TYPE_W5 nodes llxResults (nodes ! 0, fieldIsLeft) nodeXX st)"

definition doW6 :: "('k, 'v) rebalancing_step" where
  "doW6 tid nodes llxResults fieldIsLeft st =
    (let nodeXXLL = allocatedNodes st tid 3;
         st = initializeNode nodeXXLL
                (nkey st (nodes ! 2)) (nval st (nodes ! 2)) (nweight st (nodes ! 2) - 1)
                (nleft st (nodes ! 2)) (nright st (nodes ! 2)) st;
         nodeXXL = allocatedNodes st tid 1;
         st = initializeNode nodeXXL
                (nkey st (nodes ! 1)) (nval st (nodes ! 1)) 1 nodeXXLL (nleft st (nodes ! 4)) st;
         nodeXXR = allocatedNodes st tid 2;
         st = initializeNode nodeXXR
                (nkey st (nodes ! 3)) (nval st (nodes ! 3)) 1 (nright st (nodes ! 4)) (nright st
                (nodes ! 3)) st;
         w = nweight st (nodes ! 1);
         nodeXX = allocatedNodes st tid 0;
         st = initializeNode nodeXX
                (nkey st (nodes ! 4)) (nval st (nodes ! 4)) w nodeXXL nodeXXR st
     in scx tid TYPE_W6 nodes llxResults (nodes ! 0, fieldIsLeft) nodeXX st)"

definition doW7 :: "('k, 'v) rebalancing_step" where
  "doW7 tid nodes llxResults fieldIsLeft st =
    (let nodeXXL = allocatedNodes st tid 1;
         st = initializeNode nodeXXL
                (nkey st (nodes ! 2)) (nval st (nodes ! 2)) (nweight st (nodes ! 2) - 1)
                (nleft st (nodes ! 2)) (nright st (nodes ! 2)) st;
         nodeXXR = allocatedNodes st tid 2;
         st = initializeNode nodeXXR
                (nkey st (nodes ! 3)) (nval st (nodes ! 3)) (nweight st (nodes ! 3) - 1)
                (nleft st (nodes ! 3)) (nright st (nodes ! 3)) st;
         w = (if IS_SENTINEL st (nodes ! 1) (nodes ! 0) then 1 else nweight st (nodes ! 1) + 1);
         nodeXX = allocatedNodes st tid 0;
         st = initializeNode nodeXX
                (nkey st (nodes ! 1)) (nval st (nodes ! 1)) w nodeXXL nodeXXR st
     in scx tid TYPE_W7 nodes llxResults (nodes ! 0, fieldIsLeft) nodeXX st)"

definition doRb1Sym :: "('k, 'v) rebalancing_step" where
  "doRb1Sym tid nodes llxResults fieldIsLeft st =
    (let nodeXL = allocatedNodes st tid 1;
         st = initializeNode nodeXL
                (nkey st (nodes ! 1)) (nval st (nodes ! 1)) 0 (nleft st (nodes ! 1))
                (nleft st (nodes ! 2)) st;
         w = nweight st (nodes ! 1);
         nodeX = allocatedNodes st tid 0;
         st = initializeNode nodeX
                (nkey st (nodes ! 2)) (nval st (nodes ! 2)) w nodeXL (nright st (nodes ! 2)) st
     in scx tid TYPE_RB1SYM nodes llxResults (nodes ! 0, fieldIsLeft) nodeX st)"

definition doRb2Sym :: "('k, 'v) rebalancing_step" where
  "doRb2Sym tid nodes llxResults fieldIsLeft st =
    (let nodeXL = allocatedNodes st tid 1;
         st = initializeNode nodeXL
                (nkey st (nodes ! 1)) (nval st (nodes ! 1)) 0 (nleft st (nodes ! 1))
                (nleft st (nodes ! 3)) st;
         nodeXR = allocatedNodes st tid 2;
         st = initializeNode nodeXR
                (nkey st (nodes ! 2)) (nval st (nodes ! 2)) 0 (nright st (nodes ! 3)) (nright st
                (nodes ! 2)) st;
         w = nweight st (nodes ! 1);
         nodeX = allocatedNodes st tid 0;
         st = initializeNode nodeX
                (nkey st (nodes ! 3)) (nval st (nodes ! 3)) w nodeXL nodeXR st
     in scx tid TYPE_RB2SYM nodes llxResults (nodes ! 0, fieldIsLeft) nodeX st)"

definition doPushSym :: "('k, 'v) rebalancing_step" where
  "doPushSym tid nodes llxResults fieldIsLeft st =
    (let nodeXXL = allocatedNodes st tid 1;
         st = initializeNode nodeXXL
                (nkey st (nodes ! 2)) (nval st (nodes ! 2)) 0 (nleft st (nodes ! 2)) (nright st
                (nodes ! 2)) st;
         nodeXXR = allocatedNodes st tid 2;
         st = initializeNode nodeXXR
                (nkey st (nodes ! 3)) (nval st (nodes ! 3)) (nweight st (nodes ! 3) - 1)
                (nleft st (nodes ! 3)) (nright st (nodes ! 3)) st;
         w = (if IS_SENTINEL st (nodes ! 1) (nodes ! 0) then 1 else nweight st (nodes ! 1) + 1);
         nodeXX = allocatedNodes st tid 0;
         st = initializeNode nodeXX
                (nkey st (nodes ! 1)) (nval st (nodes ! 1)) w nodeXXL nodeXXR st
     in scx tid TYPE_PUSHSYM nodes llxResults (nodes ! 0, fieldIsLeft) nodeXX st)"

definition doW1Sym :: "('k, 'v) rebalancing_step" where
  "doW1Sym tid nodes llxResults fieldIsLeft st =
    (let nodeXXRL = allocatedNodes st tid 2;
         st = initializeNode nodeXXRL
                (nkey st (nodes ! 4)) (nval st (nodes ! 4)) (nweight st (nodes ! 4) - 1)
                (nleft st (nodes ! 4)) (nright st (nodes ! 4)) st;
         nodeXXRR = allocatedNodes st tid 3;
         st = initializeNode nodeXXRR
                (nkey st (nodes ! 3)) (nval st (nodes ! 3)) (nweight st (nodes ! 3) - 1)
                (nleft st (nodes ! 3)) (nright st (nodes ! 3)) st;
         nodeXXR = allocatedNodes st tid 1;
         st = initializeNode nodeXXR
                (nkey st (nodes ! 1)) (nval st (nodes ! 1)) 1 nodeXXRL nodeXXRR st;
         w = nweight st (nodes ! 1);
         nodeXX = allocatedNodes st tid 0;
         st = initializeNode nodeXX
                (nkey st (nodes ! 2)) (nval st (nodes ! 2)) w (nleft st (nodes ! 2)) nodeXXR st
     in scx tid TYPE_W1SYM nodes llxResults (nodes ! 0, fieldIsLeft) nodeXX st)"

definition doW2Sym :: "('k, 'v) rebalancing_step" where
  "doW2Sym tid nodes llxResults fieldIsLeft st =
    (let nodeXXRL = allocatedNodes st tid 2;
         st = initializeNode nodeXXRL
                (nkey st (nodes ! 4)) (nval st (nodes ! 4)) 0 (nleft st (nodes ! 4)) (nright st
                (nodes ! 4)) st;
         nodeXXRR = allocatedNodes st tid 3;
         st = initializeNode nodeXXRR
                (nkey st (nodes ! 3)) (nval st (nodes ! 3)) (nweight st (nodes ! 3) - 1)
                (nleft st (nodes ! 3)) (nright st (nodes ! 3)) st;
         nodeXXR = allocatedNodes st tid 1;
         st = initializeNode nodeXXR
                (nkey st (nodes ! 1)) (nval st (nodes ! 1)) 1 nodeXXRL nodeXXRR st;
         w = nweight st (nodes ! 1);
         nodeXX = allocatedNodes st tid 0;
         st = initializeNode nodeXX
                (nkey st (nodes ! 2)) (nval st (nodes ! 2)) w (nleft st (nodes ! 2)) nodeXXR st
     in scx tid TYPE_W2SYM nodes llxResults (nodes ! 0, fieldIsLeft) nodeXX st)"

definition doW3Sym :: "('k, 'v) rebalancing_step" where
  "doW3Sym tid nodes llxResults fieldIsLeft st =
    (let nodeXXRL = allocatedNodes st tid 2;
         st = initializeNode nodeXXRL
                (nkey st (nodes ! 4)) (nval st (nodes ! 4)) 1 (nleft st (nodes ! 4))
                (nleft st (nodes ! 5)) st;
         nodeXXRRR = allocatedNodes st tid 4;
         st = initializeNode nodeXXRRR
                (nkey st (nodes ! 3)) (nval st (nodes ! 3)) (nweight st (nodes ! 3) - 1)
                (nleft st (nodes ! 3)) (nright st (nodes ! 3)) st;
         nodeXXRR = allocatedNodes st tid 3;
         st = initializeNode nodeXXRR
                (nkey st (nodes ! 1)) (nval st (nodes ! 1)) 1 (nright st (nodes ! 5)) nodeXXRRR st;
         nodeXXR = allocatedNodes st tid 1;
         st = initializeNode nodeXXR
                (nkey st (nodes ! 5)) (nval st (nodes ! 5)) 0 nodeXXRL nodeXXRR st;
         w = nweight st (nodes ! 1);
         nodeXX = allocatedNodes st tid 0;
         st = initializeNode nodeXX
                (nkey st (nodes ! 2)) (nval st (nodes ! 2)) w (nleft st (nodes ! 2)) nodeXXR st
     in scx tid TYPE_W3SYM nodes llxResults (nodes ! 0, fieldIsLeft) nodeXX st)"

definition doW4Sym :: "('k, 'v) rebalancing_step" where
  "doW4Sym tid nodes llxResults fieldIsLeft st =
    (let nodeXXLR = allocatedNodes st tid 3;
         st = initializeNode nodeXXLR
                (nkey st (nodes ! 5)) (nval st (nodes ! 5)) 1 (nleft st (nodes ! 5)) (nright st
                (nodes ! 5)) st;
         nodeXXL = allocatedNodes st tid 1;
         st = initializeNode nodeXXL
                (nkey st (nodes ! 2)) (nval st (nodes ! 2)) 0 (nleft st (nodes ! 2)) nodeXXLR st;
         nodeXXRR = allocatedNodes st tid 4;
         st = initializeNode nodeXXRR
                (nkey st (nodes ! 3)) (nval st (nodes ! 3)) (nweight st (nodes ! 3) - 1)
                (nleft st (nodes ! 3)) (nright st (nodes ! 3)) st;
         nodeXXR = allocatedNodes st tid 2;
         st = initializeNode nodeXXR
                (nkey st (nodes ! 1)) (nval st (nodes ! 1)) 1 (nright st (nodes ! 4)) nodeXXRR st;
         w = nweight st (nodes ! 1);
         nodeXX = allocatedNodes st tid 0;
         st = initializeNode nodeXX
                (nkey st (nodes ! 4)) (nval st (nodes ! 4)) w nodeXXL nodeXXR st
     in scx tid TYPE_W4SYM nodes llxResults (nodes ! 0, fieldIsLeft) nodeXX st)"

definition doW5Sym :: "('k, 'v) rebalancing_step" where
  "doW5Sym tid nodes llxResults fieldIsLeft st =
    (let nodeXXL = allocatedNodes st tid 1;
         st = initializeNode nodeXXL
                (nkey st (nodes ! 4)) (nval st (nodes ! 4)) 1 (nleft st (nodes ! 4)) (nright st
                (nodes ! 4)) st;
         nodeXXRR = allocatedNodes st tid 3;
         st = initializeNode nodeXXRR
                (nkey st (nodes ! 3)) (nval st (nodes ! 3)) (nweight st (nodes ! 3) - 1)
                (nleft st (nodes ! 3)) (nright st (nodes ! 3)) st;
         nodeXXR = allocatedNodes st tid 2;
         st = initializeNode nodeXXR
                (nkey st (nodes ! 1)) (nval st (nodes ! 1)) 1 (nright st (nodes ! 2)) nodeXXRR st;
         w = nweight st (nodes ! 1);
         nodeXX = allocatedNodes st tid 0;
         st = initializeNode nodeXX
                (nkey st (nodes ! 2)) (nval st (nodes ! 2)) w nodeXXL nodeXXR st
     in scx tid TYPE_W5SYM nodes llxResults (nodes ! 0, fieldIsLeft) nodeXX st)"

definition doW6Sym :: "('k, 'v) rebalancing_step" where
  "doW6Sym tid nodes llxResults fieldIsLeft st =
    (let nodeXXL = allocatedNodes st tid 1;
         st = initializeNode nodeXXL
                (nkey st (nodes ! 2)) (nval st (nodes ! 2)) 1 (nleft st (nodes ! 2))
                (nleft st (nodes ! 4)) st;
         nodeXXRR = allocatedNodes st tid 3;
         st = initializeNode nodeXXRR
                (nkey st (nodes ! 3)) (nval st (nodes ! 3)) (nweight st (nodes ! 3) - 1)
                (nleft st (nodes ! 3)) (nright st (nodes ! 3)) st;
         nodeXXR = allocatedNodes st tid 2;
         st = initializeNode nodeXXR
                (nkey st (nodes ! 1)) (nval st (nodes ! 1)) 1 (nright st (nodes ! 4)) nodeXXRR st;
         w = nweight st (nodes ! 1);
         nodeXX = allocatedNodes st tid 0;
         st = initializeNode nodeXX
                (nkey st (nodes ! 4)) (nval st (nodes ! 4)) w nodeXXL nodeXXR st
     in scx tid TYPE_W6SYM nodes llxResults (nodes ! 0, fieldIsLeft) nodeXX st)"

definition doW7Sym :: "('k, 'v) rebalancing_step" where
  "doW7Sym tid nodes llxResults fieldIsLeft st =
    (let nodeXXL = allocatedNodes st tid 1;
         st = initializeNode nodeXXL
                (nkey st (nodes ! 2)) (nval st (nodes ! 2)) (nweight st (nodes ! 2) - 1)
                (nleft st (nodes ! 2)) (nright st (nodes ! 2)) st;
         nodeXXR = allocatedNodes st tid 2;
         st = initializeNode nodeXXR
                (nkey st (nodes ! 3)) (nval st (nodes ! 3)) (nweight st (nodes ! 3) - 1)
                (nleft st (nodes ! 3)) (nright st (nodes ! 3)) st;
         w = (if IS_SENTINEL st (nodes ! 1) (nodes ! 0) then 1 else nweight st (nodes ! 1) + 1);
         nodeXX = allocatedNodes st tid 0;
         st = initializeNode nodeXX
                (nkey st (nodes ! 1)) (nval st (nodes ! 1)) w nodeXXL nodeXXR st
     in scx tid TYPE_W7SYM nodes llxResults (nodes ! 0, fieldIsLeft) nodeXX st)"

section \<open>The tree transformations\<close>

text \<open>
  \<open>al\<close> gives the addresses of the new nodes, \<open>s\<close> says whether the root of the subtree is a
  sentinel.  Trees of another shape are left alone; the steps are not applied to them.
\<close>

fun blk :: "(nat \<Rightarrow> addr) \<Rightarrow> bool \<Rightarrow> ('k, 'v) ct \<Rightarrow> ('k, 'v) ct" where
  "blk al s (Nd x k v w L R) =
     Nd (al 0) k v (if s then 1 else w - 1) (copy (al 1) 1 L) (copy (al 2) 1 R)"
| "blk al s t = t"

fun rb1 :: "(nat \<Rightarrow> addr) \<Rightarrow> ('k, 'v) ct \<Rightarrow> ('k, 'v) ct" where
  "rb1 al (Nd x k v w (Nd y ky vy wy A B) D) =
     Nd (al 0) ky vy w A (Nd (al 1) k v 0 B D)"
| "rb1 al t = t"

fun rb2 :: "(nat \<Rightarrow> addr) \<Rightarrow> ('k, 'v) ct \<Rightarrow> ('k, 'v) ct" where
  "rb2 al (Nd x k v w (Nd y ky vy wy A (Nd z kz vz wz B D)) E) =
     Nd (al 0) kz vz w (Nd (al 1) ky vy 0 A B) (Nd (al 2) k v 0 D E)"
| "rb2 al t = t"

fun push :: "(nat \<Rightarrow> addr) \<Rightarrow> bool \<Rightarrow> ('k, 'v) ct \<Rightarrow> ('k, 'v) ct" where
  "push al s (Nd x k v w L R) =
     Nd (al 0) k v (if s then 1 else w + 1) (copy (al 1) (wt L - 1) L) (copy (al 2) 0 R)"
| "push al s t = t"

fun w1 :: "(nat \<Rightarrow> addr) \<Rightarrow> ('k, 'v) ct \<Rightarrow> ('k, 'v) ct" where
  "w1 al (Nd x k v w L (Nd y ky vy wy M R)) =
     Nd (al 0) ky vy w (Nd (al 1) k v 1 (copy (al 2) (wt L - 1) L) (copy (al 3) (wt M - 1) M)) R"
| "w1 al t = t"

fun w2 :: "(nat \<Rightarrow> addr) \<Rightarrow> ('k, 'v) ct \<Rightarrow> ('k, 'v) ct" where
  "w2 al (Nd x k v w L (Nd y ky vy wy M R)) =
     Nd (al 0) ky vy w (Nd (al 1) k v 1 (copy (al 2) (wt L - 1) L) (copy (al 3) 0 M)) R"
| "w2 al t = t"

fun w3 :: "(nat \<Rightarrow> addr) \<Rightarrow> ('k, 'v) ct \<Rightarrow> ('k, 'v) ct" where
  "w3 al (Nd x k v w L (Nd y ky vy wy (Nd z kz vz wz (Nd q kq vq wq A B) D) R)) =
     Nd (al 0) ky vy w (Nd (al 1) kq vq 0 (Nd (al 2) k v 1 (copy (al 4) (wt L - 1) L) A) (Nd (al 3) kz vz 1 B D)) R"
| "w3 al t = t"

fun w4 :: "(nat \<Rightarrow> addr) \<Rightarrow> ('k, 'v) ct \<Rightarrow> ('k, 'v) ct" where
  "w4 al (Nd x k v w L (Nd y ky vy wy (Nd z kz vz wz A Q) R)) =
     Nd (al 0) kz vz w (Nd (al 1) k v 1 (copy (al 3) (wt L - 1) L) A) (Nd (al 2) ky vy 0 (copy (al 4) 1 Q) R)"
| "w4 al t = t"

fun w5 :: "(nat \<Rightarrow> addr) \<Rightarrow> ('k, 'v) ct \<Rightarrow> ('k, 'v) ct" where
  "w5 al (Nd x k v w L (Nd y ky vy wy A Q)) =
     Nd (al 0) ky vy w (Nd (al 1) k v 1 (copy (al 3) (wt L - 1) L) A) (copy (al 2) 1 Q)"
| "w5 al t = t"

fun w6 :: "(nat \<Rightarrow> addr) \<Rightarrow> ('k, 'v) ct \<Rightarrow> ('k, 'v) ct" where
  "w6 al (Nd x k v w L (Nd y ky vy wy (Nd z kz vz wz A B) D)) =
     Nd (al 0) kz vz w (Nd (al 1) k v 1 (copy (al 3) (wt L - 1) L) A) (Nd (al 2) ky vy 1 B D)"
| "w6 al t = t"

fun w7 :: "(nat \<Rightarrow> addr) \<Rightarrow> bool \<Rightarrow> ('k, 'v) ct \<Rightarrow> ('k, 'v) ct" where
  "w7 al s (Nd x k v w L R) =
     Nd (al 0) k v (if s then 1 else w + 1) (copy (al 1) (wt L - 1) L) (copy (al 2) (wt R - 1) R)"
| "w7 al s t = t"

fun rb1_sym :: "(nat \<Rightarrow> addr) \<Rightarrow> ('k, 'v) ct \<Rightarrow> ('k, 'v) ct" where
  "rb1_sym al (Nd x k v w A (Nd y ky vy wy B D)) =
     Nd (al 0) ky vy w (Nd (al 1) k v 0 A B) D"
| "rb1_sym al t = t"

fun rb2_sym :: "(nat \<Rightarrow> addr) \<Rightarrow> ('k, 'v) ct \<Rightarrow> ('k, 'v) ct" where
  "rb2_sym al (Nd x k v w A (Nd y ky vy wy (Nd z kz vz wz B D) E)) =
     Nd (al 0) kz vz w (Nd (al 1) k v 0 A B) (Nd (al 2) ky vy 0 D E)"
| "rb2_sym al t = t"

fun push_sym :: "(nat \<Rightarrow> addr) \<Rightarrow> bool \<Rightarrow> ('k, 'v) ct \<Rightarrow> ('k, 'v) ct" where
  "push_sym al s (Nd x k v w L R) =
     Nd (al 0) k v (if s then 1 else w + 1) (copy (al 1) 0 L) (copy (al 2) (wt R - 1) R)"
| "push_sym al s t = t"

fun w1_sym :: "(nat \<Rightarrow> addr) \<Rightarrow> ('k, 'v) ct \<Rightarrow> ('k, 'v) ct" where
  "w1_sym al (Nd x k v w (Nd y ky vy wy L M) R) =
     Nd (al 0) ky vy w L (Nd (al 1) k v 1 (copy (al 2) (wt M - 1) M) (copy (al 3) (wt R - 1) R))"
| "w1_sym al t = t"

fun w2_sym :: "(nat \<Rightarrow> addr) \<Rightarrow> ('k, 'v) ct \<Rightarrow> ('k, 'v) ct" where
  "w2_sym al (Nd x k v w (Nd y ky vy wy L M) R) =
     Nd (al 0) ky vy w L (Nd (al 1) k v 1 (copy (al 2) 0 M) (copy (al 3) (wt R - 1) R))"
| "w2_sym al t = t"

fun w3_sym :: "(nat \<Rightarrow> addr) \<Rightarrow> ('k, 'v) ct \<Rightarrow> ('k, 'v) ct" where
  "w3_sym al (Nd x k v w (Nd y ky vy wy L (Nd z kz vz wz A (Nd q kq vq wq B D))) R) =
     Nd (al 0) ky vy w L (Nd (al 1) kq vq 0 (Nd (al 2) kz vz 1 A B) (Nd (al 3) k v 1 D (copy (al 4) (wt R - 1) R)))"
| "w3_sym al t = t"

fun w4_sym :: "(nat \<Rightarrow> addr) \<Rightarrow> ('k, 'v) ct \<Rightarrow> ('k, 'v) ct" where
  "w4_sym al (Nd x k v w (Nd y ky vy wy L (Nd z kz vz wz Q A)) R) =
     Nd (al 0) kz vz w (Nd (al 1) ky vy 0 L (copy (al 3) 1 Q)) (Nd (al 2) k v 1 A (copy (al 4) (wt R - 1) R))"
| "w4_sym al t = t"

fun w5_sym :: "(nat \<Rightarrow> addr) \<Rightarrow> ('k, 'v) ct \<Rightarrow> ('k, 'v) ct" where
  "w5_sym al (Nd x k v w (Nd y ky vy wy Q A) R) =
     Nd (al 0) ky vy w (copy (al 1) 1 Q) (Nd (al 2) k v 1 A (copy (al 3) (wt R - 1) R))"
| "w5_sym al t = t"

fun w6_sym :: "(nat \<Rightarrow> addr) \<Rightarrow> ('k, 'v) ct \<Rightarrow> ('k, 'v) ct" where
  "w6_sym al (Nd x k v w (Nd y ky vy wy D (Nd z kz vz wz A B)) R) =
     Nd (al 0) kz vz w (Nd (al 1) ky vy 1 D A) (Nd (al 2) k v 1 B (copy (al 3) (wt R - 1) R))"
| "w6_sym al t = t"

fun w7_sym :: "(nat \<Rightarrow> addr) \<Rightarrow> bool \<Rightarrow> ('k, 'v) ct \<Rightarrow> ('k, 'v) ct" where
  "w7_sym al s (Nd x k v w L R) =
     Nd (al 0) k v (if s then 1 else w + 1) (copy (al 1) (wt L - 1) L) (copy (al 2) (wt R - 1) R)"
| "w7_sym al s t = t"

section \<open>Building blocks of the proofs\<close>

definition step_to :: "('k, 'v) ctx \<Rightarrow> ('k, 'v) ct \<Rightarrow> ('k, 'v) ct \<Rightarrow> ('k, 'v) Chromatic \<Rightarrow>
    bool \<times> ('k, 'v) Chromatic \<Rightarrow> bool" where
  "step_to C S S' st res \<longleftrightarrow>
     fst res \<and> hwf (snd res) (plug C S') \<and> rebuilt C S S' st (snd res)"

text \<open>The calls of \<open>initializeNode\<close> of one step: spare node index, key, value, weight and children.\<close>

fun inits :: "nat \<Rightarrow> (nat \<times> 'k \<times> 'v \<times> int \<times> addr \<times> addr) list \<Rightarrow>
    ('k, 'v) Chromatic \<Rightarrow> ('k, 'v) Chromatic" where
  "inits tid [] st = st"
| "inits tid ((i, k, v, w, l, r) # xs) st =
     inits tid xs (initializeNode (allocatedNodes st tid i) k v w l r st)"

lemma inits_frame [frame_simps]:
  "allocatedNodes (inits tid xs st) = allocatedNodes st" "root (inits tid xs st) = root st"
  by (induction tid xs st rule: inits.induct) (simp_all add: frame_simps)

lemma inits_append: "inits tid (xs @ ys) st = inits tid ys (inits tid xs st)"
  by (induction tid xs st rule: inits.induct) simp_all

lemma inits_ext:
  "pool_ext tid st st' \<Longrightarrow> \<forall>i\<in>set (map fst xs). i < 5 \<Longrightarrow> pool_ext tid st (inits tid xs st')"
proof (induction tid xs st' rule: inits.induct)
  case (2 tid i k v w l r xs st')
  then show ?case
    using initializeNode_ext[OF "2.prems"(1), of i] pool_extD(5)[OF "2.prems"(1)] by simp
qed simp

lemma inits_new:
  assumes "pool_ext tid st st'" and "\<forall>i\<in>set (map fst xs). i < 5" and "distinct (map fst xs)"
    and inj: "\<And>i j. i < 5 \<Longrightarrow> j < 5 \<Longrightarrow> allocatedNodes st tid i = allocatedNodes st tid j \<Longrightarrow> i = j"
    and "j < 5" and "j \<in> set (map fst xs) \<or> new_node st st' (allocatedNodes st tid j)"
  shows "new_node st (inits tid xs st') (allocatedNodes st tid j)"
  using assms(1-3,6)
proof (induction xs arbitrary: st')
  case (Cons x xs)
  obtain i k v w l r where x: "x = (i, k, v, w, l, r)" by (cases x)
  let ?st = "initializeNode (allocatedNodes st tid i) k v w l r st'"
  have al: "allocatedNodes st' = allocatedNodes st" by (rule pool_extD(5)[OF Cons.prems(1)])
  have ext: "pool_ext tid st ?st"
    using initializeNode_ext[OF Cons.prems(1), of i] Cons.prems(2) by (simp add: x)
  have "j \<in> set (map fst xs) \<or> new_node st ?st (allocatedNodes st tid j)"
  proof (cases "j = i")
    case True
    then show ?thesis using initializeNode_new[OF Cons.prems(1)] by blast
  next
    case False
    have "i < 5" using Cons.prems(2) by (simp add: x)
    then have "allocatedNodes st tid j \<noteq> allocatedNodes st tid i"
      using inj[OF \<open>j < 5\<close>] False by blast
    moreover have "j \<in> set (map fst xs) \<or> new_node st st' (allocatedNodes st tid j)"
      using Cons.prems(4) False by (simp add: x)
    ultimately show ?thesis by (auto intro: initializeNode_new_other)
  qed
  then show ?case
    using Cons.IH[OF ext] Cons.prems(2,3) by (simp add: x al)
qed simp

lemma spare_facts:
  assumes "hwf st (plug C S)" and "ready st tid"
  shows "i < 5 \<Longrightarrow> allocatedNodes st tid i \<notin> set (addrs S)" "i < 5 \<Longrightarrow> allocatedNodes st tid i \<noteq> NULL"
    "i < 5 \<Longrightarrow> allocatedNodes st tid i \<noteq> fst (hole (root st) C)"
    "i < 5 \<Longrightarrow> j < 5 \<Longrightarrow> allocatedNodes st tid i = allocatedNodes st tid j \<longleftrightarrow> i = j"
proof -
  note h = hwfD[OF assms(1)]
  have live: "live_node st a" if "a \<in> insert (root st) (set (addrs S) \<union> set (caddrs C))" for a
    using that h(9,10) by (auto simp: set_addrs_plug)
  show "i < 5 \<Longrightarrow> allocatedNodes st tid i \<notin> set (addrs S)"
    "i < 5 \<Longrightarrow> allocatedNodes st tid i \<noteq> fst (hole (root st) C)"
    using live live_not_spare[OF _ assms(2)] hole_in[of "root st" C] by blast+
  show "i < 5 \<Longrightarrow> allocatedNodes st tid i \<noteq> NULL"
    using pools_ok_spare(4)[OF h(1) assms(2), of i] by auto
  show "i < 5 \<Longrightarrow> j < 5 \<Longrightarrow> allocatedNodes st tid i = allocatedNodes st tid j \<longleftrightarrow> i = j"
    using pools_ok_inj(2)[OF h(1) assms(2,2)] by blast
qed

lemma scx_inits:
  fixes st :: "('k, 'v) Chromatic" and tid ty :: nat
  assumes hw: "hwf st (plug C S)" and rd: "ready st tid"
    and xs': "sort (map fst xs) = [0..<NUM_INSERTED ! ty]"
    and tbl: "0 < NUM_TO_FREEZE ! ty" "length nodes = NUM_TO_FREEZE ! ty"
      "length nodes = NUM_OF_NODES ! ty" "NUM_INSERTED ! ty \<le> 5"
    and nodes: "nodes = fst (hole (root st) C) # adr S # ns"
      "distinct (adr S # ns)" "set ns \<subseteq> set (addrs S)"
    and S': "tree_at (nodeH (inits tid xs st)) S'" "distinct (addrs S')" "adr S' = a0"
      "set (addrs S') \<subseteq> (set (addrs S) - set (adr S # ns)) \<union>
         allocatedNodes st tid ` {0..<NUM_INSERTED ! ty}"
  shows "step_to C S S' st
    (scx tid ty nodes (map (llx_value st) nodes) (hole (root st) C) a0 (inits tid xs st))"
proof -
  have xs: "distinct (map fst xs)" "set (map fst xs) = {0..<NUM_INSERTED ! ty}"
    using arg_cong[OF xs', of distinct] arg_cong[OF xs', of set] by simp_all
  have lt: "\<forall>i\<in>set (map fst xs). i < 5" using xs(2) tbl(4) by auto
  have ext: "pool_ext tid st (inits tid xs st)" by (rule inits_ext[OF pool_ext_refl lt])
  have new: "new_node st (inits tid xs st) (allocatedNodes st tid i)" if "i < NUM_INSERTED ! ty" for i
    using that xs(2) tbl(4) spare_facts(4)[OF hw rd]
    by (intro inits_new[OF pool_ext_refl lt xs(1)]) auto
  have sub: "set (addrs S') \<subseteq> (set (addrs S) - set (adr S # ns)) \<union>
         {allocatedNodes st tid i |i. i < NUM_INSERTED ! ty}"
    using S'(4) by fastforce
  have seen: "map (llx_value st) nodes ! j = llx_value st (nodes ! j)" if "j < NUM_TO_FREEZE ! ty" for j
    using that tbl(2) by simp
  show ?thesis
    using scx_rebuild[OF hw rd ext tbl(1) _ tbl(3)[symmetric] tbl(4) seen nodes S'(1,2) sub new] tbl(2) unfolding step_to_def S'(3) by auto
qed

text \<open>Reading a field of the old tree, and of the new nodes, after the calls.\<close>

fun subs_at :: "(addr \<Rightarrow> ('k, 'v) Node) \<Rightarrow> ('k, 'v) ct \<Rightarrow> bool" where
  "subs_at h (Lf a k v w) = True"
| "subs_at h (Nd a k v w l r) \<longleftrightarrow> tree_at h l \<and> tree_at h r"

lemma tree_at_copy [heap_simps]: "tree_at h (copy a w t) \<longleftrightarrow>
   a \<noteq> NULL \<and> key (h a) = tkey t \<and> val (h a) = tval t \<and> weight (h a) = w \<and>
   left (h a) = ladr t \<and> right (h a) = radr t \<and> subs_at h t"
  by (cases t) auto

lemma subs_at_init [heap_simps]: "a \<notin> set (addrs t) \<Longrightarrow>
     subs_at (nodeH (initializeNode a k v w l r st)) t = subs_at (nodeH st) t"
  by (cases t) (auto simp: heap_simps)

lemma tree_at_facts:
  assumes "tree_at h t"
  shows "subs_at h t" "key (h (adr t)) = tkey t" "val (h (adr t)) = tval t" "weight (h (adr t)) = wt t"
    "left (h (adr t)) = ladr t" "right (h (adr t)) = radr t"
  using assms by (cases t; simp)+

lemma IS_SENTINEL_init [heap_simps]: "a \<noteq> x \<Longrightarrow> a \<noteq> y \<Longrightarrow>
    IS_SENTINEL (initializeNode a k v w l r st) x y = IS_SENTINEL st x y"
  by (simp add: IS_SENTINEL_def heap_simps frame_simps)

lemma spare_read:
  assumes "hwf st (plug C S)" and "ready st tid" and "i < 5"
  shows "b \<in> set (addrs S) \<Longrightarrow>
      nodeH (initializeNode (allocatedNodes st tid i) k v w l r st') b = nodeH st' b"
    "b \<in> set (addrs S) \<Longrightarrow>
      IS_SENTINEL (initializeNode (allocatedNodes st tid i) k v w l r st') b (fst (hole (root st) C)) =
      IS_SENTINEL st' b (fst (hole (root st) C))"
    "set (addrs t) \<subseteq> set (addrs S) \<Longrightarrow>
      tree_at (nodeH (initializeNode (allocatedNodes st tid i) k v w l r st')) t = tree_at (nodeH st') t"
    "set (addrs t) \<subseteq> set (addrs S) \<Longrightarrow>
      subs_at (nodeH (initializeNode (allocatedNodes st tid i) k v w l r st')) t = subs_at (nodeH st') t"
    "j < 5 \<Longrightarrow> nodeH (initializeNode (allocatedNodes st tid i) k v w l r st') (allocatedNodes st tid j) =
      (if j = i then \<lparr>key = k, left = l, right = r, weight = w, val = v, marked = False,
         version = (if l = NULL then nextVersion st' else NULL), scxRecord = dummy st'\<rparr>
       else nodeH st' (allocatedNodes st tid j))"
proof -
  note sp = spare_facts[OF assms(1,2)]
  show "b \<in> set (addrs S) \<Longrightarrow>
      nodeH (initializeNode (allocatedNodes st tid i) k v w l r st') b = nodeH st' b"
    using sp(1)[OF assms(3)] by (auto simp: heap_simps)
  show "b \<in> set (addrs S) \<Longrightarrow>
      IS_SENTINEL (initializeNode (allocatedNodes st tid i) k v w l r st') b (fst (hole (root st) C)) =
      IS_SENTINEL st' b (fst (hole (root st) C))"
    using sp(1,3)[OF assms(3)] by (intro IS_SENTINEL_init) auto
  show "set (addrs t) \<subseteq> set (addrs S) \<Longrightarrow>
      tree_at (nodeH (initializeNode (allocatedNodes st tid i) k v w l r st')) t = tree_at (nodeH st') t"
    "set (addrs t) \<subseteq> set (addrs S) \<Longrightarrow>
      subs_at (nodeH (initializeNode (allocatedNodes st tid i) k v w l r st')) t = subs_at (nodeH st') t"
    using sp(1)[OF assms(3)] by (auto intro!: initializeNode_tree_at subs_at_init)
  show "j < 5 \<Longrightarrow> nodeH (initializeNode (allocatedNodes st tid i) k v w l r st') (allocatedNodes st tid j) =
      (if j = i then \<lparr>key = k, left = l, right = r, weight = w, val = v, marked = False,
         version = (if l = NULL then nextVersion st' else NULL), scxRecord = dummy st'\<rparr>
       else nodeH st' (allocatedNodes st tid j))"
    using sp(4)[of j i] assms(3) by (simp add: initializeNode_nodeH)
qed

lemma tl_addrs: obtains l where "addrs t = adr t # l"
  by (cases t) auto

lemma old_subtree:
  assumes "hwf st (plug C S)"
  shows "tree_at (nodeH st) S" "distinct (addrs S)"
  using hwfD(2,7)[OF assms] by (simp_all add: tree_at_plug distinct_addrs_plug)

lemma mset_addrs: "mset (addrs t) = add_mset (adr t) (mset (tl (addrs t)))"
  by (cases t) simp_all

lemma mset_tl_addrs_copy: "mset (addrs (copy a w t)) = add_mset a (mset (tl (addrs t)))"
  by (cases t) simp_all

lemma upt_small:
  "[0..<2] = [0, 1::nat]" "[0..<3] = [0, 1, 2::nat]" "[0..<4] = [0, 1, 2, 3::nat]"
  "[0..<5] = [0, 1, 2, 3, 4::nat]"
  by (simp_all add: upt_rec)

text \<open>
  The addresses of the new subtree: those of the old one, without the removed nodes and with the
  spare nodes, each once.
\<close>

lemma distinct_count_le: "distinct xs \<longleftrightarrow> (\<forall>a. count (mset xs) a \<le> 1)"
proof
  assume "\<forall>a. count (mset xs) a \<le> 1"
  then have "count (mset xs) a = (if a \<in> set xs then 1 else 0)" for a
    using count_mset_0_iff[of xs a] by (metis le_antisym less_one not_le)
  then show "distinct xs" by (simp add: distinct_count_atmost_1)
qed (simp add: distinct_count_atmost_1)

lemma replaced_addrs:
  assumes eq: "mset (addrs S') + mset xs = mset (addrs S) + mset (map al [0..<n])"
    and S: "distinct (addrs S)" and al: "\<And>i. i < n \<Longrightarrow> al i \<notin> set (addrs S)"
      "\<And>i j. i < n \<Longrightarrow> j < n \<Longrightarrow> al i = al j \<Longrightarrow> i = j"
  shows "distinct (addrs S')" "distinct xs" "set (addrs S') \<subseteq> (set (addrs S) - set xs) \<union> al ` {0..<n}"
proof -
  have dal: "distinct (map al [0..<n])" using al(2) by (auto simp: distinct_map inj_on_def)
  have "distinct (addrs S @ map al [0..<n])" using S dal al(1) by auto
  then have "count (mset (addrs S @ map al [0..<n])) a \<le> 1" for a
    unfolding distinct_count_le by blast
  then have "count (mset (addrs S' @ xs)) a \<le> 1" for a
    unfolding mset_append eq .
  then have "distinct (addrs S' @ xs)" unfolding distinct_count_le by blast
  moreover have "set (addrs S' @ xs) = set (addrs S @ map al [0..<n])"
    using arg_cong[OF eq, of set_mset] by simp
  ultimately show "distinct (addrs S')" "distinct xs"
    "set (addrs S') \<subseteq> (set (addrs S) - set xs) \<union> al ` {0..<n}"
    by auto
qed

lemma rebalance_step:
  fixes st :: "('k, 'v) Chromatic" and tid ty :: nat
  assumes hw: "hwf st (plug C S)" and rd: "ready st tid"
    and res: "res = scx tid ty nodes (map (llx_value st) nodes) (hole (root st) C)
       (allocatedNodes st tid 0) (inits tid xs st)"
    and nodes: "nodes = fst (hole (root st) C) # adr S # ns" "set ns \<subseteq> set (addrs S)"
    and xs: "sort (map fst xs) = [0..<NUM_INSERTED ! ty]"
    and tbl: "0 < NUM_TO_FREEZE ! ty" "NUM_TO_FREEZE ! ty = Suc (Suc (length ns))"
      "NUM_OF_NODES ! ty = Suc (Suc (length ns))" "NUM_INSERTED ! ty \<le> 5"
    and S': "tree_at (nodeH (inits tid xs st)) S'" "adr S' = allocatedNodes st tid 0"
      "mset (addrs S') + mset (adr S # ns) =
         mset (addrs S) + mset (map (allocatedNodes st tid) [0..<NUM_INSERTED ! ty])"
  shows "step_to C S S' st res"
proof -
  note r = replaced_addrs[OF S'(3) old_subtree(2)[OF hw]]
  have al: "i < NUM_INSERTED ! ty \<Longrightarrow> i < 5" for i using tbl(4) by simp
  have len: "length nodes = NUM_TO_FREEZE ! ty" "length nodes = NUM_OF_NODES ! ty"
    by (simp_all add: nodes(1) tbl)
  show ?thesis
    unfolding res
    by (rule scx_inits[OF hw rd xs tbl(1) len tbl(4) nodes(1) r(2) nodes(2) S'(1) r(1) S'(2) r(3)])
      (use spare_facts(1,4)[OF hw rd] al in blast)+
qed

lemmas rebalance_simps = tree_at_copy frame_simps tree_at_facts
  mset_tl_addrs_copy upt_small subset_iff Let_def

section \<open>Refinement\<close>

lemma doBlk_spec:
  assumes hw: "hwf st (plug C S)" and rd: "ready st tid"
    and S: "S = Nd x k v w L R"
    and n: "nodes = [fst (hole (root st) C), x, adr L, adr R]"
  shows "step_to C S (blk (allocatedNodes st tid) (IS_SENTINEL st x (fst (hole (root st) C))) S) st
    (doBlk tid nodes (map (llx_value st) nodes) (snd (hole (root st) C)) st)"
proof -
  let ?al = "allocatedNodes st tid"
  let ?s = "IS_SENTINEL st x (fst (hole (root st) C))"
  note sp = spare_facts(2,4)[OF hw rd] and read = spare_read[OF hw rd, unfolded S]
  show ?thesis
    by (rule rebalance_step[OF hw rd, where ty = TYPE_BLK and ns = "[adr L, adr R]" and
      xs = "[(1, tkey L, tval L, 1, ladr L, radr L),
        (2, tkey R, tval R, 1, ladr R, radr R),
        (0, k, v, if ?s then 1 else w - 1, ?al 1, ?al 2)]"])
      (use old_subtree(1)[OF hw] in
       \<open>simp_all add: doBlk_def n S read sp table_defs rebalance_simps mset_addrs[of L] mset_addrs[of R]\<close>)
qed

lemma doRb1_spec:
  assumes hw: "hwf st (plug C S)" and rd: "ready st tid"
    and S: "S = Nd x k v w (Nd y ky vy wy A B) D"
    and n: "nodes = [fst (hole (root st) C), x, y]"
  shows "step_to C S (rb1 (allocatedNodes st tid) S) st
    (doRb1 tid nodes (map (llx_value st) nodes) (snd (hole (root st) C)) st)"
proof -
  let ?al = "allocatedNodes st tid"
  note sp = spare_facts(2,4)[OF hw rd] and read = spare_read[OF hw rd, unfolded S]
  show ?thesis
    by (rule rebalance_step[OF hw rd, where ty = TYPE_RB1 and ns = "[y]" and
      xs = "[(1, k, v, 0, adr B, adr D),
        (0, ky, vy, w, adr A, ?al 1)]"])
      (use old_subtree(1)[OF hw] in
       \<open>simp_all add: doRb1_def n S read sp table_defs rebalance_simps \<close>)
qed

lemma doRb2_spec:
  assumes hw: "hwf st (plug C S)" and rd: "ready st tid"
    and S: "S = Nd x k v w (Nd y ky vy wy A (Nd z kz vz wz B D)) E"
    and n: "nodes = [fst (hole (root st) C), x, y, z]"
  shows "step_to C S (rb2 (allocatedNodes st tid) S) st
    (doRb2 tid nodes (map (llx_value st) nodes) (snd (hole (root st) C)) st)"
proof -
  let ?al = "allocatedNodes st tid"
  note sp = spare_facts(2,4)[OF hw rd] and read = spare_read[OF hw rd, unfolded S]
  show ?thesis
    by (rule rebalance_step[OF hw rd, where ty = TYPE_RB2 and ns = "[y, z]" and
      xs = "[(1, ky, vy, 0, adr A, adr B),
        (2, k, v, 0, adr D, adr E),
        (0, kz, vz, w, ?al 1, ?al 2)]"])
      (use old_subtree(1)[OF hw] in
       \<open>simp_all add: doRb2_def n S read sp table_defs rebalance_simps \<close>)
qed

lemma doPush_spec:
  assumes hw: "hwf st (plug C S)" and rd: "ready st tid"
    and S: "S = Nd x k v w L R"
    and n: "nodes = [fst (hole (root st) C), x, adr L, adr R]"
  shows "step_to C S (push (allocatedNodes st tid) (IS_SENTINEL st x (fst (hole (root st) C))) S) st
    (doPush tid nodes (map (llx_value st) nodes) (snd (hole (root st) C)) st)"
proof -
  let ?al = "allocatedNodes st tid"
  let ?s = "IS_SENTINEL st x (fst (hole (root st) C))"
  note sp = spare_facts(2,4)[OF hw rd] and read = spare_read[OF hw rd, unfolded S]
  show ?thesis
    by (rule rebalance_step[OF hw rd, where ty = TYPE_PUSH and ns = "[adr L, adr R]" and
      xs = "[(1, tkey L, tval L, wt L - 1, ladr L, radr L),
        (2, tkey R, tval R, 0, ladr R, radr R),
        (0, k, v, if ?s then 1 else w + 1, ?al 1, ?al 2)]"])
      (use old_subtree(1)[OF hw] in
       \<open>simp_all add: doPush_def n S read sp table_defs rebalance_simps mset_addrs[of L] mset_addrs[of R]\<close>)
qed

lemma doW1_spec:
  assumes hw: "hwf st (plug C S)" and rd: "ready st tid"
    and S: "S = Nd x k v w L (Nd y ky vy wy M R)"
    and n: "nodes = [fst (hole (root st) C), x, adr L, y, adr M]"
  shows "step_to C S (w1 (allocatedNodes st tid) S) st
    (doW1 tid nodes (map (llx_value st) nodes) (snd (hole (root st) C)) st)"
proof -
  let ?al = "allocatedNodes st tid"
  note sp = spare_facts(2,4)[OF hw rd] and read = spare_read[OF hw rd, unfolded S]
  show ?thesis
    by (rule rebalance_step[OF hw rd, where ty = TYPE_W1 and ns = "[adr L, y, adr M]" and
      xs = "[(2, tkey L, tval L, wt L - 1, ladr L, radr L),
        (3, tkey M, tval M, wt M - 1, ladr M, radr M),
        (1, k, v, 1, ?al 2, ?al 3),
        (0, ky, vy, w, ?al 1, adr R)]"])
      (use old_subtree(1)[OF hw] in
       \<open>simp_all add: doW1_def n S read sp table_defs rebalance_simps mset_addrs[of L] mset_addrs[of M]\<close>)
qed

lemma doW2_spec:
  assumes hw: "hwf st (plug C S)" and rd: "ready st tid"
    and S: "S = Nd x k v w L (Nd y ky vy wy M R)"
    and n: "nodes = [fst (hole (root st) C), x, adr L, y, adr M]"
  shows "step_to C S (w2 (allocatedNodes st tid) S) st
    (doW2 tid nodes (map (llx_value st) nodes) (snd (hole (root st) C)) st)"
proof -
  let ?al = "allocatedNodes st tid"
  note sp = spare_facts(2,4)[OF hw rd] and read = spare_read[OF hw rd, unfolded S]
  show ?thesis
    by (rule rebalance_step[OF hw rd, where ty = TYPE_W2 and ns = "[adr L, y, adr M]" and
      xs = "[(2, tkey L, tval L, wt L - 1, ladr L, radr L),
        (3, tkey M, tval M, 0, ladr M, radr M),
        (1, k, v, 1, ?al 2, ?al 3),
        (0, ky, vy, w, ?al 1, adr R)]"])
      (use old_subtree(1)[OF hw] in
       \<open>simp_all add: doW2_def n S read sp table_defs rebalance_simps mset_addrs[of L] mset_addrs[of M]\<close>)
qed

lemma doW3_spec:
  assumes hw: "hwf st (plug C S)" and rd: "ready st tid"
    and S: "S = Nd x k v w L (Nd y ky vy wy (Nd z kz vz wz (Nd q kq vq wq A B) D) R)"
    and n: "nodes = [fst (hole (root st) C), x, adr L, y, z, q]"
  shows "step_to C S (w3 (allocatedNodes st tid) S) st
    (doW3 tid nodes (map (llx_value st) nodes) (snd (hole (root st) C)) st)"
proof -
  let ?al = "allocatedNodes st tid"
  note sp = spare_facts(2,4)[OF hw rd] and read = spare_read[OF hw rd, unfolded S]
  show ?thesis
    by (rule rebalance_step[OF hw rd, where ty = TYPE_W3 and ns = "[adr L, y, z, q]" and
      xs = "[(4, tkey L, tval L, wt L - 1, ladr L, radr L),
        (2, k, v, 1, ?al 4, adr A),
        (3, kz, vz, 1, adr B, adr D),
        (1, kq, vq, 0, ?al 2, ?al 3),
        (0, ky, vy, w, ?al 1, adr R)]"])
      (use old_subtree(1)[OF hw] in
       \<open>simp_all add: doW3_def n S read sp table_defs rebalance_simps mset_addrs[of L]\<close>)
qed

lemma doW4_spec:
  assumes hw: "hwf st (plug C S)" and rd: "ready st tid"
    and S: "S = Nd x k v w L (Nd y ky vy wy (Nd z kz vz wz A Q) R)"
    and n: "nodes = [fst (hole (root st) C), x, adr L, y, z, adr Q]"
  shows "step_to C S (w4 (allocatedNodes st tid) S) st
    (doW4 tid nodes (map (llx_value st) nodes) (snd (hole (root st) C)) st)"
proof -
  let ?al = "allocatedNodes st tid"
  note sp = spare_facts(2,4)[OF hw rd] and read = spare_read[OF hw rd, unfolded S]
  show ?thesis
    by (rule rebalance_step[OF hw rd, where ty = TYPE_W4 and ns = "[adr L, y, z, adr Q]" and
      xs = "[(3, tkey L, tval L, wt L - 1, ladr L, radr L),
        (1, k, v, 1, ?al 3, adr A),
        (4, tkey Q, tval Q, 1, ladr Q, radr Q),
        (2, ky, vy, 0, ?al 4, adr R),
        (0, kz, vz, w, ?al 1, ?al 2)]"])
      (use old_subtree(1)[OF hw] in
       \<open>simp_all add: doW4_def n S read sp table_defs rebalance_simps mset_addrs[of L] mset_addrs[of Q]\<close>)
qed

lemma doW5_spec:
  assumes hw: "hwf st (plug C S)" and rd: "ready st tid"
    and S: "S = Nd x k v w L (Nd y ky vy wy A Q)"
    and n: "nodes = [fst (hole (root st) C), x, adr L, y, adr Q]"
  shows "step_to C S (w5 (allocatedNodes st tid) S) st
    (doW5 tid nodes (map (llx_value st) nodes) (snd (hole (root st) C)) st)"
proof -
  let ?al = "allocatedNodes st tid"
  note sp = spare_facts(2,4)[OF hw rd] and read = spare_read[OF hw rd, unfolded S]
  show ?thesis
    by (rule rebalance_step[OF hw rd, where ty = TYPE_W5 and ns = "[adr L, y, adr Q]" and
      xs = "[(3, tkey L, tval L, wt L - 1, ladr L, radr L),
        (1, k, v, 1, ?al 3, adr A),
        (2, tkey Q, tval Q, 1, ladr Q, radr Q),
        (0, ky, vy, w, ?al 1, ?al 2)]"])
      (use old_subtree(1)[OF hw] in
       \<open>simp_all add: doW5_def n S read sp table_defs rebalance_simps mset_addrs[of L] mset_addrs[of Q]\<close>)
qed

lemma doW6_spec:
  assumes hw: "hwf st (plug C S)" and rd: "ready st tid"
    and S: "S = Nd x k v w L (Nd y ky vy wy (Nd z kz vz wz A B) D)"
    and n: "nodes = [fst (hole (root st) C), x, adr L, y, z]"
  shows "step_to C S (w6 (allocatedNodes st tid) S) st
    (doW6 tid nodes (map (llx_value st) nodes) (snd (hole (root st) C)) st)"
proof -
  let ?al = "allocatedNodes st tid"
  note sp = spare_facts(2,4)[OF hw rd] and read = spare_read[OF hw rd, unfolded S]
  show ?thesis
    by (rule rebalance_step[OF hw rd, where ty = TYPE_W6 and ns = "[adr L, y, z]" and
      xs = "[(3, tkey L, tval L, wt L - 1, ladr L, radr L),
        (1, k, v, 1, ?al 3, adr A),
        (2, ky, vy, 1, adr B, adr D),
        (0, kz, vz, w, ?al 1, ?al 2)]"])
      (use old_subtree(1)[OF hw] in
       \<open>simp_all add: doW6_def n S read sp table_defs rebalance_simps mset_addrs[of L]\<close>)
qed

lemma doW7_spec:
  assumes hw: "hwf st (plug C S)" and rd: "ready st tid"
    and S: "S = Nd x k v w L R"
    and n: "nodes = [fst (hole (root st) C), x, adr L, adr R]"
  shows "step_to C S (w7 (allocatedNodes st tid) (IS_SENTINEL st x (fst (hole (root st) C))) S) st
    (doW7 tid nodes (map (llx_value st) nodes) (snd (hole (root st) C)) st)"
proof -
  let ?al = "allocatedNodes st tid"
  let ?s = "IS_SENTINEL st x (fst (hole (root st) C))"
  note sp = spare_facts(2,4)[OF hw rd] and read = spare_read[OF hw rd, unfolded S]
  show ?thesis
    by (rule rebalance_step[OF hw rd, where ty = TYPE_W7 and ns = "[adr L, adr R]" and
      xs = "[(1, tkey L, tval L, wt L - 1, ladr L, radr L),
        (2, tkey R, tval R, wt R - 1, ladr R, radr R),
        (0, k, v, if ?s then 1 else w + 1, ?al 1, ?al 2)]"])
      (use old_subtree(1)[OF hw] in
       \<open>simp_all add: doW7_def n S read sp table_defs rebalance_simps mset_addrs[of L] mset_addrs[of R]\<close>)
qed

lemma doRb1Sym_spec:
  assumes hw: "hwf st (plug C S)" and rd: "ready st tid"
    and S: "S = Nd x k v w A (Nd y ky vy wy B D)"
    and n: "nodes = [fst (hole (root st) C), x, y]"
  shows "step_to C S (rb1_sym (allocatedNodes st tid) S) st
    (doRb1Sym tid nodes (map (llx_value st) nodes) (snd (hole (root st) C)) st)"
proof -
  let ?al = "allocatedNodes st tid"
  note sp = spare_facts(2,4)[OF hw rd] and read = spare_read[OF hw rd, unfolded S]
  show ?thesis
    by (rule rebalance_step[OF hw rd, where ty = TYPE_RB1SYM and ns = "[y]" and
      xs = "[(1, k, v, 0, adr A, adr B),
        (0, ky, vy, w, ?al 1, adr D)]"])
      (use old_subtree(1)[OF hw] in
       \<open>simp_all add: doRb1Sym_def n S read sp table_defs rebalance_simps \<close>)
qed

lemma doRb2Sym_spec:
  assumes hw: "hwf st (plug C S)" and rd: "ready st tid"
    and S: "S = Nd x k v w A (Nd y ky vy wy (Nd z kz vz wz B D) E)"
    and n: "nodes = [fst (hole (root st) C), x, y, z]"
  shows "step_to C S (rb2_sym (allocatedNodes st tid) S) st
    (doRb2Sym tid nodes (map (llx_value st) nodes) (snd (hole (root st) C)) st)"
proof -
  let ?al = "allocatedNodes st tid"
  note sp = spare_facts(2,4)[OF hw rd] and read = spare_read[OF hw rd, unfolded S]
  show ?thesis
    by (rule rebalance_step[OF hw rd, where ty = TYPE_RB2SYM and ns = "[y, z]" and
      xs = "[(1, k, v, 0, adr A, adr B),
        (2, ky, vy, 0, adr D, adr E),
        (0, kz, vz, w, ?al 1, ?al 2)]"])
      (use old_subtree(1)[OF hw] in
       \<open>simp_all add: doRb2Sym_def n S read sp table_defs rebalance_simps \<close>)
qed

lemma doPushSym_spec:
  assumes hw: "hwf st (plug C S)" and rd: "ready st tid"
    and S: "S = Nd x k v w L R"
    and n: "nodes = [fst (hole (root st) C), x, adr L, adr R]"
  shows "step_to C S (push_sym (allocatedNodes st tid) (IS_SENTINEL st x (fst (hole (root st) C))) S) st
    (doPushSym tid nodes (map (llx_value st) nodes) (snd (hole (root st) C)) st)"
proof -
  let ?al = "allocatedNodes st tid"
  let ?s = "IS_SENTINEL st x (fst (hole (root st) C))"
  note sp = spare_facts(2,4)[OF hw rd] and read = spare_read[OF hw rd, unfolded S]
  show ?thesis
    by (rule rebalance_step[OF hw rd, where ty = TYPE_PUSHSYM and ns = "[adr L, adr R]" and
      xs = "[(1, tkey L, tval L, 0, ladr L, radr L),
        (2, tkey R, tval R, wt R - 1, ladr R, radr R),
        (0, k, v, if ?s then 1 else w + 1, ?al 1, ?al 2)]"])
      (use old_subtree(1)[OF hw] in
       \<open>simp_all add: doPushSym_def n S read sp table_defs rebalance_simps mset_addrs[of L] mset_addrs[of R]\<close>)
qed

lemma doW1Sym_spec:
  assumes hw: "hwf st (plug C S)" and rd: "ready st tid"
    and S: "S = Nd x k v w (Nd y ky vy wy L M) R"
    and n: "nodes = [fst (hole (root st) C), x, y, adr R, adr M]"
  shows "step_to C S (w1_sym (allocatedNodes st tid) S) st
    (doW1Sym tid nodes (map (llx_value st) nodes) (snd (hole (root st) C)) st)"
proof -
  let ?al = "allocatedNodes st tid"
  note sp = spare_facts(2,4)[OF hw rd] and read = spare_read[OF hw rd, unfolded S]
  show ?thesis
    by (rule rebalance_step[OF hw rd, where ty = TYPE_W1SYM and ns = "[y, adr R, adr M]" and
      xs = "[(2, tkey M, tval M, wt M - 1, ladr M, radr M),
        (3, tkey R, tval R, wt R - 1, ladr R, radr R),
        (1, k, v, 1, ?al 2, ?al 3),
        (0, ky, vy, w, adr L, ?al 1)]"])
      (use old_subtree(1)[OF hw] in
       \<open>simp_all add: doW1Sym_def n S read sp table_defs rebalance_simps mset_addrs[of M] mset_addrs[of R]\<close>)
qed

lemma doW2Sym_spec:
  assumes hw: "hwf st (plug C S)" and rd: "ready st tid"
    and S: "S = Nd x k v w (Nd y ky vy wy L M) R"
    and n: "nodes = [fst (hole (root st) C), x, y, adr R, adr M]"
  shows "step_to C S (w2_sym (allocatedNodes st tid) S) st
    (doW2Sym tid nodes (map (llx_value st) nodes) (snd (hole (root st) C)) st)"
proof -
  let ?al = "allocatedNodes st tid"
  note sp = spare_facts(2,4)[OF hw rd] and read = spare_read[OF hw rd, unfolded S]
  show ?thesis
    by (rule rebalance_step[OF hw rd, where ty = TYPE_W2SYM and ns = "[y, adr R, adr M]" and
      xs = "[(2, tkey M, tval M, 0, ladr M, radr M),
        (3, tkey R, tval R, wt R - 1, ladr R, radr R),
        (1, k, v, 1, ?al 2, ?al 3),
        (0, ky, vy, w, adr L, ?al 1)]"])
      (use old_subtree(1)[OF hw] in
       \<open>simp_all add: doW2Sym_def n S read sp table_defs rebalance_simps mset_addrs[of M] mset_addrs[of R]\<close>)
qed

lemma doW3Sym_spec:
  assumes hw: "hwf st (plug C S)" and rd: "ready st tid"
    and S: "S = Nd x k v w (Nd y ky vy wy L (Nd z kz vz wz A (Nd q kq vq wq B D))) R"
    and n: "nodes = [fst (hole (root st) C), x, y, adr R, z, q]"
  shows "step_to C S (w3_sym (allocatedNodes st tid) S) st
    (doW3Sym tid nodes (map (llx_value st) nodes) (snd (hole (root st) C)) st)"
proof -
  let ?al = "allocatedNodes st tid"
  note sp = spare_facts(2,4)[OF hw rd] and read = spare_read[OF hw rd, unfolded S]
  show ?thesis
    by (rule rebalance_step[OF hw rd, where ty = TYPE_W3SYM and ns = "[y, adr R, z, q]" and
      xs = "[(2, kz, vz, 1, adr A, adr B),
        (4, tkey R, tval R, wt R - 1, ladr R, radr R),
        (3, k, v, 1, adr D, ?al 4),
        (1, kq, vq, 0, ?al 2, ?al 3),
        (0, ky, vy, w, adr L, ?al 1)]"])
      (use old_subtree(1)[OF hw] in
       \<open>simp_all add: doW3Sym_def n S read sp table_defs rebalance_simps mset_addrs[of R]\<close>)
qed

lemma doW4Sym_spec:
  assumes hw: "hwf st (plug C S)" and rd: "ready st tid"
    and S: "S = Nd x k v w (Nd y ky vy wy L (Nd z kz vz wz Q A)) R"
    and n: "nodes = [fst (hole (root st) C), x, y, adr R, z, adr Q]"
  shows "step_to C S (w4_sym (allocatedNodes st tid) S) st
    (doW4Sym tid nodes (map (llx_value st) nodes) (snd (hole (root st) C)) st)"
proof -
  let ?al = "allocatedNodes st tid"
  note sp = spare_facts(2,4)[OF hw rd] and read = spare_read[OF hw rd, unfolded S]
  show ?thesis
    by (rule rebalance_step[OF hw rd, where ty = TYPE_W4SYM and ns = "[y, adr R, z, adr Q]" and
      xs = "[(3, tkey Q, tval Q, 1, ladr Q, radr Q),
        (1, ky, vy, 0, adr L, ?al 3),
        (4, tkey R, tval R, wt R - 1, ladr R, radr R),
        (2, k, v, 1, adr A, ?al 4),
        (0, kz, vz, w, ?al 1, ?al 2)]"])
      (use old_subtree(1)[OF hw] in
       \<open>simp_all add: doW4Sym_def n S read sp table_defs rebalance_simps mset_addrs[of Q] mset_addrs[of R]\<close>)
qed

lemma doW5Sym_spec:
  assumes hw: "hwf st (plug C S)" and rd: "ready st tid"
    and S: "S = Nd x k v w (Nd y ky vy wy Q A) R"
    and n: "nodes = [fst (hole (root st) C), x, y, adr R, adr Q]"
  shows "step_to C S (w5_sym (allocatedNodes st tid) S) st
    (doW5Sym tid nodes (map (llx_value st) nodes) (snd (hole (root st) C)) st)"
proof -
  let ?al = "allocatedNodes st tid"
  note sp = spare_facts(2,4)[OF hw rd] and read = spare_read[OF hw rd, unfolded S]
  show ?thesis
    by (rule rebalance_step[OF hw rd, where ty = TYPE_W5SYM and ns = "[y, adr R, adr Q]" and
      xs = "[(1, tkey Q, tval Q, 1, ladr Q, radr Q),
        (3, tkey R, tval R, wt R - 1, ladr R, radr R),
        (2, k, v, 1, adr A, ?al 3),
        (0, ky, vy, w, ?al 1, ?al 2)]"])
      (use old_subtree(1)[OF hw] in
       \<open>simp_all add: doW5Sym_def n S read sp table_defs rebalance_simps mset_addrs[of Q] mset_addrs[of R]\<close>)
qed

lemma doW6Sym_spec:
  assumes hw: "hwf st (plug C S)" and rd: "ready st tid"
    and S: "S = Nd x k v w (Nd y ky vy wy D (Nd z kz vz wz A B)) R"
    and n: "nodes = [fst (hole (root st) C), x, y, adr R, z]"
  shows "step_to C S (w6_sym (allocatedNodes st tid) S) st
    (doW6Sym tid nodes (map (llx_value st) nodes) (snd (hole (root st) C)) st)"
proof -
  let ?al = "allocatedNodes st tid"
  note sp = spare_facts(2,4)[OF hw rd] and read = spare_read[OF hw rd, unfolded S]
  show ?thesis
    by (rule rebalance_step[OF hw rd, where ty = TYPE_W6SYM and ns = "[y, adr R, z]" and
      xs = "[(1, ky, vy, 1, adr D, adr A),
        (3, tkey R, tval R, wt R - 1, ladr R, radr R),
        (2, k, v, 1, adr B, ?al 3),
        (0, kz, vz, w, ?al 1, ?al 2)]"])
      (use old_subtree(1)[OF hw] in
       \<open>simp_all add: doW6Sym_def n S read sp table_defs rebalance_simps mset_addrs[of R]\<close>)
qed

lemma doW7Sym_spec:
  assumes hw: "hwf st (plug C S)" and rd: "ready st tid"
    and S: "S = Nd x k v w L R"
    and n: "nodes = [fst (hole (root st) C), x, adr L, adr R]"
  shows "step_to C S (w7_sym (allocatedNodes st tid) (IS_SENTINEL st x (fst (hole (root st) C))) S) st
    (doW7Sym tid nodes (map (llx_value st) nodes) (snd (hole (root st) C)) st)"
proof -
  let ?al = "allocatedNodes st tid"
  let ?s = "IS_SENTINEL st x (fst (hole (root st) C))"
  note sp = spare_facts(2,4)[OF hw rd] and read = spare_read[OF hw rd, unfolded S]
  show ?thesis
    by (rule rebalance_step[OF hw rd, where ty = TYPE_W7SYM and ns = "[adr L, adr R]" and
      xs = "[(1, tkey L, tval L, wt L - 1, ladr L, radr L),
        (2, tkey R, tval R, wt R - 1, ladr R, radr R),
        (0, k, v, if ?s then 1 else w + 1, ?al 1, ?al 2)]"])
      (use old_subtree(1)[OF hw] in
       \<open>simp_all add: doW7Sym_def n S read sp table_defs rebalance_simps mset_addrs[of L] mset_addrs[of R]\<close>)
qed

end
