(* ===== verification/Rebalancing_Trees.thy ===== *)
theory Rebalancing_Trees
  imports Rebalancing_Steps
begin

text \<open>
  The tree transformations behind the rebalancing steps keep the left-to-right sequence of keys
  (hence the map, the search-tree order and the internal keys) and the equal weight of all paths.
\<close>

section \<open>What the transformations preserve\<close>

text \<open>
  The keys of a tree from left to right, those of the leaves with their values.  Order, leaves and
  internal keys of a tree can be read off this sequence, which no rebalancing step changes.
\<close>

datatype ('k, 'v) token = LeafTok 'k 'v | KeyTok 'k

fun tokens :: "('k, 'v) ct \<Rightarrow> ('k, 'v) token list" where
  "tokens (Lf a k v w) = [LeafTok k v]"
| "tokens (Nd a k v w l r) = tokens l @ KeyTok k # tokens r"

fun tok_ok :: "('k::linorder, 'v) token \<Rightarrow> ('k, 'v) token \<Rightarrow> bool" where
  "tok_ok (LeafTok x v) (KeyTok k) = (x < k)"
| "tok_ok (KeyTok k) (LeafTok x v) = (k \<le> x)"
| "tok_ok _ _ = True"

fun tok_leaf :: "('k, 'v) token \<Rightarrow> ('k \<times> 'v) list" where
  "tok_leaf (LeafTok k v) = [(k, v)]"
| "tok_leaf (KeyTok k) = []"

lemma tokens_copy [simp]: "tokens (copy a w t) = tokens t"
  by (cases t) simp_all

lemma leaves_tokens: "leaves t = concat (map tok_leaf (tokens t))"
  by (induction t) auto

lemma ikeys_tokens: "ikeys t = {k. KeyTok k \<in> set (tokens t)}"
  by (induction t) auto

lemma token_key_leaf:
  "(\<forall>x\<in>set (tokens t). tok_ok x (KeyTok k)) \<longleftrightarrow> (\<forall>x\<in>set (lkeys t). x < k)"
  "(\<forall>x\<in>set (tokens t). tok_ok (KeyTok k) x) \<longleftrightarrow> (\<forall>x\<in>set (lkeys t). k \<le> x)"
  by (induction t) (simp_all add: ball_Un)

lemma leaf_token: "LeafTok x v \<in> set (tokens t) \<Longrightarrow> x \<in> set (lkeys t)"
  by (force simp: leaves_tokens)

lemma ikeys_between:
  assumes "bst t" and "c \<in> ikeys t"
  shows "(\<exists>x\<in>set (lkeys t). x < c) \<and> (\<exists>x\<in>set (lkeys t). c \<le> x)"
  using assms
proof (induction t)
  case (Nd a k v w l r)
  obtain x y where "x \<in> set (lkeys l)" "y \<in> set (lkeys r)"
    using leaves_nonempty[of l] leaves_nonempty[of r] by (metis last_in_set map_is_Nil_conv)
  with Nd show ?case by auto
qed simp

lemma tokens_across:
  assumes l: "bst l" "\<forall>x\<in>set (lkeys l). x < k" and r: "bst r" "\<forall>x\<in>set (lkeys r). k \<le> x"
    and a: "a \<in> set (tokens l)" and b: "b \<in> set (tokens r)"
  shows "tok_ok a b"
proof (cases a)
  case (LeafTok x v)
  have "x \<in> set (lkeys l)" by (rule leaf_token[of x v]) (use a LeafTok in simp)
  then have x: "x < k" by (rule bspec[OF l(2)])
  show ?thesis
  proof (cases b)
    case (KeyTok c)
    obtain y where y: "y \<in> set (lkeys r)" "y < c"
      using ikeys_between[OF r(1), of c] b KeyTok by (auto simp: ikeys_tokens)
    then have "x < c" using x bspec[OF r(2) y(1)] by simp
    then show ?thesis by (simp add: LeafTok KeyTok)
  qed (simp add: LeafTok)
next
  case (KeyTok c)
  show ?thesis
  proof (cases b)
    case (LeafTok y v)
    have "y \<in> set (lkeys r)" by (rule leaf_token[of y v]) (use b LeafTok in simp)
    then have "k \<le> y" by (rule bspec[OF r(2)])
    moreover obtain x where x: "x \<in> set (lkeys l)" "c \<le> x"
      using ikeys_between[OF l(1), of c] a KeyTok by (auto simp: ikeys_tokens)
    ultimately have "c \<le> y" using bspec[OF l(2) x(1)] by simp
    then show ?thesis by (simp add: LeafTok KeyTok)
  qed (simp add: KeyTok)
qed

lemma bst_tokens: "bst t \<longleftrightarrow> sorted_wrt tok_ok (tokens t)"
proof (induction t)
  case (Nd a k v w l r)
  have "sorted_wrt tok_ok (tokens (Nd a k v w l r)) \<longleftrightarrow> bst l \<and> bst r \<and>
      (\<forall>x\<in>set (lkeys l). x < k) \<and> (\<forall>x\<in>set (lkeys r). k \<le> x) \<and>
      (\<forall>a\<in>set (tokens l). \<forall>b\<in>set (tokens r). tok_ok a b)"
    unfolding tokens.simps sorted_wrt_append sorted_wrt.simps(2) list.set(2) ball_simps(7)
      ball_conj_distrib token_key_leaf Nd[symmetric] by blast
  then show ?case using tokens_across[of l k r] by auto
qed simp

lemma tokens_same:
  assumes "tokens S' = tokens S"
  shows "leaves S' = leaves S" "ikeys S' = ikeys S" "bst S' = bst S"
  using assms by (simp_all add: leaves_tokens ikeys_tokens bst_tokens)

text \<open>
  A replacement of a subtree that keeps this sequence and the weight of all paths.  At a sentinel
  the weight of all paths may change, but by the same amount, and a root of weight 1 keeps it.
\<close>

definition good_step :: "bool \<Rightarrow> ('k, 'v) ct \<Rightarrow> ('k, 'v) ct \<Rightarrow> bool" where
  "good_step s S S' \<longleftrightarrow> tokens S' = tokens S \<and>
     (\<forall>n. pathw S n \<longrightarrow> (\<exists>n'. pathw S' n' \<and> (s \<or> n' = n))) \<and> (s \<and> wt S = 1 \<longrightarrow> wt S' = 1)"

lemma good_stepI:
  assumes "tokens S' = tokens S" and "s \<Longrightarrow> wt S = 1 \<Longrightarrow> wt S' = 1"
    and "\<And>n. pathw S n \<Longrightarrow> pathw S' (n + d)" and "s \<or> d = 0"
  shows "good_step s S S'"
  using assms unfolding good_step_def by (metis add.right_neutral)

lemma pathw_copyI:
  assumes "pathw t m" and "n = m - wt t + w" and "0 \<le> w" and "is_leaf t \<Longrightarrow> 1 \<le> w"
  shows "pathw (copy a w t) n"
  using pathw_copy[OF assms(1,3,4)] assms(2) by simp

lemma pathw_light_copy:
  assumes "pathw t m" and "wt t < m" and "n = m - wt t"
  shows "pathw (copy a 0 t) n"
  using assms by (cases t) auto

lemma good_blk:
  assumes "S = Nd x k v w L R" and "wt L = 0" and "wt R = 0" and "0 < w" and "s \<Longrightarrow> w = 1"
  shows "good_step s S (blk al s S)"
proof (rule good_stepI[where d = "if s then 1 else 0"])
  fix n assume n: "pathw S n"
  show "pathw (blk al s S) (n + (if s then 1 else 0))"
    using assms n by (auto intro!: pathw_copyI[of _ "n - w"])
qed (use assms in auto)

lemma good_rb1:
  assumes "S = Nd x k v w (Nd y ky vy wy A B) D" and "wy = 0"
  shows "good_step s S (rb1 al S)"
  by (rule good_stepI[where d = 0]) (use assms in auto)

lemma good_rb2:
  assumes "S = Nd x k v w (Nd y ky vy wy A (Nd z kz vz wz B D)) E" and "wy = 0" and "wz = 0"
  shows "good_step s S (rb2 al S)"
  by (rule good_stepI[where d = 0]) (use assms in auto)

lemma good_push:
  assumes "S = Nd x k v w L R" and "1 < wt L" and "wt R = 1" and "s \<Longrightarrow> w = 1"
  shows "good_step s S (push al s S)"
proof (rule good_stepI[where d = "if s then - 1 else 0"])
  fix n assume n: "pathw S n"
  have "wt L \<le> n - w" using n pathw_wt[of L] assms(1) by auto
  then show "pathw (push al s S) (n + (if s then - 1 else 0))"
    using assms n by (auto intro!: pathw_light_copy[of _ "n - w"] pathw_copyI[of _ "n - w"])
qed (use assms in auto)

lemma good_w1:
  assumes "S = Nd x k v w L (Nd y ky vy wy M R)" and "wy = 0" and "1 < wt L" and "1 < wt M"
  shows "good_step s S (w1 al S)"
proof (rule good_stepI[where d = 0])
  fix n assume n: "pathw S n"
  show "pathw (w1 al S) (n + 0)"
    using assms n by (auto intro!: pathw_copyI[of _ "n - w"])
qed (use assms in auto)

lemma good_w2:
  assumes "S = Nd x k v w L (Nd y ky vy wy M R)" and "wy = 0" and "1 < wt L" and "wt M = 1"
  shows "good_step s S (w2 al S)"
proof (rule good_stepI[where d = 0])
  fix n assume n: "pathw S n"
  have "wt L \<le> n - w" using n pathw_wt[of L] assms(1) by auto
  then show "pathw (w2 al S) (n + 0)"
    using assms n by (auto intro!: pathw_light_copy[of _ "n - w"] pathw_copyI[of _ "n - w"])
qed (use assms in auto)

lemma good_w3:
  assumes "S = Nd x k v w L (Nd y ky vy wy (Nd z kz vz wz (Nd q kq vq wq A B) D) R)" and "wy = 0" and "wz = 1" and "wq = 0" and "1 < wt L"
  shows "good_step s S (w3 al S)"
proof (rule good_stepI[where d = 0])
  fix n assume n: "pathw S n"
  show "pathw (w3 al S) (n + 0)"
    using assms n by (auto intro!: pathw_copyI[of _ "n - w"])
qed (use assms in auto)

lemma good_w4:
  assumes "S = Nd x k v w L (Nd y ky vy wy (Nd z kz vz wz A Q) R)" and "wy = 0" and "wz = 1" and "wt Q = 0" and "1 < wt L"
  shows "good_step s S (w4 al S)"
proof (rule good_stepI[where d = 0])
  fix n assume n: "pathw S n"
  show "pathw (w4 al S) (n + 0)"
    using assms n by (auto intro!: pathw_copyI[of _ "n - w"] pathw_copyI[of Q "n - w - 1"])
qed (use assms in auto)

lemma good_w5:
  assumes "S = Nd x k v w L (Nd y ky vy wy A Q)" and "wy = 1" and "wt Q = 0" and "1 < wt L"
  shows "good_step s S (w5 al S)"
proof (rule good_stepI[where d = 0])
  fix n assume n: "pathw S n"
  show "pathw (w5 al S) (n + 0)"
    using assms n by (auto intro!: pathw_copyI[of _ "n - w"] pathw_copyI[of Q "n - w - 1"])
qed (use assms in auto)

lemma good_w6:
  assumes "S = Nd x k v w L (Nd y ky vy wy (Nd z kz vz wz A B) D)" and "wy = 1" and "wz = 0" and "1 < wt L"
  shows "good_step s S (w6 al S)"
proof (rule good_stepI[where d = 0])
  fix n assume n: "pathw S n"
  show "pathw (w6 al S) (n + 0)"
    using assms n by (auto intro!: pathw_copyI[of _ "n - w"])
qed (use assms in auto)

lemma good_w7:
  assumes "S = Nd x k v w L R" and "1 < wt L" and "1 < wt R" and "s \<Longrightarrow> w = 1"
  shows "good_step s S (w7 al s S)"
proof (rule good_stepI[where d = "if s then - 1 else 0"])
  fix n assume n: "pathw S n"
  show "pathw (w7 al s S) (n + (if s then - 1 else 0))"
    using assms n by (auto intro!: pathw_copyI[of _ "n - w"])
qed (use assms in auto)

lemma good_rb1_sym:
  assumes "S = Nd x k v w A (Nd y ky vy wy B D)" and "wy = 0"
  shows "good_step s S (rb1_sym al S)"
  by (rule good_stepI[where d = 0]) (use assms in auto)

lemma good_rb2_sym:
  assumes "S = Nd x k v w A (Nd y ky vy wy (Nd z kz vz wz B D) E)" and "wy = 0" and "wz = 0"
  shows "good_step s S (rb2_sym al S)"
  by (rule good_stepI[where d = 0]) (use assms in auto)

lemma good_push_sym:
  assumes "S = Nd x k v w L R" and "1 < wt R" and "wt L = 1" and "s \<Longrightarrow> w = 1"
  shows "good_step s S (push_sym al s S)"
proof (rule good_stepI[where d = "if s then - 1 else 0"])
  fix n assume n: "pathw S n"
  have "wt R \<le> n - w" using n pathw_wt[of R] assms(1) by auto
  then show "pathw (push_sym al s S) (n + (if s then - 1 else 0))"
    using assms n by (auto intro!: pathw_light_copy[of _ "n - w"] pathw_copyI[of _ "n - w"])
qed (use assms in auto)

lemma good_w1_sym:
  assumes "S = Nd x k v w (Nd y ky vy wy L M) R" and "wy = 0" and "1 < wt R" and "1 < wt M"
  shows "good_step s S (w1_sym al S)"
proof (rule good_stepI[where d = 0])
  fix n assume n: "pathw S n"
  show "pathw (w1_sym al S) (n + 0)"
    using assms n by (auto intro!: pathw_copyI[of _ "n - w"])
qed (use assms in auto)

lemma good_w2_sym:
  assumes "S = Nd x k v w (Nd y ky vy wy L M) R" and "wy = 0" and "1 < wt R" and "wt M = 1"
  shows "good_step s S (w2_sym al S)"
proof (rule good_stepI[where d = 0])
  fix n assume n: "pathw S n"
  have "wt R \<le> n - w" using n pathw_wt[of R] assms(1) by auto
  then show "pathw (w2_sym al S) (n + 0)"
    using assms n by (auto intro!: pathw_light_copy[of _ "n - w"] pathw_copyI[of _ "n - w"])
qed (use assms in auto)

lemma good_w3_sym:
  assumes "S = Nd x k v w (Nd y ky vy wy L (Nd z kz vz wz A (Nd q kq vq wq B D))) R" and "wy = 0" and "wz = 1" and "wq = 0" and "1 < wt R"
  shows "good_step s S (w3_sym al S)"
proof (rule good_stepI[where d = 0])
  fix n assume n: "pathw S n"
  show "pathw (w3_sym al S) (n + 0)"
    using assms n by (auto intro!: pathw_copyI[of _ "n - w"])
qed (use assms in auto)

lemma good_w4_sym:
  assumes "S = Nd x k v w (Nd y ky vy wy L (Nd z kz vz wz Q A)) R" and "wy = 0" and "wz = 1" and "wt Q = 0" and "1 < wt R"
  shows "good_step s S (w4_sym al S)"
proof (rule good_stepI[where d = 0])
  fix n assume n: "pathw S n"
  show "pathw (w4_sym al S) (n + 0)"
    using assms n by (auto intro!: pathw_copyI[of _ "n - w"] pathw_copyI[of Q "n - w - 1"])
qed (use assms in auto)

lemma good_w5_sym:
  assumes "S = Nd x k v w (Nd y ky vy wy Q A) R" and "wy = 1" and "wt Q = 0" and "1 < wt R"
  shows "good_step s S (w5_sym al S)"
proof (rule good_stepI[where d = 0])
  fix n assume n: "pathw S n"
  show "pathw (w5_sym al S) (n + 0)"
    using assms n by (auto intro!: pathw_copyI[of _ "n - w"] pathw_copyI[of Q "n - w - 1"])
qed (use assms in auto)

lemma good_w6_sym:
  assumes "S = Nd x k v w (Nd y ky vy wy D (Nd z kz vz wz A B)) R" and "wy = 1" and "wz = 0" and "1 < wt R"
  shows "good_step s S (w6_sym al S)"
proof (rule good_stepI[where d = 0])
  fix n assume n: "pathw S n"
  show "pathw (w6_sym al S) (n + 0)"
    using assms n by (auto intro!: pathw_copyI[of _ "n - w"])
qed (use assms in auto)

lemma good_w7_sym:
  assumes "S = Nd x k v w L R" and "1 < wt L" and "1 < wt R" and "s \<Longrightarrow> w = 1"
  shows "good_step s S (w7_sym al s S)"
proof (rule good_stepI[where d = "if s then - 1 else 0"])
  fix n assume n: "pathw S n"
  show "pathw (w7_sym al s S) (n + (if s then - 1 else 0))"
    using assms n by (auto intro!: pathw_copyI[of _ "n - w"])
qed (use assms in auto)

end
