(* ===== verification/Chromatic_Rebalance.thy ===== *)
theory Chromatic_Rebalance
  imports Rebalancing_Trees
begin

text \<open>
  \<open>updateRebalancingStep\<close> and \<open>fixAllToKey\<close> of \<open>chromatic_impl.h\<close>: the search for the first
  violation on the path to a key, the choice of the rebalancing step from the weights around it,
  and the proof that on a chromatic tree exactly one step commits and keeps the tree chromatic.
\<close>

section \<open>LLX in the update functions\<close>

text \<open>
  What an operation knows about a node after an LLX of it: the result, and the two children.
  \<open>LLX_then\<close> is the idiom \<open>if ((i = LLX(tid, n, &l, &r)) == NULL) return false;\<close>, and
  \<open>PROTECT_LLX_then\<close> has the call of \<open>protect\<close> in front of it.
\<close>

record view =
  vw_node :: addr
  vw_info :: addr
  vw_left :: addr
  vw_right :: addr

definition LLX_then ::
    "addr \<Rightarrow> (view \<Rightarrow> ('k, 'v) Chromatic \<Rightarrow> bool \<times> ('k, 'v) Chromatic) \<Rightarrow>
     ('k, 'v) Chromatic \<Rightarrow> bool \<times> ('k, 'v) Chromatic" where
  "LLX_then n f st =
    (case llx n st of ((i, l, r), st') \<Rightarrow>
       if i = NULL then (False, st')
       else f \<lparr>vw_node = n, vw_info = i, vw_left = l, vw_right = r\<rparr> st')"

definition PROTECT_LLX_then ::
    "addr \<Rightarrow> (view \<Rightarrow> ('k, 'v) Chromatic \<Rightarrow> bool \<times> ('k, 'v) Chromatic) \<Rightarrow>
     ('k, 'v) Chromatic \<Rightarrow> bool \<times> ('k, 'v) Chromatic" where
  "PROTECT_LLX_then n f st = (if IF_FAIL_TO_PROTECT_NODE st n then (False, st) else LLX_then n f st)"

definition step_on ::
    "('k, 'v) rebalancing_step \<Rightarrow> nat \<Rightarrow> view list \<Rightarrow> bool \<Rightarrow>
     ('k, 'v) Chromatic \<Rightarrow> bool \<times> ('k, 'v) Chromatic" where
  "step_on f tid vs fieldIsLeft st = f tid (map vw_node vs) (map vw_info vs) fieldIsLeft st"

abbreviation (input) vweight :: "('k, 'v) Chromatic \<Rightarrow> view \<Rightarrow> int" where
  "vweight st x \<equiv> nweight st (vw_node x)"

section \<open>updateRebalancingStep\<close>

definition rebalanceLeftOverweight ::
    "nat \<Rightarrow> view \<Rightarrow> view \<Rightarrow> view \<Rightarrow> view \<Rightarrow> view \<Rightarrow>
     ('k, 'v) Chromatic \<Rightarrow> bool \<times> ('k, 'v) Chromatic" where
  "rebalanceLeftOverweight tid u uX uXX uXXL uXXR st =
    (let uXleft = (vw_node uX = vw_left u); uXXleft = (vw_node uXX = vw_left uX) in
     if vweight st uXXR = 0 then
       if vweight st uXX = 0 then
         if uXXleft then
           PROTECT_LLX_then (vw_right uX) (\<lambda>uXR st.
             if vweight st uXR = 0
             then step_on doBlk tid [u, uX, uXX, uXR] uXleft st
             else step_on doRb2 tid [u, uX, uXX, uXXR] uXleft st) st
         else
           PROTECT_LLX_then (vw_left uX) (\<lambda>uXL st.
             if vweight st uXL = 0
             then step_on doBlk tid [u, uX, uXL, uXX] uXleft st
             else step_on doRb1Sym tid [u, uX, uXX] uXleft st) st
       else
         PROTECT_LLX_then (vw_left uXXR) (\<lambda>uXXRL st.
           if vweight st uXXRL > 1
           then step_on doW1 tid [uX, uXX, uXXL, uXXR, uXXRL] uXXleft st
           else if vweight st uXXRL = 0
           then step_on doRb2Sym tid [uX, uXX, uXXR, uXXRL] uXXleft st
           else if vw_right uXXRL = NULL then (False, st)
           else PROTECT_LLX_then (vw_right uXXRL) (\<lambda>uXXRLR st.
             if vweight st uXXRLR = 0
             then step_on doW4 tid [uX, uXX, uXXL, uXXR, uXXRL, uXXRLR] uXXleft st
             else if vw_left uXXRL = NULL then (False, st)
             else PROTECT_LLX_then (vw_left uXXRL) (\<lambda>uXXRLL st.
               if vweight st uXXRLL = 0
               then step_on doW3 tid [uX, uXX, uXXL, uXXR, uXXRL, uXXRLL] uXXleft st
               else step_on doW2 tid [uX, uXX, uXXL, uXXR, uXXRL] uXXleft st) st) st) st
     else if vweight st uXXR = 1 then
       if vw_left uXXR = NULL then (False, st)
       else PROTECT_LLX_then (vw_right uXXR) (\<lambda>uXXRR st.
         PROTECT_LLX_then (vw_left uXXR) (\<lambda>uXXRL st.
           if vweight st uXXRR = 0
           then step_on doW5 tid [uX, uXX, uXXL, uXXR, uXXRR] uXXleft st
           else if vweight st uXXRL = 0
           then step_on doW6 tid [uX, uXX, uXXL, uXXR, uXXRL] uXXleft st
           else step_on doPush tid [uX, uXX, uXXL, uXXR] uXXleft st) st) st
     else step_on doW7 tid [uX, uXX, uXXL, uXXR] uXXleft st)"

definition rebalanceRightOverweight ::
    "nat \<Rightarrow> view \<Rightarrow> view \<Rightarrow> view \<Rightarrow> view \<Rightarrow> view \<Rightarrow>
     ('k, 'v) Chromatic \<Rightarrow> bool \<times> ('k, 'v) Chromatic" where
  "rebalanceRightOverweight tid u uX uXX uXXL uXXR st =
    (let uXleft = (vw_node uX = vw_left u); uXXleft = (vw_node uXX = vw_left uX) in
     if vweight st uXXL = 0 then
       if vweight st uXX = 0 then
         if \<not> uXXleft then
           PROTECT_LLX_then (vw_left uX) (\<lambda>uXL st.
             if vweight st uXL = 0
             then step_on doBlk tid [u, uX, uXL, uXX] uXleft st
             else step_on doRb2Sym tid [u, uX, uXX, uXXL] uXleft st) st
         else
           PROTECT_LLX_then (vw_right uX) (\<lambda>uXR st.
             if vweight st uXR = 0
             then step_on doBlk tid [u, uX, uXX, uXR] uXleft st
             else step_on doRb1 tid [u, uX, uXX] uXleft st) st
       else
         PROTECT_LLX_then (vw_left uXX) (\<lambda>uXXL st.
         PROTECT_LLX_then (vw_right uXXL) (\<lambda>uXXLR st.
           if vweight st uXXLR > 1
           then step_on doW1Sym tid [uX, uXX, uXXL, uXXR, uXXLR] uXXleft st
           else if vweight st uXXLR = 0
           then step_on doRb2 tid [uX, uXX, uXXL, uXXLR] uXXleft st
           else if vw_left uXXLR = NULL then (False, st)
           else PROTECT_LLX_then (vw_left uXXLR) (\<lambda>uXXLRL st.
             if vweight st uXXLRL = 0
             then step_on doW4Sym tid [uX, uXX, uXXL, uXXR, uXXLR, uXXLRL] uXXleft st
             else if vw_right uXXLR = NULL then (False, st)
             else PROTECT_LLX_then (vw_right uXXLR) (\<lambda>uXXLRR st.
               if vweight st uXXLRR = 0
               then step_on doW3Sym tid [uX, uXX, uXXL, uXXR, uXXLR, uXXLRR] uXXleft st
               else step_on doW2Sym tid [uX, uXX, uXXL, uXXR, uXXLR] uXXleft st) st) st) st) st
     else if vweight st uXXL = 1 then
       if vw_right uXXL = NULL then (False, st)
       else PROTECT_LLX_then (vw_left uXXL) (\<lambda>uXXLL st.
         PROTECT_LLX_then (vw_right uXXL) (\<lambda>uXXLR st.
           if vweight st uXXLL = 0
           then step_on doW5Sym tid [uX, uXX, uXXL, uXXR, uXXLL] uXXleft st
           else if vweight st uXXLR = 0
           then step_on doW6Sym tid [uX, uXX, uXXL, uXXR, uXXLR] uXXleft st
           else step_on doPushSym tid [uX, uXX, uXXL, uXXR] uXXleft st) st) st
     else step_on doW7Sym tid [uX, uXX, uXXL, uXXR] uXXleft st)"

definition rebalanceRedRed ::
    "nat \<Rightarrow> view \<Rightarrow> view \<Rightarrow> view \<Rightarrow> bool \<Rightarrow>
     ('k, 'v) Chromatic \<Rightarrow> bool \<times> ('k, 'v) Chromatic" where
  "rebalanceRedRed tid u uX uXX uXXXleft st =
    (let uXleft = (vw_node uX = vw_left u); uXXleft = (vw_node uXX = vw_left uX) in
     if uXXleft then
       PROTECT_LLX_then (vw_right uX) (\<lambda>uXR st.
         if vweight st uXR = 0 then step_on doBlk tid [u, uX, uXX, uXR] uXleft st
         else if uXXXleft then step_on doRb1 tid [u, uX, uXX] uXleft st
         else PROTECT_LLX_then (vw_right uXX) (\<lambda>uXXR st.
           step_on doRb2 tid [u, uX, uXX, uXXR] uXleft st) st) st
     else
       PROTECT_LLX_then (vw_left uX) (\<lambda>uXL st.
         if vweight st uXL = 0 then step_on doBlk tid [u, uX, uXL, uXX] uXleft st
         else if \<not> uXXXleft then step_on doRb1Sym tid [u, uX, uXX] uXleft st
         else PROTECT_LLX_then (vw_left uXX) (\<lambda>uXXL st.
           step_on doRb2Sym tid [u, uX, uXX, uXXL] uXleft st) st) st)"

text \<open>The part of \<open>updateRebalancingStep\<close> after the search has found \<open>uXXX\<close>.\<close>

definition rebalanceAt ::
    "nat \<Rightarrow> addr \<Rightarrow> addr \<Rightarrow> addr \<Rightarrow> addr \<Rightarrow> ('k, 'v) Chromatic \<Rightarrow> bool \<times> ('k, 'v) Chromatic" where
  "rebalanceAt tid u uX uXX uXXX st =
    LLX_then u (\<lambda>vu st.
      if uX \<noteq> vw_left vu \<and> uX \<noteq> vw_right vu then (False, st)
      else LLX_then uX (\<lambda>vuX st.
        if uXX \<noteq> vw_left vuX \<and> uXX \<noteq> vw_right vuX then (False, st)
        else LLX_then uXX (\<lambda>vuXX st.
          if uXXX \<noteq> vw_left vuXX \<and> uXXX \<noteq> vw_right vuXX then (False, st)
          else PROTECT_LLX_then (vw_left vuXX) (\<lambda>vuXXL st.
            PROTECT_LLX_then (vw_right vuXX) (\<lambda>vuXXR st.
              if nweight st uXXX > 1
              then if uXXX = vw_left vuXX
                then rebalanceLeftOverweight tid vu vuX vuXX vuXXL vuXXR st
                else rebalanceRightOverweight tid vu vuX vuXX vuXXL vuXXR st
              else rebalanceRedRed tid vu vuX vuXX (uXXX = vw_left vuXX) st) st) st) st) st) st"

text \<open>
  The search for the first violation on the path to a key.  It returns \<open>ggp\<close>, \<open>gp\<close>, \<open>p\<close> and
  \<open>l\<close>, or \<open>None\<close> inside when \<open>protect\<close> fails and the caller retries.
\<close>

partial_function (option) searchViolation ::
    "'k::linorder \<Rightarrow> addr \<Rightarrow> addr \<Rightarrow> addr \<Rightarrow> addr \<Rightarrow> ('k, 'v) Chromatic \<Rightarrow>
     (addr \<times> addr \<times> addr \<times> addr) option option" where
  "searchViolation x ggp gp p l st =
    (if nleft st l \<noteq> NULL \<and> nweight st l \<le> 1 \<and> (nweight st l \<noteq> 0 \<or> nweight st p \<noteq> 0)
     then if x < nkey st l
       then if IF_FAIL_TO_PROTECT_NODE st (nleft st l) then Some None
            else searchViolation x gp p l (nleft st l) st
       else if IF_FAIL_TO_PROTECT_NODE st (nright st l) then Some None
            else searchViolation x gp p l (nright st l) st
     else Some (Some (ggp, gp, p, l)))"

definition updateRebalancingStep ::
    "nat \<Rightarrow> 'k::linorder \<Rightarrow> ('k, 'v) Chromatic \<Rightarrow> (bool \<times> ('k, 'v) Chromatic) option" where
  "updateRebalancingStep tid x st =
    (let l = nleft st (root st) in
     if IF_FAIL_TO_PROTECT_NODE st l then Some (False, st)
     else if nleft st l = NULL then Some (True, st)
     else if IF_FAIL_TO_PROTECT_NODE st (nleft st l) then Some (False, st)
     else do {
       found \<leftarrow> searchViolation x (root st) (root st) l (nleft st l) st;
       case found of
         None \<Rightarrow> Some (False, st)
       | Some (ggp, gp, p, l) \<Rightarrow>
           if nweight st l = 1 then Some (True, st)
           else Some (rebalanceAt tid ggp gp p l st)
     })"

partial_function (option) fixAllToKey ::
    "nat \<Rightarrow> 'k::linorder \<Rightarrow> ('k, 'v) Chromatic \<Rightarrow> ('k, 'v) Chromatic option" where
  "fixAllToKey tid x st =
    do {
      (fin, st') \<leftarrow> updateRebalancingStep tid x st;
      if fin then Some st' else fixAllToKey tid x st'
    }"

section \<open>LLX and the steps on a well-formed memory\<close>

definition view_of :: "('k, 'v) Chromatic \<Rightarrow> addr \<Rightarrow> view" where
  "view_of st a =
    \<lparr>vw_node = a, vw_info = llx_value st a, vw_left = nleft st a, vw_right = nright st a\<rparr>"

lemma view_of_sel [simp]:
  "vw_node (view_of st a) = a" "vw_info (view_of st a) = llx_value st a"
  "vw_left (view_of st a) = nleft st a" "vw_right (view_of st a) = nright st a"
  by (simp_all add: view_of_def)

lemma LLX_then_live:
  assumes "live_node st a"
  shows "LLX_then a f st = f (view_of st a) st" "PROTECT_LLX_then a f st = f (view_of st a) st"
  using llx_live[OF assms] llx_value_nonnull[OF assms]
  by (simp_all add: PROTECT_LLX_then_def LLX_then_def view_of_def)

lemma live_nodes:
  assumes "hwf st (plug C S)"
  shows "a \<in> set (addrs S) \<Longrightarrow> live_node st a" "live_node st (fst (hole (root st) C))"
  using hwfD(9,10)[OF assms] hole_in[of "root st" C] by (auto simp: set_addrs_plug)

lemma hole_flag:
  assumes "hwf st (plug C S)"
  shows "adr S = nleft st (fst (hole (root st) C)) \<longleftrightarrow> snd (hole (root st) C)"
    "adr S = nleft st (fst (hole (root st) C)) \<or> adr S = nright st (fst (hole (root st) C))"
proof -
  note h = hwfD[OF assms]
  have c: "ctx_at (nodeH st) C (adr S)" using h(2) by (simp add: tree_at_plug)
  have d: "distinct (addrs (plug C S))" by (rule h(7))
  have "(adr S = nleft st (fst (hole (root st) C)) \<longleftrightarrow> snd (hole (root st) C)) \<and>
    (adr S = nleft st (fst (hole (root st) C)) \<or> adr S = nright st (fst (hole (root st) C)))"
  proof (cases C)
    case (Cons f D)
    have "set (addrs S) \<inter> set (addrs (fsib f)) = {}"
      using d unfolding Cons distinct_addrs_plug by auto
    then have "adr (fsib f) \<noteq> adr S" 
      by (metis adr_in_addrs disjoint_iff)
    then show ?thesis using c by (cases f) (auto simp: Cons)
  qed (use h(3) in simp)
  then show "adr S = nleft st (fst (hole (root st) C)) \<longleftrightarrow> snd (hole (root st) C)"
    "adr S = nleft st (fst (hole (root st) C)) \<or> adr S = nright st (fst (hole (root st) C))"
    by blast+
qed

text \<open>One committed step at \<open>t\<close> or above it in the context \<open>D\<close>.\<close>

definition rebalanced ::
    "('k, 'v) Chromatic \<Rightarrow> ('k, 'v) ctx \<Rightarrow> ('k, 'v) ct \<Rightarrow> bool \<times> ('k, 'v) Chromatic \<Rightarrow> bool" where
  "rebalanced st D t res \<longleftrightarrow> (\<exists>F C S S'. D = F @ C \<and> S = plug F t \<and> C \<noteq> [] \<and> \<not> is_leaf S \<and>
     step_to C S S' st res \<and> good_step (IS_SENTINEL st (adr S) (fst (hole (root st) C))) S S')"

lemma rebalancedI:
  assumes "step_to C S S' st (f tid ns (map (llx_value st) ns) (snd (hole (root st) C)) st)"
    and "good_step (IS_SENTINEL st (adr S) (fst (hole (root st) C))) S S'"
    and "C \<noteq> []" and "\<not> is_leaf S"
  shows "rebalanced st C S (step_on f tid (map (view_of st) ns) (snd (hole (root st) C)) st)"
proof -
  have e: "map vw_node (map (view_of st) ns) = ns" "map vw_info (map (view_of st) ns) = map (llx_value st) ns"
    by (simp_all add: comp_def)
  have "step_to C S S' st (step_on f tid (map (view_of st) ns) (snd (hole (root st) C)) st)"
    unfolding step_on_def e by (rule assms(1))
  with assms(2-4) show ?thesis
    unfolding rebalanced_def by (intro exI[of _ "[]"] exI[of _ C] exI[of _ S] exI[of _ S']) simp
qed

lemma rebalanced_fill: "rebalanced st C (fill f S) res \<Longrightarrow> rebalanced st (f # C) S res"
proof -
  assume "rebalanced st C (fill f S) res"
  then obtain F D R R' where r: "C = F @ D" "R = plug F (fill f S)" "D \<noteq> []" "\<not> is_leaf R"
      "step_to D R R' st res" "good_step (IS_SENTINEL st (adr R) (fst (hole (root st) D))) R R'"
    unfolding rebalanced_def by blast
  then show ?thesis
    unfolding rebalanced_def by (intro exI[of _ "f # F"] exI[of _ D] exI[of _ R] exI[of _ R']) simp
qed

lemma rebalanced_Blk:
  assumes "hwf st (plug C (Nd x k v w L R))" and "ready st tid" and "C \<noteq> []"
    and "wt L = 0" and "wt R = 0" and "0 < w" and "IS_SENTINEL st x (fst (hole (root st) C)) \<Longrightarrow> w = 1"
  shows "rebalanced st C (Nd x k v w L R)
    (step_on doBlk tid (map (view_of st) [fst (hole (root st) C), x, adr L, adr R])
       (snd (hole (root st) C)) st)"
  by (rule rebalancedI[where f = doBlk, OF doBlk_spec[OF assms(1,2) refl refl] _ assms(3)],
      unfold ct.sel, rule good_blk[OF refl]) (use assms in simp_all)

lemma rebalanced_Rb1:
  assumes "hwf st (plug C (Nd x k v w (Nd y ky vy wy A B) D))" and "ready st tid" and "C \<noteq> []"
    and "wy = 0"
  shows "rebalanced st C (Nd x k v w (Nd y ky vy wy A B) D)
    (step_on doRb1 tid (map (view_of st) [fst (hole (root st) C), x, y])
       (snd (hole (root st) C)) st)"
  by (rule rebalancedI[where f = doRb1, OF doRb1_spec[OF assms(1,2) refl refl] _ assms(3)],
      unfold ct.sel, rule good_rb1[OF refl]) (use assms in simp_all)

lemma rebalanced_Rb2:
  assumes "hwf st (plug C (Nd x k v w (Nd y ky vy wy A (Nd z kz vz wz B D)) E))" and "ready st tid" and "C \<noteq> []"
    and "wy = 0" and "wz = 0"
  shows "rebalanced st C (Nd x k v w (Nd y ky vy wy A (Nd z kz vz wz B D)) E)
    (step_on doRb2 tid (map (view_of st) [fst (hole (root st) C), x, y, z])
       (snd (hole (root st) C)) st)"
  by (rule rebalancedI[where f = doRb2, OF doRb2_spec[OF assms(1,2) refl refl] _ assms(3)],
      unfold ct.sel, rule good_rb2[OF refl]) (use assms in simp_all)

lemma rebalanced_Push:
  assumes "hwf st (plug C (Nd x k v w L R))" and "ready st tid" and "C \<noteq> []"
    and "1 < wt L" and "wt R = 1" and "IS_SENTINEL st x (fst (hole (root st) C)) \<Longrightarrow> w = 1"
  shows "rebalanced st C (Nd x k v w L R)
    (step_on doPush tid (map (view_of st) [fst (hole (root st) C), x, adr L, adr R])
       (snd (hole (root st) C)) st)"
  by (rule rebalancedI[where f = doPush, OF doPush_spec[OF assms(1,2) refl refl] _ assms(3)],
      unfold ct.sel, rule good_push[OF refl]) (use assms in simp_all)

lemma rebalanced_W1:
  assumes "hwf st (plug C (Nd x k v w L (Nd y ky vy wy M R)))" and "ready st tid" and "C \<noteq> []"
    and "wy = 0" and "1 < wt L" and "1 < wt M"
  shows "rebalanced st C (Nd x k v w L (Nd y ky vy wy M R))
    (step_on doW1 tid (map (view_of st) [fst (hole (root st) C), x, adr L, y, adr M])
       (snd (hole (root st) C)) st)"
  by (rule rebalancedI[where f = doW1, OF doW1_spec[OF assms(1,2) refl refl] _ assms(3)],
      unfold ct.sel, rule good_w1[OF refl]) (use assms in simp_all)

lemma rebalanced_W2:
  assumes "hwf st (plug C (Nd x k v w L (Nd y ky vy wy M R)))" and "ready st tid" and "C \<noteq> []"
    and "wy = 0" and "1 < wt L" and "wt M = 1"
  shows "rebalanced st C (Nd x k v w L (Nd y ky vy wy M R))
    (step_on doW2 tid (map (view_of st) [fst (hole (root st) C), x, adr L, y, adr M])
       (snd (hole (root st) C)) st)"
  by (rule rebalancedI[where f = doW2, OF doW2_spec[OF assms(1,2) refl refl] _ assms(3)],
      unfold ct.sel, rule good_w2[OF refl]) (use assms in simp_all)

lemma rebalanced_W3:
  assumes "hwf st (plug C (Nd x k v w L (Nd y ky vy wy (Nd z kz vz wz (Nd q kq vq wq A B) D) R)))" and "ready st tid" and "C \<noteq> []"
    and "wy = 0" and "wz = 1" and "wq = 0" and "1 < wt L"
  shows "rebalanced st C (Nd x k v w L (Nd y ky vy wy (Nd z kz vz wz (Nd q kq vq wq A B) D) R))
    (step_on doW3 tid (map (view_of st) [fst (hole (root st) C), x, adr L, y, z, q])
       (snd (hole (root st) C)) st)"
  by (rule rebalancedI[where f = doW3, OF doW3_spec[OF assms(1,2) refl refl] _ assms(3)],
      unfold ct.sel, rule good_w3[OF refl]) (use assms in simp_all)

lemma rebalanced_W4:
  assumes "hwf st (plug C (Nd x k v w L (Nd y ky vy wy (Nd z kz vz wz A Q) R)))" and "ready st tid" and "C \<noteq> []"
    and "wy = 0" and "wz = 1" and "wt Q = 0" and "1 < wt L"
  shows "rebalanced st C (Nd x k v w L (Nd y ky vy wy (Nd z kz vz wz A Q) R))
    (step_on doW4 tid (map (view_of st) [fst (hole (root st) C), x, adr L, y, z, adr Q])
       (snd (hole (root st) C)) st)"
  by (rule rebalancedI[where f = doW4, OF doW4_spec[OF assms(1,2) refl refl] _ assms(3)],
      unfold ct.sel, rule good_w4[OF refl]) (use assms in simp_all)

lemma rebalanced_W5:
  assumes "hwf st (plug C (Nd x k v w L (Nd y ky vy wy A Q)))" and "ready st tid" and "C \<noteq> []"
    and "wy = 1" and "wt Q = 0" and "1 < wt L"
  shows "rebalanced st C (Nd x k v w L (Nd y ky vy wy A Q))
    (step_on doW5 tid (map (view_of st) [fst (hole (root st) C), x, adr L, y, adr Q])
       (snd (hole (root st) C)) st)"
  by (rule rebalancedI[where f = doW5, OF doW5_spec[OF assms(1,2) refl refl] _ assms(3)],
      unfold ct.sel, rule good_w5[OF refl]) (use assms in simp_all)

lemma rebalanced_W6:
  assumes "hwf st (plug C (Nd x k v w L (Nd y ky vy wy (Nd z kz vz wz A B) D)))" and "ready st tid" and "C \<noteq> []"
    and "wy = 1" and "wz = 0" and "1 < wt L"
  shows "rebalanced st C (Nd x k v w L (Nd y ky vy wy (Nd z kz vz wz A B) D))
    (step_on doW6 tid (map (view_of st) [fst (hole (root st) C), x, adr L, y, z])
       (snd (hole (root st) C)) st)"
  by (rule rebalancedI[where f = doW6, OF doW6_spec[OF assms(1,2) refl refl] _ assms(3)],
      unfold ct.sel, rule good_w6[OF refl]) (use assms in simp_all)

lemma rebalanced_W7:
  assumes "hwf st (plug C (Nd x k v w L R))" and "ready st tid" and "C \<noteq> []"
    and "1 < wt L" and "1 < wt R" and "IS_SENTINEL st x (fst (hole (root st) C)) \<Longrightarrow> w = 1"
  shows "rebalanced st C (Nd x k v w L R)
    (step_on doW7 tid (map (view_of st) [fst (hole (root st) C), x, adr L, adr R])
       (snd (hole (root st) C)) st)"
  by (rule rebalancedI[where f = doW7, OF doW7_spec[OF assms(1,2) refl refl] _ assms(3)],
      unfold ct.sel, rule good_w7[OF refl]) (use assms in simp_all)

lemma rebalanced_Rb1Sym:
  assumes "hwf st (plug C (Nd x k v w A (Nd y ky vy wy B D)))" and "ready st tid" and "C \<noteq> []"
    and "wy = 0"
  shows "rebalanced st C (Nd x k v w A (Nd y ky vy wy B D))
    (step_on doRb1Sym tid (map (view_of st) [fst (hole (root st) C), x, y])
       (snd (hole (root st) C)) st)"
  by (rule rebalancedI[where f = doRb1Sym, OF doRb1Sym_spec[OF assms(1,2) refl refl] _ assms(3)],
      unfold ct.sel, rule good_rb1_sym[OF refl]) (use assms in simp_all)

lemma rebalanced_Rb2Sym:
  assumes "hwf st (plug C (Nd x k v w A (Nd y ky vy wy (Nd z kz vz wz B D) E)))" and "ready st tid" and "C \<noteq> []"
    and "wy = 0" and "wz = 0"
  shows "rebalanced st C (Nd x k v w A (Nd y ky vy wy (Nd z kz vz wz B D) E))
    (step_on doRb2Sym tid (map (view_of st) [fst (hole (root st) C), x, y, z])
       (snd (hole (root st) C)) st)"
  by (rule rebalancedI[where f = doRb2Sym, OF doRb2Sym_spec[OF assms(1,2) refl refl] _ assms(3)],
      unfold ct.sel, rule good_rb2_sym[OF refl]) (use assms in simp_all)

lemma rebalanced_PushSym:
  assumes "hwf st (plug C (Nd x k v w L R))" and "ready st tid" and "C \<noteq> []"
    and "1 < wt R" and "wt L = 1" and "IS_SENTINEL st x (fst (hole (root st) C)) \<Longrightarrow> w = 1"
  shows "rebalanced st C (Nd x k v w L R)
    (step_on doPushSym tid (map (view_of st) [fst (hole (root st) C), x, adr L, adr R])
       (snd (hole (root st) C)) st)"
  by (rule rebalancedI[where f = doPushSym, OF doPushSym_spec[OF assms(1,2) refl refl] _ assms(3)],
      unfold ct.sel, rule good_push_sym[OF refl]) (use assms in simp_all)

lemma rebalanced_W1Sym:
  assumes "hwf st (plug C (Nd x k v w (Nd y ky vy wy L M) R))" and "ready st tid" and "C \<noteq> []"
    and "wy = 0" and "1 < wt R" and "1 < wt M"
  shows "rebalanced st C (Nd x k v w (Nd y ky vy wy L M) R)
    (step_on doW1Sym tid (map (view_of st) [fst (hole (root st) C), x, y, adr R, adr M])
       (snd (hole (root st) C)) st)"
  by (rule rebalancedI[where f = doW1Sym, OF doW1Sym_spec[OF assms(1,2) refl refl] _ assms(3)],
      unfold ct.sel, rule good_w1_sym[OF refl]) (use assms in simp_all)

lemma rebalanced_W2Sym:
  assumes "hwf st (plug C (Nd x k v w (Nd y ky vy wy L M) R))" and "ready st tid" and "C \<noteq> []"
    and "wy = 0" and "1 < wt R" and "wt M = 1"
  shows "rebalanced st C (Nd x k v w (Nd y ky vy wy L M) R)
    (step_on doW2Sym tid (map (view_of st) [fst (hole (root st) C), x, y, adr R, adr M])
       (snd (hole (root st) C)) st)"
  by (rule rebalancedI[where f = doW2Sym, OF doW2Sym_spec[OF assms(1,2) refl refl] _ assms(3)],
      unfold ct.sel, rule good_w2_sym[OF refl]) (use assms in simp_all)

lemma rebalanced_W3Sym:
  assumes "hwf st (plug C (Nd x k v w (Nd y ky vy wy L (Nd z kz vz wz A (Nd q kq vq wq B D))) R))" and "ready st tid" and "C \<noteq> []"
    and "wy = 0" and "wz = 1" and "wq = 0" and "1 < wt R"
  shows "rebalanced st C (Nd x k v w (Nd y ky vy wy L (Nd z kz vz wz A (Nd q kq vq wq B D))) R)
    (step_on doW3Sym tid (map (view_of st) [fst (hole (root st) C), x, y, adr R, z, q])
       (snd (hole (root st) C)) st)"
  by (rule rebalancedI[where f = doW3Sym, OF doW3Sym_spec[OF assms(1,2) refl refl] _ assms(3)],
      unfold ct.sel, rule good_w3_sym[OF refl]) (use assms in simp_all)

lemma rebalanced_W4Sym:
  assumes "hwf st (plug C (Nd x k v w (Nd y ky vy wy L (Nd z kz vz wz Q A)) R))" and "ready st tid" and "C \<noteq> []"
    and "wy = 0" and "wz = 1" and "wt Q = 0" and "1 < wt R"
  shows "rebalanced st C (Nd x k v w (Nd y ky vy wy L (Nd z kz vz wz Q A)) R)
    (step_on doW4Sym tid (map (view_of st) [fst (hole (root st) C), x, y, adr R, z, adr Q])
       (snd (hole (root st) C)) st)"
  by (rule rebalancedI[where f = doW4Sym, OF doW4Sym_spec[OF assms(1,2) refl refl] _ assms(3)],
      unfold ct.sel, rule good_w4_sym[OF refl]) (use assms in simp_all)

lemma rebalanced_W5Sym:
  assumes "hwf st (plug C (Nd x k v w (Nd y ky vy wy Q A) R))" and "ready st tid" and "C \<noteq> []"
    and "wy = 1" and "wt Q = 0" and "1 < wt R"
  shows "rebalanced st C (Nd x k v w (Nd y ky vy wy Q A) R)
    (step_on doW5Sym tid (map (view_of st) [fst (hole (root st) C), x, y, adr R, adr Q])
       (snd (hole (root st) C)) st)"
  by (rule rebalancedI[where f = doW5Sym, OF doW5Sym_spec[OF assms(1,2) refl refl] _ assms(3)],
      unfold ct.sel, rule good_w5_sym[OF refl]) (use assms in simp_all)

lemma rebalanced_W6Sym:
  assumes "hwf st (plug C (Nd x k v w (Nd y ky vy wy D (Nd z kz vz wz A B)) R))" and "ready st tid" and "C \<noteq> []"
    and "wy = 1" and "wz = 0" and "1 < wt R"
  shows "rebalanced st C (Nd x k v w (Nd y ky vy wy D (Nd z kz vz wz A B)) R)
    (step_on doW6Sym tid (map (view_of st) [fst (hole (root st) C), x, y, adr R, z])
       (snd (hole (root st) C)) st)"
  by (rule rebalancedI[where f = doW6Sym, OF doW6Sym_spec[OF assms(1,2) refl refl] _ assms(3)],
      unfold ct.sel, rule good_w6_sym[OF refl]) (use assms in simp_all)

lemma rebalanced_W7Sym:
  assumes "hwf st (plug C (Nd x k v w L R))" and "ready st tid" and "C \<noteq> []"
    and "1 < wt L" and "1 < wt R" and "IS_SENTINEL st x (fst (hole (root st) C)) \<Longrightarrow> w = 1"
  shows "rebalanced st C (Nd x k v w L R)
    (step_on doW7Sym tid (map (view_of st) [fst (hole (root st) C), x, adr L, adr R])
       (snd (hole (root st) C)) st)"
  by (rule rebalancedI[where f = doW7Sym, OF doW7Sym_spec[OF assms(1,2) refl refl] _ assms(3)],
      unfold ct.sel, rule good_w7_sym[OF refl]) (use assms in simp_all)

section \<open>The choice of the step\<close>

text \<open>
  The situation in which a step is chosen: \<open>S1\<close> is the subtree at \<open>uXX\<close>, the frame \<open>f\<close> is the node
  \<open>uX\<close>, and \<open>C\<close> is the rest of the tree above it.
\<close>

definition around :: "('k, 'v) Chromatic \<Rightarrow> nat \<Rightarrow> ('k, 'v) ctx \<Rightarrow> ('k, 'v) frame \<Rightarrow> ('k, 'v) ct \<Rightarrow> bool" where
  "around st tid C f S1 \<longleftrightarrow> hwf st (plug C (fill f S1)) \<and> ready st tid \<and> (\<exists>n. pathw S1 n) \<and>
     (wt S1 = 0 \<longrightarrow> 0 < fwt f \<and> C \<noteq> []) \<and> (IS_SENTINEL st (adr S1) (fadr f) \<longrightarrow> wt S1 = 1) \<and>
     (IS_SENTINEL st (fadr f) (fst (hole (root st) C)) \<longrightarrow> fwt f = 1)"

lemma aroundD:
  assumes "around st tid C f S1"
  shows "hwf st (plug C (fill f S1))" "hwf st (plug (f # C) S1)" "ready st tid" "\<exists>n. pathw S1 n"
    "wt S1 = 0 \<Longrightarrow> 0 < fwt f \<and> C \<noteq> []" "IS_SENTINEL st (adr S1) (fadr f) \<Longrightarrow> wt S1 = 1"
    "IS_SENTINEL st (fadr f) (fst (hole (root st) C)) \<Longrightarrow> fwt f = 1"
  using assms unfolding around_def by auto

lemma around_reads:
  assumes "around st tid C f S1"
  shows "fadr f = nleft st (fst (hole (root st) C)) \<longleftrightarrow> snd (hole (root st) C)"
    "adr S1 = nleft st (fadr f) \<longleftrightarrow> is_FL f"
    "is_FL f \<Longrightarrow> nright st (fadr f) = adr (fsib f)" "\<not> is_FL f \<Longrightarrow> nleft st (fadr f) = adr (fsib f)"
    "live_node st (adr (fsib f))" "nweight st (adr (fsib f)) = wt (fsib f)"
    "tree_at (nodeH st) S1" "a \<in> set (addrs S1) \<Longrightarrow> live_node st a"
proof -
  note h = aroundD[OF assms]
  have t: "tree_at (nodeH st) (fill f S1)" using hwfD(2)[OF h(1)] by (simp add: tree_at_plug)
  show "fadr f = nleft st (fst (hole (root st) C)) \<longleftrightarrow> snd (hole (root st) C)"
    using hole_flag(1)[OF h(1)] by simp
  show "adr S1 = nleft st (fadr f) \<longleftrightarrow> is_FL f" using hole_flag(1)[OF h(2)] by simp
  show "is_FL f \<Longrightarrow> nright st (fadr f) = adr (fsib f)" "\<not> is_FL f \<Longrightarrow> nleft st (fadr f) = adr (fsib f)"
    "nweight st (adr (fsib f)) = wt (fsib f)"
    using t by (cases f; simp add: tree_at_facts)+
  show "live_node st (adr (fsib f))"
    by (rule live_nodes(1)[OF h(1)]) (simp add: set_addrs_fill)
  show "tree_at (nodeH st) S1" using t by (simp add: tree_at_fill)
  show "a \<in> set (addrs S1) \<Longrightarrow> live_node st a" by (rule live_nodes(1)[OF h(2)])
qed

lemma around_sib: "around st tid C f S1 \<Longrightarrow> \<not> is_FL f \<Longrightarrow> adr S1 \<noteq> adr (fsib f)"
  using around_reads(2,4) by metis

lemma red_parent_steps:
  assumes a: "around st tid C f S1" and S1: "S1 = Nd xx k v 0 L R" and f: "is_FL f"
  shows "wt (fsib f) = 0 \<Longrightarrow> rebalanced st (f # C) S1
      (step_on doBlk tid (map (view_of st) [fst (hole (root st) C), fadr f, xx, adr (fsib f)])
        (snd (hole (root st) C)) st)"
    "rebalanced st (f # C) S1
      (step_on doRb1 tid (map (view_of st) [fst (hole (root st) C), fadr f, xx]) (snd (hole (root st) C)) st)"
    "R = Nd y ky vy 0 A B \<Longrightarrow> rebalanced st (f # C) S1
      (step_on doRb2 tid (map (view_of st) [fst (hole (root st) C), fadr f, xx, y]) (snd (hole (root st) C)) st)"
proof -
  note h = aroundD[OF a]
  obtain x2 k2 v2 w2 U where fl: "f = FL x2 k2 v2 w2 U" using f by (cases f) auto
  show "wt (fsib f) = 0 \<Longrightarrow> rebalanced st (f # C) S1
      (step_on doBlk tid (map (view_of st) [fst (hole (root st) C), fadr f, xx, adr (fsib f)])
        (snd (hole (root st) C)) st)"
    by (rule rebalanced_fill) (use rebalanced_Blk[of st C x2 k2 v2 w2 S1 U tid] h S1 fl in simp)
  show "rebalanced st (f # C) S1
      (step_on doRb1 tid (map (view_of st) [fst (hole (root st) C), fadr f, xx]) (snd (hole (root st) C)) st)"
    by (rule rebalanced_fill) (use rebalanced_Rb1[of st C x2 k2 v2 w2 xx k v 0 L R U tid] h S1 fl in simp)
  show "R = Nd y ky vy 0 A B \<Longrightarrow> rebalanced st (f # C) S1
      (step_on doRb2 tid (map (view_of st) [fst (hole (root st) C), fadr f, xx, y]) (snd (hole (root st) C)) st)"
    by (rule rebalanced_fill) (use rebalanced_Rb2[of st C x2 k2 v2 w2 xx k v 0 L y ky vy 0 A B U tid] h S1 fl in simp)
qed

lemma red_parent_steps_sym:
  assumes a: "around st tid C f S1" and S1: "S1 = Nd xx k v 0 L R" and f: "\<not> is_FL f"
  shows "wt (fsib f) = 0 \<Longrightarrow> rebalanced st (f # C) S1
      (step_on doBlk tid (map (view_of st) [fst (hole (root st) C), fadr f, adr (fsib f), xx])
        (snd (hole (root st) C)) st)"
    "rebalanced st (f # C) S1
      (step_on doRb1Sym tid (map (view_of st) [fst (hole (root st) C), fadr f, xx]) (snd (hole (root st) C)) st)"
    "L = Nd y ky vy 0 A B \<Longrightarrow> rebalanced st (f # C) S1
      (step_on doRb2Sym tid (map (view_of st) [fst (hole (root st) C), fadr f, xx, y]) (snd (hole (root st) C)) st)"
proof -
  note h = aroundD[OF a]
  obtain x2 k2 v2 w2 U where fl: "f = FR x2 k2 v2 w2 U" using f by (cases f) auto
  show "wt (fsib f) = 0 \<Longrightarrow> rebalanced st (f # C) S1
      (step_on doBlk tid (map (view_of st) [fst (hole (root st) C), fadr f, adr (fsib f), xx])
        (snd (hole (root st) C)) st)"
    by (rule rebalanced_fill) (use rebalanced_Blk[of st C x2 k2 v2 w2 U S1 tid] h S1 fl in simp)
  show "rebalanced st (f # C) S1
      (step_on doRb1Sym tid (map (view_of st) [fst (hole (root st) C), fadr f, xx]) (snd (hole (root st) C)) st)"
    by (rule rebalanced_fill) (use rebalanced_Rb1Sym[of st C x2 k2 v2 w2 U xx k v 0 L R tid] h S1 fl in simp)
  show "L = Nd y ky vy 0 A B \<Longrightarrow> rebalanced st (f # C) S1
      (step_on doRb2Sym tid (map (view_of st) [fst (hole (root st) C), fadr f, xx, y]) (snd (hole (root st) C)) st)"
    by (rule rebalanced_fill) (use rebalanced_Rb2Sym[of st C x2 k2 v2 w2 U xx k v 0 y ky vy 0 A B R tid] h S1 fl in simp)
qed

lemma around_children:
  assumes a: "around st tid C f S1" and S1: "S1 = Nd xx k v w L R"
  shows "\<exists>n. pathw L n \<and> pathw R n" "0 \<le> w" "tree_at (nodeH st) L" "tree_at (nodeH st) R"
    "nweight st xx = w" "nleft st xx = adr L" "nright st xx = adr R"
    "hwf st (plug (f # C) (Nd xx k v w L R))"
    "fadr f = nleft st (fst (hole (root st) C)) \<longleftrightarrow> snd (hole (root st) C)"
    "xx = nleft st (fadr f) \<longleftrightarrow> is_FL f"
    "\<And>b g. b \<in> set (addrs (Nd xx k v w L R)) \<Longrightarrow> PROTECT_LLX_then b g st = g (view_of st b) st"
    "\<And>g. PROTECT_LLX_then (adr (fsib f)) g st = g (view_of st (adr (fsib f))) st"
  using aroundD[OF a] around_reads[OF a] LLX_then_live(2) unfolding S1 by auto

lemma left_overweight_red_parent:
  assumes a: "around st tid C f S1" and S1: "S1 = Nd xx k v w L R" and "1 < wt L"
    and "wt R = 0" and "w = 0"
  shows "rebalanced st (f # C) S1
    (rebalanceLeftOverweight tid (view_of st (fst (hole (root st) C))) (view_of st (fadr f))
      (view_of st xx) (view_of st (adr L)) (view_of st (adr R)) st)"
proof -
  note r = around_children[OF a S1] and r' = around_reads[OF a]
  obtain y ky vy A B where R: "R = Nd y ky vy 0 A B"
    using r(1) pathw_red_internal[of R] assms(4) by metis
  have rd: "nweight st y = 0" using r(4) by (simp add: R)
  have S1': "S1 = Nd xx k v 0 L R" using S1 assms(5) by simp
  note ev = rebalanceLeftOverweight_def r(5,9-12) r'(6) rd Let_def
  show ?thesis
  proof (cases "is_FL f")
    case True
    then show ?thesis
      using red_parent_steps[OF a S1' True] r'(3)[OF True] assms(5) by (simp add: ev R)
  next
    case False
    then show ?thesis
      using red_parent_steps_sym[OF a S1' False] r'(4)[OF False] around_sib[OF a False] assms(5)
      by (simp add: ev R S1)
  qed
qed

lemma left_overweight_red_sibling:
  assumes a: "around st tid C f S1" and S1: "S1 = Nd xx k v w L R" and L: "1 < wt L"
    and "wt R = 0" and "0 < w"
  shows "rebalanced st (f # C) S1
    (rebalanceLeftOverweight tid (view_of st (fst (hole (root st) C))) (view_of st (fadr f))
      (view_of st xx) (view_of st (adr L)) (view_of st (adr R)) st)"
proof -
  note r = around_children[OF a S1]
  obtain n where pw: "pathw L n" "pathw R n" using r(1) by blast
  have big: "1 < n" using L pathw_wt[OF pw(1)] by simp
  obtain y ky vy M D where R: "R = Nd y ky vy 0 M D" using pathw_red_internal[OF pw(2) assms(4)] by metis
  have pM: "pathw M n" using pw(2) by (simp add: R)
  have rd: "nweight st y = 0" "nleft st y = adr M" "nweight st (adr M) = wt M"
    using r(4) by (simp_all add: R tree_at_facts)
  note W = r(8)[unfolded R] aroundD(3)[OF a] list.distinct(2)[of f C]
  note ev = rebalanceLeftOverweight_def r(5,6,9-11) Let_def R S1
  consider "1 < wt M" | "wt M = 0" | "wt M = 1" using pathw_wt[OF pM] by linarith
  then show ?thesis
  proof cases
    case 1
    then show ?thesis using rebalanced_W1[OF W] assms(5) L by (simp add: ev rd)
  next
    case 2
    then obtain z kz vz A B where M: "M = Nd z kz vz 0 A B" using pathw_red_internal[OF pM] by metis
    show ?thesis using rebalanced_Rb2Sym[OF W[unfolded M]] assms(5) rd by (simp add: ev M)
  next
    case 3
    then obtain z kz vz P Q where M: "M = Nd z kz vz 1 P Q"
      using pathw_light_internal[OF pM] big by metis
    have P: "pathw P (n - 1)" using pM by (simp add: M)
    have tM: "nleft st z = adr P" "nright st z = adr Q" "nweight st (adr P) = wt P"
      "nweight st (adr Q) = wt Q" "adr P \<noteq> NULL" "adr Q \<noteq> NULL"
      using r(4) tree_at_adr by (auto simp: R M tree_at_facts)
    consider "wt Q = 0" | "wt Q \<noteq> 0" "wt P = 0" | "wt Q \<noteq> 0" "wt P \<noteq> 0" by blast
    then show ?thesis
    proof cases
      case 1
      then show ?thesis
        using rebalanced_W4[OF W[unfolded M]] assms(5) L rd tM by (simp add: ev M)
    next
      case 2
      then obtain q kq vq A B where P: "P = Nd q kq vq 0 A B" using pathw_red_internal[OF P] by metis
      show ?thesis
        using rebalanced_W3[OF W[unfolded M P]] 2 assms(5) L rd tM by (simp add: ev M P)
    next
      case 3
      then show ?thesis
        using rebalanced_W2[OF W] assms(5) L rd tM by (simp add: ev M)
    qed
  qed
qed

lemma left_overweight_black_sibling:
  assumes a: "around st tid C f S1" and S1: "S1 = Nd xx k v w L R" and L: "1 < wt L"
    and one: "wt R = 1"
  shows "rebalanced st (f # C) S1
    (rebalanceLeftOverweight tid (view_of st (fst (hole (root st) C))) (view_of st (fadr f))
      (view_of st xx) (view_of st (adr L)) (view_of st (adr R)) st)"
proof -
  note r = around_children[OF a S1]
  obtain n where pw: "pathw L n" "pathw R n" using r(1) by blast
  have big: "1 < n" using L pathw_wt[OF pw(1)] by simp
  obtain y ky vy P Q where R: "R = Nd y ky vy 1 P Q" using pathw_light_internal[OF pw(2)] one big by metis
  have P: "pathw P (n - 1)" using pw(2) by (simp add: R)
  have rd: "nweight st y = 1" "nleft st y = adr P" "nright st y = adr Q"
    "nweight st (adr P) = wt P" "nweight st (adr Q) = wt Q" "adr P \<noteq> NULL"
    using r(4) tree_at_adr by (auto simp: R tree_at_facts)
  note W = r(8) aroundD(3)[OF a] list.distinct(2)[of f C]
  note ev = rebalanceLeftOverweight_def r(5,9-11) Let_def R S1
  consider "wt Q = 0" | "wt Q \<noteq> 0" "wt P = 0" | "wt Q \<noteq> 0" "wt P \<noteq> 0" by blast
  then show ?thesis
  proof cases
    case 1
    then show ?thesis using rebalanced_W5[OF W[unfolded R]] L rd by (simp add: ev)
  next
    case 2
    then obtain z kz vz A B where P: "P = Nd z kz vz 0 A B" using pathw_red_internal[OF P] by metis
    show ?thesis using rebalanced_W6[OF W[unfolded R P]] 2 L rd by (simp add: ev P)
  next
    case 3
    then show ?thesis
      using rebalanced_Push[OF W] L one rd aroundD(6)[OF a] by (simp add: ev)
  qed
qed

lemma left_overweight:
  assumes a: "around st tid C f S1" and S1: "S1 = Nd xx k v w L R" and L: "1 < wt L"
  shows "rebalanced st (f # C) S1
    (rebalanceLeftOverweight tid (view_of st (fst (hole (root st) C))) (view_of st (fadr f))
      (view_of st xx) (view_of st (adr L)) (view_of st (adr R)) st)"
proof -
  note r = around_children[OF a S1] and three = a S1 L
  obtain n where "pathw R n" using r(1) by blast
  then consider "wt R = 0" "w = 0" | "wt R = 0" "0 < w" | "wt R = 1" | "1 < wt R"
    using pathw_wt[of R n] r(2) by linarith
  then show ?thesis
  proof cases
    case 1 then show ?thesis by (rule left_overweight_red_parent[OF three])
  next
    case 2 then show ?thesis by (rule left_overweight_red_sibling[OF three])
  next
    case 3 then show ?thesis by (rule left_overweight_black_sibling[OF three])
  next
    case 4
    moreover have "nweight st (adr R) = wt R" using r(3,4) by (simp add: tree_at_facts)
    ultimately show ?thesis
      using rebalanced_W7[OF r(8) aroundD(3)[OF a] list.distinct(2)] L aroundD(6)[OF a]
      by (simp add: rebalanceLeftOverweight_def r(5,9-11) Let_def S1)
  qed
qed

lemma right_overweight_red_parent:
  assumes a: "around st tid C f S1" and S1: "S1 = Nd xx k v w L R" and "1 < wt R"
    and "wt L = 0" and "w = 0"
  shows "rebalanced st (f # C) S1
    (rebalanceRightOverweight tid (view_of st (fst (hole (root st) C))) (view_of st (fadr f))
      (view_of st xx) (view_of st (adr L)) (view_of st (adr R)) st)"
proof -
  note r = around_children[OF a S1] and r' = around_reads[OF a]
  obtain y ky vy A B where L: "L = Nd y ky vy 0 A B"
    using r(1) pathw_red_internal[of L] assms(4) by metis
  have rd: "nweight st y = 0" using r(3) by (simp add: L)
  have S1': "S1 = Nd xx k v 0 L R" using S1 assms(5) by simp
  note ev = rebalanceRightOverweight_def r(5,9-12) r'(6) rd Let_def
  show ?thesis
  proof (cases "is_FL f")
    case True
    then show ?thesis
      using red_parent_steps[OF a S1' True] r'(3)[OF True] assms(5) by (simp add: ev L)
  next
    case False
    then show ?thesis
      using red_parent_steps_sym[OF a S1' False] r'(4)[OF False] around_sib[OF a False] assms(5)
      by (simp add: ev L S1)
  qed
qed

lemma right_overweight_red_sibling:
  assumes a: "around st tid C f S1" and S1: "S1 = Nd xx k v w L R" and R: "1 < wt R"
    and "wt L = 0" and "0 < w"
  shows "rebalanced st (f # C) S1
    (rebalanceRightOverweight tid (view_of st (fst (hole (root st) C))) (view_of st (fadr f))
      (view_of st xx) (view_of st (adr L)) (view_of st (adr R)) st)"
proof -
  note r = around_children[OF a S1]
  obtain n where pw: "pathw R n" "pathw L n" using r(1) by blast
  have big: "1 < n" using R pathw_wt[OF pw(1)] by simp
  obtain y ky vy M D where L: "L = Nd y ky vy 0 D M" using pathw_red_internal[OF pw(2) assms(4)] by metis
  have pM: "pathw M n" using pw(2) by (simp add: L)
  have rd: "nweight st y = 0" "nright st y = adr M" "nweight st (adr M) = wt M"
    using r(3) by (simp_all add: L tree_at_facts)
  note W = r(8)[unfolded L] aroundD(3)[OF a] list.distinct(2)[of f C]
  note ev = rebalanceRightOverweight_def r(5,6,9-11) Let_def L S1
  consider "1 < wt M" | "wt M = 0" | "wt M = 1" using pathw_wt[OF pM] by linarith
  then show ?thesis
  proof cases
    case 1
    then show ?thesis using rebalanced_W1Sym[OF W] assms(5) R by (simp add: ev rd)
  next
    case 2
    then obtain z kz vz A B where M: "M = Nd z kz vz 0 A B" using pathw_red_internal[OF pM] by metis
    show ?thesis using rebalanced_Rb2[OF W[unfolded M]] assms(5) rd by (simp add: ev M)
  next
    case 3
    then obtain z kz vz P Q where M: "M = Nd z kz vz 1 Q P"
      using pathw_light_internal[OF pM] big by metis
    have P: "pathw P (n - 1)" using pM by (simp add: M)
    have tM: "nright st z = adr P" "nleft st z = adr Q" "nweight st (adr P) = wt P"
      "nweight st (adr Q) = wt Q" "adr P \<noteq> NULL" "adr Q \<noteq> NULL"
      using r(3) tree_at_adr by (auto simp: L M tree_at_facts)
    consider "wt Q = 0" | "wt Q \<noteq> 0" "wt P = 0" | "wt Q \<noteq> 0" "wt P \<noteq> 0" by blast
    then show ?thesis
    proof cases
      case 1
      then show ?thesis
        using rebalanced_W4Sym[OF W[unfolded M]] assms(5) R rd tM by (simp add: ev M)
    next
      case 2
      then obtain q kq vq A B where P: "P = Nd q kq vq 0 A B" using pathw_red_internal[OF P] by metis
      show ?thesis
        using rebalanced_W3Sym[OF W[unfolded M P]] 2 assms(5) R rd tM by (simp add: ev M P)
    next
      case 3
      then show ?thesis
        using rebalanced_W2Sym[OF W] assms(5) R rd tM by (simp add: ev M)
    qed
  qed
qed

lemma right_overweight_black_sibling:
  assumes a: "around st tid C f S1" and S1: "S1 = Nd xx k v w L R" and R: "1 < wt R"
    and one: "wt L = 1"
  shows "rebalanced st (f # C) S1
    (rebalanceRightOverweight tid (view_of st (fst (hole (root st) C))) (view_of st (fadr f))
      (view_of st xx) (view_of st (adr L)) (view_of st (adr R)) st)"
proof -
  note r = around_children[OF a S1]
  obtain n where pw: "pathw R n" "pathw L n" using r(1) by blast
  have big: "1 < n" using R pathw_wt[OF pw(1)] by simp
  obtain y ky vy P Q where L: "L = Nd y ky vy 1 Q P" using pathw_light_internal[OF pw(2)] one big by metis
  have P: "pathw P (n - 1)" using pw(2) by (simp add: L)
  have rd: "nweight st y = 1" "nright st y = adr P" "nleft st y = adr Q"
    "nweight st (adr P) = wt P" "nweight st (adr Q) = wt Q" "adr P \<noteq> NULL"
    using r(3) tree_at_adr by (auto simp: L tree_at_facts)
  note W = r(8) aroundD(3)[OF a] list.distinct(2)[of f C]
  note ev = rebalanceRightOverweight_def r(5,9-11) Let_def L S1
  consider "wt Q = 0" | "wt Q \<noteq> 0" "wt P = 0" | "wt Q \<noteq> 0" "wt P \<noteq> 0" by blast
  then show ?thesis
  proof cases
    case 1
    then show ?thesis using rebalanced_W5Sym[OF W[unfolded L]] R rd by (simp add: ev)
  next
    case 2
    then obtain z kz vz A B where P: "P = Nd z kz vz 0 A B" using pathw_red_internal[OF P] by metis
    show ?thesis using rebalanced_W6Sym[OF W[unfolded L P]] 2 R rd by (simp add: ev P)
  next
    case 3
    then show ?thesis
      using rebalanced_PushSym[OF W] R one rd aroundD(6)[OF a] by (simp add: ev)
  qed
qed

lemma right_overweight:
  assumes a: "around st tid C f S1" and S1: "S1 = Nd xx k v w L R" and R: "1 < wt R"
  shows "rebalanced st (f # C) S1
    (rebalanceRightOverweight tid (view_of st (fst (hole (root st) C))) (view_of st (fadr f))
      (view_of st xx) (view_of st (adr L)) (view_of st (adr R)) st)"
proof -
  note r = around_children[OF a S1] and three = a S1 R
  obtain n where "pathw L n" using r(1) by blast
  then consider "wt L = 0" "w = 0" | "wt L = 0" "0 < w" | "wt L = 1" | "1 < wt L"
    using pathw_wt[of L n] r(2) by linarith
  then show ?thesis
  proof cases
    case 1 then show ?thesis by (rule right_overweight_red_parent[OF three])
  next
    case 2 then show ?thesis by (rule right_overweight_red_sibling[OF three])
  next
    case 3 then show ?thesis by (rule right_overweight_black_sibling[OF three])
  next
    case 4
    moreover have "nweight st (adr L) = wt L" using r(3,4) by (simp add: tree_at_facts)
    ultimately show ?thesis
      using rebalanced_W7Sym[OF r(8) aroundD(3)[OF a] list.distinct(2)] R aroundD(6)[OF a]
      by (simp add: rebalanceRightOverweight_def r(5,9-11) Let_def S1)
  qed
qed

lemma red_red:
  assumes a: "around st tid C f S1" and S1: "S1 = Nd xx k v 0 L R"
    and viol: "wt (if l then L else R) = 0"
  shows "rebalanced st (f # C) S1
    (rebalanceRedRed tid (view_of st (fst (hole (root st) C))) (view_of st (fadr f))
      (view_of st xx) l st)"
proof -
  note r = around_children[OF a S1] and r' = around_reads[OF a]
  obtain n where pw: "pathw L n" "pathw R n" using r(1) by blast
  note ev = rebalanceRedRed_def r(5-7,9-12) r'(6) Let_def
  show ?thesis
  proof (cases "is_FL f")
    case True
    show ?thesis
    proof (cases l)
      case l: True
      then show ?thesis
        using red_parent_steps[OF a S1 True] r'(3)[OF True] True by (simp add: ev)
    next
      case False
      then have "wt R = 0" using viol by simp
      then obtain y ky vy A B where "R = Nd y ky vy 0 A B"
        using pathw_red_internal[OF pw(2)] by metis
      then show ?thesis
        using red_parent_steps[OF a S1 True] r'(3)[OF True] True False by (simp add: ev)
    qed
  next
    case False
    note sib = around_sib[OF a False]
    show ?thesis
    proof (cases l)
      case True
      then have "wt L = 0" using viol by simp
      then obtain y ky vy A B where "L = Nd y ky vy 0 A B"
        using pathw_red_internal[OF pw(1)] by metis
      then show ?thesis
        using red_parent_steps_sym[OF a S1 False] r'(4)[OF False] False True sib by (simp add: ev S1)
    next
      case l: False
      then show ?thesis
        using red_parent_steps_sym[OF a S1 False] r'(4)[OF False] False sib by (simp add: ev S1)
    qed
  qed
qed

section \<open>Chromatic trees with sentinels\<close>

text \<open>
  Below the root, the tree is a single sentinel leaf, or a sentinel node with a sentinel leaf on
  the right and the tree of the real keys on the left.
\<close>

definition chrom_inner :: "'k::linorder \<Rightarrow> ('k, 'v) ct \<Rightarrow> bool" where
  "chrom_inner nk t \<longleftrightarrow> bst t \<and> (\<exists>n. pathw t n) \<and> wt t = 1 \<and> nk \<notin> set (lkeys t) \<and> nk \<notin> ikeys t"

fun chrom :: "'k::linorder \<Rightarrow> ('k, 'v) ct \<Rightarrow> bool" where
  "chrom nk (Lf a k v w) \<longleftrightarrow> k = nk \<and> w = 1"
| "chrom nk (Nd a k v w l r) \<longleftrightarrow> k = nk \<and> w = 1 \<and> chrom_inner nk l \<and> (\<exists>b v'. r = Lf b nk v' 1)"

lemma chrom_split:
  assumes "chrom nk (plug C S)" and "C \<noteq> []" and "\<not> is_leaf S"
  obtains E a v b v' where "C = E @ [FL a nk v 1 (Lf b nk v' 1)]" "chrom_inner nk (plug E S)"
proof -
  obtain E f where C: "C = E @ [f]" using assms(2) by (metis rev_exhaust)
  have c: "chrom nk (fill f (plug E S))" using assms(1) by (simp add: C plug_append)
  show ?thesis
  proof (cases f)
    case (FL a k v w s)
    then show ?thesis using c that by (auto simp: C)
  next
    case (FR a k v w s)
    then have "is_leaf (plug E S)" using c by auto
    moreover have "is_leaf (plug E S) \<Longrightarrow> is_leaf S"
    proof (induction E arbitrary: S)
      case (Cons g E)
      then have "is_leaf (fill g S)" by simp
      then show ?case by (cases g) auto
    qed simp
    ultimately show ?thesis using assms(3) by simp
  qed
qed

lemma chrom_inner_sub:
  assumes "chrom_inner nk (plug E S)"
  shows "nk \<notin> ikeys S" "f \<in> set E \<Longrightarrow> fkey f \<noteq> nk"
proof -
  have k: "nk \<notin> ikeys (plug E S)" using assms by (simp add: chrom_inner_def)
  then show "nk \<notin> ikeys S" by (simp add: ikeys_plug)
  have "f \<in> set E \<Longrightarrow> fkey f \<in> cikeys E" by (induction E) auto
  then show "f \<in> set E \<Longrightarrow> fkey f \<noteq> nk" using k by (auto simp: ikeys_plug)
qed

lemma frame_key:
  assumes "hwf st (plug C S)" and "C \<noteq> []"
  shows "nkey st (fst (hole (root st) C)) = fkey (hd C)" "nweight st (fst (hole (root st) C)) = fwt (hd C)"
proof -
  have "ctx_at (nodeH st) C (adr S)" using hwfD(2)[OF assms(1)] by (simp add: tree_at_plug)
  with assms(2) show "nkey st (fst (hole (root st) C)) = fkey (hd C)"
    "nweight st (fst (hole (root st) C)) = fwt (hd C)"
    using ctx_at_fadr[of "nodeH st" C "adr S" "hd C"] by (cases C; auto)+
qed

text \<open>The sentinel test is true exactly at the root of the tree of the real keys.\<close>

lemma sentinel_iff:
  assumes hw: "hwf st (plug C S)" and ch: "chrom (NO_KEY st) (plug C S)" and C: "C \<noteq> []"
    and S: "\<not> is_leaf S"
  shows "IS_SENTINEL st (adr S) (fst (hole (root st) C)) \<longleftrightarrow> length C = 1"
proof -
  obtain E a v b v' where E: "C = E @ [FL a (NO_KEY st) v 1 (Lf b (NO_KEY st) v' 1)]"
      "chrom_inner (NO_KEY st) (plug E S)"
    using chrom_split[OF ch C S] by blast
  have "tree_at (nodeH st) S" using hwfD(2)[OF hw] by (simp add: tree_at_plug)
  then have "nkey st (adr S) = tkey S" by (simp add: tree_at_facts)
  moreover have "tkey S \<in> ikeys S" using S by (cases S) auto
  ultimately have "nkey st (adr S) \<noteq> NO_KEY st" using chrom_inner_sub(1)[OF E(2)] by auto
  moreover have "fkey (hd C) = NO_KEY st \<longleftrightarrow> E = []"
    using chrom_inner_sub(2)[OF E(2), of "hd E"] by (cases E) (auto simp: E(1))
  ultimately show ?thesis using frame_key[OF hw C] E(1) by (auto simp: IS_SENTINEL_def)
qed

lemma tokens_plug: "tokens S' = tokens S \<Longrightarrow> tokens (plug C S') = tokens (plug C S)"
proof (induction C arbitrary: S S')
  case (Cons f C)
  then have "tokens (fill f S') = tokens (fill f S)" by (cases f) auto
  then show ?case unfolding plug.simps by (rule Cons.IH)
qed simp

lemma wt_plug_Cons: "E \<noteq> [] \<Longrightarrow> wt (plug E S) = fwt (last E)"
proof (induction E arbitrary: S)
  case (Cons f E)
  show ?case
  proof (cases "E = []")
    case True
    then show ?thesis by (cases f) simp_all
  next
    case False
    then show ?thesis using Cons.IH[of "fill f S"] by simp
  qed
qed simp

lemma chrom_good_step:
  assumes ch: "chrom nk (plug C S)" and C: "C \<noteq> []" and S: "\<not> is_leaf S"
    and g: "good_step (length C = 1) S S'"
  shows "chrom nk (plug C S')"
proof -
  obtain E a v b v' where E: "C = E @ [FL a nk v 1 (Lf b nk v' 1)]" "chrom_inner nk (plug E S)"
    using chrom_split[OF ch C S] by blast
  have tk: "tokens (plug E S') = tokens (plug E S)"
    by (rule tokens_plug, rule conjunct1[OF g[unfolded good_step_def]])
  obtain n where n: "pathw (plug E S) n" using E(2) unfolding chrom_inner_def by blast
  have "(\<exists>n. pathw (plug E S') n) \<and> wt (plug E S') = 1"
  proof (cases "E = []")
    case True
    then have "length C = 1" "wt S = 1" "pathw S n" using E n by (simp_all add: chrom_inner_def)
    then show ?thesis using g True unfolding good_step_def by auto
  next
    case False
    obtain m where m: "pathw S m" "\<And>t. pathw t m \<Longrightarrow> pathw (plug E t) n"
      by (rule pathw_plug[OF n]) (rule that)
    have "length C \<noteq> 1" using E(1) False by simp
    then have "pathw S' m" using g m(1) unfolding good_step_def by blast
    then have "pathw (plug E S') n" by (rule m(2))
    moreover have "wt (plug E S') = 1"
      using wt_plug_Cons[OF False, of S'] wt_plug_Cons[OF False, of S] E(2) by (simp add: chrom_inner_def)
    ultimately show ?thesis by blast
  qed
  then have "chrom_inner nk (plug E S')"
    using E(2) unfolding chrom_inner_def tokens_same[OF tk] by blast
  then show ?thesis by (simp add: E(1) plug_append)
qed

section \<open>The search for a violation\<close>

fun parent_wt :: "('k, 'v) ctx \<Rightarrow> int" where
  "parent_wt [] = 1"
| "parent_wt (f # C) = fwt f"

fun zviol :: "'k::linorder \<Rightarrow> ('k, 'v) ctx \<Rightarrow> ('k, 'v) ct \<Rightarrow> ('k, 'v) ctx \<times> ('k, 'v) ct" where
  "zviol x C (Lf a k v w) = (C, Lf a k v w)"
| "zviol x C (Nd a k v w l r) =
    (if 1 < w \<or> w = 0 \<and> parent_wt C = 0 then (C, Nd a k v w l r)
     else if x < k then zviol x (FL a k v w r # C) l else zviol x (FR a k v w l # C) r)"

fun calm :: "('k, 'v) ctx \<Rightarrow> bool" where
  "calm [] = True"
| "calm (f # C) \<longleftrightarrow> (fwt f = 0 \<longrightarrow> parent_wt C \<noteq> 0) \<and> calm C"

lemma zviol_plug: "zviol x C t = (D, u) \<Longrightarrow> plug D u = plug C t"
  by (induction x C t rule: zviol.induct) (auto split: if_splits)

lemma zviol_calm: "zviol x C t = (D, u) \<Longrightarrow> calm C \<Longrightarrow> calm D"
  by (induction x C t rule: zviol.induct) (auto split: if_splits)

lemma zviol_stop: "zviol x C t = (D, u) \<Longrightarrow> is_leaf u \<or> 1 < wt u \<or> wt u = 0 \<and> parent_wt D = 0"
  by (induction x C t rule: zviol.induct) (auto split: if_splits)

lemma on_path_append: "on_path x (E @ F) \<longleftrightarrow> on_path x E \<and> on_path x F"
  by (induction E) auto

lemma zviol_suffix: "zviol x C t = (D, u) \<Longrightarrow> \<exists>E. D = E @ C \<and> on_path x E"
proof (induction x C t arbitrary: D u rule: zviol.induct)
  case (2 x C a k v w l r)
  show ?case
  proof (cases "1 < w \<or> w = 0 \<and> parent_wt C = 0")
    case False
    show ?thesis
    proof (cases "x < k")
      case True
      then obtain E where "D = E @ FL a k v w r # C" "on_path x E"
        using "2.IH"(1)[OF False True] "2.prems" False by auto
      then show ?thesis using True by (intro exI[of _ "E @ [FL a k v w r]"]) (simp add: on_path_append)
    next
      case nx: False
      then obtain E where "D = E @ FR a k v w l # C" "on_path x E"
        using "2.IH"(2)[OF False nx] "2.prems" False by auto
      then show ?thesis using nx by (intro exI[of _ "E @ [FR a k v w l]"]) (simp add: on_path_append)
    qed
  qed (use 2 in auto)
qed simp

lemma searchViolation_zviol:
  assumes "hwf st (plug C t)" and "C \<noteq> []" and "zviol x C t = (D, u)"
  shows "searchViolation x (fst (hole (root st) (tl (tl C)))) (fst (hole (root st) (tl C)))
      (fst (hole (root st) C)) (adr t) st =
    Some (Some (fst (hole (root st) (tl (tl D))), fst (hole (root st) (tl D)),
      fst (hole (root st) D), adr u))"
  using assms
proof (induction x C t rule: zviol.induct)
  case (1 x C a k v w)
  have "nleft st a = NULL" using hwfD(2)[OF "1.prems"(1)] by (simp add: tree_at_plug)
  then show ?case using "1.prems"(3) by (subst searchViolation.simps) auto
next
  case (2 x C a k v w l r)
  have t: "tree_at (nodeH st) (Nd a k v w l r)" using hwfD(2)[OF "2.prems"(1)] by (simp add: tree_at_plug)
  have p: "nweight st (fst (hole (root st) C)) = parent_wt C"
    using frame_key(2)[OF "2.prems"(1,2)] "2.prems"(2) by (cases C) auto
  have e: "nleft st a \<noteq> NULL" using t tree_at_adr by auto
  show ?case
  proof (cases "1 < w \<or> w = 0 \<and> parent_wt C = 0")
    case True
    then show ?thesis using "2.prems"(3) t p by (subst searchViolation.simps) auto
  next
    case False
    have hl: "hwf st (plug (FL a k v w r # C) l)" "hwf st (plug (FR a k v w l # C) r)"
      using "2.prems"(1) by simp_all
    show ?thesis
    proof (cases "x < k")
      case True
      then have "zviol x (FL a k v w r # C) l = (D, u)" using "2.prems"(3) False by simp
      note IH = "2.IH"(1)[OF False True hl(1) list.distinct(2) this]
      show ?thesis using IH True False t p e by (subst searchViolation.simps) auto
    next
      case nx: False
      then have "zviol x (FR a k v w l # C) r = (D, u)" using "2.prems"(3) False by simp
      note IH = "2.IH"(2)[OF False nx hl(2) list.distinct(2) this]
      show ?thesis using IH nx False t p e by (subst searchViolation.simps) auto
    qed
  qed
qed

section \<open>updateRebalancingStep on a chromatic tree\<close>

text \<open>
  The neighbourhood of a violation that the search has found is one to which a step applies.
\<close>

lemma fill_sel [simp]: "\<not> is_leaf (fill f t)" "wt (fill f t) = fwt f"
  by (cases f; simp)+

lemma around_violation:
  assumes hw: "hwf st (plug (f1 # f2 # C) t)" and rd: "ready st tid"
    and ch: "chrom (NO_KEY st) (plug (f1 # f2 # C) t)" and calm: "calm (f1 # f2 # C)"
  shows "around st tid C f2 (fill f1 t)"
proof -
  have nl: "\<not> is_leaf (fill f1 t)" "\<not> is_leaf (fill f2 (fill f1 t))" by simp_all
  have hw1: "hwf st (plug (f2 # C) (fill f1 t))" using hw by simp
  have hw2: "hwf st (plug C (fill f2 (fill f1 t)))" using hw by simp
  have ch1: "chrom (NO_KEY st) (plug (f2 # C) (fill f1 t))" using ch by simp
  obtain E a v b v' where E: "f2 # C = E @ [FL a (NO_KEY st) v 1 (Lf b (NO_KEY st) v' 1)]"
      "chrom_inner (NO_KEY st) (plug E (fill f1 t))"
    using chrom_split[OF ch1 _ nl(1)] by blast
  have w1: "wt (fill f1 t) = fwt f1" by simp
  have root1: "wt (plug E (fill f1 t)) = 1" using E(2) by (simp add: chrom_inner_def)
  obtain n where n: "pathw (plug E (fill f1 t)) n" using E(2) unfolding chrom_inner_def by blast
  obtain m where m: "pathw (fill f1 t) m" and nn: "\<forall>f\<in>set E. 0 \<le> fwt f"
    by (rule pathw_plug[OF n]) (rule that)
  have f2: "0 \<le> fwt f2" using nn E(1) by (cases E) auto
  have s1: "IS_SENTINEL st (adr (fill f1 t)) (fadr f2) \<longrightarrow> wt (fill f1 t) = 1"
    using sentinel_iff[OF hw1 ch1 _ nl(1)] E(1) root1 by (cases E) auto
  have s2: "IS_SENTINEL st (fadr f2) (fst (hole (root st) C)) \<longrightarrow> fwt f2 = 1"
  proof (cases "C = []")
    case True
    then show ?thesis using E(1) by (cases E) auto
  next
    case False
    then have "E \<noteq> []" using E(1) by auto
    moreover have "IS_SENTINEL st (fadr f2) (fst (hole (root st) C)) \<longleftrightarrow> length C = 1"
      using sentinel_iff[OF hw2 _ False nl(2)] ch by simp
    ultimately show ?thesis
      using E(1) root1 wt_plug_Cons[of E "fill f1 t"] by (cases E rule: rev_cases) (auto simp: Cons_eq_append_conv)
  qed
  have s3: "wt (fill f1 t) = 0 \<longrightarrow> 0 < fwt f2 \<and> C \<noteq> []"
  proof
    assume z: "wt (fill f1 t) = 0"
    then have "fwt f2 \<noteq> 0" using calm w1 by simp
    moreover have "E \<noteq> []" using z root1 by auto
    ultimately show "0 < fwt f2 \<and> C \<noteq> []" using f2 E(1) by (auto simp: Cons_eq_append_conv)
  qed
  show ?thesis unfolding around_def using hw2 rd m s1 s2 s3 by blast
qed

lemma rebalanceAt_rebalanced:
  assumes a: "around st tid C f2 (fill f1 t)"
    and viol: "1 < wt t \<or> wt t = 0 \<and> fwt f1 = 0"
  shows "rebalanced st (f1 # f2 # C) t
    (rebalanceAt tid (fst (hole (root st) C)) (fadr f2) (fadr f1) (adr t) st)"
proof -
  obtain xx k v w L R where S1: "fill f1 t = Nd xx k v w L R" by (cases f1) auto
  note hw = aroundD(1,2)[OF a] and r = around_children[OF a S1]
  have hw0: "hwf st (plug (f1 # f2 # C) t)" using hw(1) by simp
  have xx: "fadr f1 = xx" "fwt f1 = w" and t: "t = (if is_FL f1 then L else R)"
    using S1 by (cases f1; simp)+
  have LL: "LLX_then b g st = g (view_of st b) st"
    if "b \<in> {fst (hole (root st) C), fadr f2, xx}" for b g
    using that live_nodes[OF hw(1)] live_nodes[OF hw(2)] S1 by (auto intro!: LLX_then_live(1))
  have fl: "adr t = adr L \<longleftrightarrow> is_FL f1" "adr t = adr L \<or> adr t = adr R"
    using hole_flag[OF hw0] r(6,7) xx by simp_all
  have up: "fadr f2 = nleft st (fst (hole (root st) C)) \<or> fadr f2 = nright st (fst (hole (root st) C))"
    "xx = nleft st (fadr f2) \<or> xx = nright st (fadr f2)"
    using hole_flag(2)[OF hw(1)] hole_flag(2)[OF hw(2)] S1 by simp_all
  have wt: "nweight st (adr t) = wt t" using r(3,4) t by (simp add: tree_at_facts split: if_splits)
  have e: "rebalanceAt tid (fst (hole (root st) C)) (fadr f2) (fadr f1) (adr t) st =
    (if 1 < wt t
     then if is_FL f1
       then rebalanceLeftOverweight tid (view_of st (fst (hole (root st) C))) (view_of st (fadr f2))
              (view_of st xx) (view_of st (adr L)) (view_of st (adr R)) st
       else rebalanceRightOverweight tid (view_of st (fst (hole (root st) C))) (view_of st (fadr f2))
              (view_of st xx) (view_of st (adr L)) (view_of st (adr R)) st
     else rebalanceRedRed tid (view_of st (fst (hole (root st) C))) (view_of st (fadr f2))
              (view_of st xx) (is_FL f1) st)"
    using up fl by (auto simp: rebalanceAt_def LL r(6,7,11) wt xx)
  show ?thesis
  proof (rule rebalanced_fill, cases "1 < wt t")
    case True
    then show "rebalanced st (f2 # C) (fill f1 t)
        (rebalanceAt tid (fst (hole (root st) C)) (fadr f2) (fadr f1) (adr t) st)"
      using left_overweight[OF a S1] right_overweight[OF a S1] t e by (cases "is_FL f1") simp_all
  next
    case False
    then have w: "wt t = 0" "w = 0" using viol xx by auto
    show "rebalanced st (f2 # C) (fill f1 t)
        (rebalanceAt tid (fst (hole (root st) C)) (fadr f2) (fadr f1) (adr t) st)"
      using red_red[OF a S1[unfolded w], of "is_FL f1"] False w t e by simp
  qed
qed

text \<open>
  The effect of a rebalancing step on the path to \<open>x\<close>: a subtree on that path is replaced by one
  with the same sequence of keys.
\<close>

definition same_map :: "'k::linorder \<Rightarrow> ('k, 'v) Chromatic \<Rightarrow> ('k, 'v) ct \<Rightarrow> ('k, 'v) Chromatic \<Rightarrow>
    ('k, 'v) ct \<Rightarrow> bool" where
  "same_map x st T st' T' \<longleftrightarrow> st' = st \<and> T' = T \<or>
     (\<exists>C S S'. T = plug C S \<and> T' = plug C S' \<and> C \<noteq> [] \<and> on_path x (butlast C) \<and> \<not> is_leaf S \<and>
        tokens S' = tokens S \<and> rebuilt C S S' st st')"

lemma rebalanced_chrom:
  assumes ch: "chrom (NO_KEY st) (plug D t)" and hw: "hwf st (plug D t)"
    and D: "on_path x (butlast D)" and rb: "rebalanced st D t res"
  shows "\<exists>st' T'. res = (True, st') \<and> hwf st' T' \<and> chrom (NO_KEY st) T' \<and> same_map x st (plug D t) st' T'"
proof -
  obtain F C S S' where FC: "D = F @ C" "S = plug F t" and C: "C \<noteq> []" "\<not> is_leaf S"
    and st: "step_to C S S' st res"
    and g: "good_step (IS_SENTINEL st (adr S) (fst (hole (root st) C))) S S'"
    using rb unfolding rebalanced_def by blast
  have T: "plug D t = plug C S" by (simp add: FC plug_append)
  have "good_step (length C = 1) S S'"
    using g sentinel_iff[OF hw[unfolded T] ch[unfolded T] C] by simp
  then have "chrom (NO_KEY st) (plug C S')" "tokens S' = tokens S"
    using chrom_good_step[OF ch[unfolded T] C] by (simp_all add: good_step_def)
  moreover have "on_path x (butlast C)" using D C(1) by (simp add: FC butlast_append on_path_append)
  ultimately show ?thesis
    using st C unfolding step_to_def same_map_def T by (cases res) auto
qed

lemma updateRebalancingStep_spec:
  assumes hw: "hwf st T" and ch: "chrom (NO_KEY st) T" and rd: "ready st tid"
  shows "\<exists>st' T'. updateRebalancingStep tid x st = Some (True, st') \<and> hwf st' T' \<and>
    chrom (NO_KEY st) T' \<and> same_map x st T st' T'"
proof (cases T)
  case (Lf a k v w)
  have "nleft st (nleft st (root st)) = NULL" using hwfD(2,3)[OF hw] by (simp add: Lf)
  then have "updateRebalancingStep tid x st = Some (True, st)"
    by (simp add: updateRebalancingStep_def Let_def)
  then show ?thesis using hw ch unfolding same_map_def by blast
next
  case (Nd a k v w l r)
  have in': "k = NO_KEY st" "w = 1" "chrom_inner (NO_KEY st) l"
    and sent: "\<exists>b v'. r = Lf b (NO_KEY st) v' 1" using ch by (auto simp: Nd)
  let ?f = "FL a k v w r"
  obtain D u where z: "zviol x [?f] l = (D, u)" by (meson surj_pair)
  have T: "plug D u = T" using zviol_plug[OF z] by (simp add: Nd)
  obtain E where E: "D = E @ [?f]" "on_path x E" using zviol_suffix[OF z] by blast
  have t: "nleft st (root st) = a" "nleft st a = adr l" "adr l \<noteq> NULL"
    using hwfD(2,3)[OF hw] tree_at_adr[of "nodeH st" l] by (simp_all add: Nd)
  have hwz: "hwf st (plug [?f] l)" using hw by (simp add: Nd)
  have se: "searchViolation x (root st) (root st) a (adr l) st =
    Some (Some (fst (hole (root st) (tl (tl D))), fst (hole (root st) (tl D)), fst (hole (root st) D), adr u))"
    using searchViolation_zviol[OF hwz _ z] by simp
  have wu: "nweight st (adr u) = wt u"
    using hwfD(2)[OF hw] T[symmetric] by (simp add: tree_at_plug tree_at_facts)
  have e: "updateRebalancingStep tid x st =
    (if wt u = 1 then Some (True, st)
     else Some (rebalanceAt tid (fst (hole (root st) (tl (tl D)))) (fst (hole (root st) (tl D)))
       (fst (hole (root st) D)) (adr u) st))"
    using t se wu by (simp add: updateRebalancingStep_def Let_def)
  show ?thesis
  proof (cases "wt u = 1")
    case True
    then show ?thesis using e hw ch unfolding same_map_def by auto
  next
    case False
    obtain n where "pathw l n" using in'(3) unfolding chrom_inner_def by blast
    then have "pathw (plug E u) n" using T E by (simp add: Nd plug_append)
    then obtain m where m: "pathw u m" by (rule pathw_plug)
    have "E \<noteq> []" using False T E in'(3) by (auto simp: Nd chrom_inner_def)
    then obtain f1 f2 C where D: "D = f1 # f2 # C" using E by (cases E; cases "tl E") auto
    have viol: "1 < wt u \<or> wt u = 0 \<and> fwt f1 = 0"
      using zviol_stop[OF z] False m D by (cases u) auto
    have "calm D" using zviol_calm[OF z] by simp
    then have ar: "around st tid C f2 (fill f1 u)"
      using around_violation[of st f1 f2 C u tid] hw ch rd T D by auto
    have rb: "rebalanced st D u (rebalanceAt tid (fst (hole (root st) C)) (fadr f2) (fadr f1) (adr u) st)"
      using rebalanceAt_rebalanced[OF ar viol] D by simp
    have "on_path x (butlast D)" using E by simp
    from rebalanced_chrom[OF _ _ this rb] show ?thesis using e False D T ch hw by auto
  qed
qed

lemma fixAllToKey_spec:
  assumes "hwf st T" and "chrom (NO_KEY st) T" and "ready st tid"
  shows "\<exists>st' T'. fixAllToKey tid x st = Some st' \<and> hwf st' T' \<and>
    chrom (NO_KEY st) T' \<and> same_map x st T st' T'"
  using updateRebalancingStep_spec[OF assms, of x] by (subst fixAllToKey.simps) auto

end
