(* ===== verification/Chromatic_Update.thy ===== *)
theory Chromatic_Update
  imports Chromatic_Rebalance
begin

text \<open>
  \<open>updateInsert\<close> and \<open>updateErase\<close> of \<open>chromatic_impl.h\<close> (the search with its stack and its count
  of violations, the LLXs, the new nodes and versions, the SCX) and the retry loops around them in
  \<open>insert\<close>, \<open>insertIfAbsent\<close> and \<open>erase\<close>; on a chromatic tree one attempt is enough, and it changes
  the map as the operation promises.
\<close>

section \<open>Output parameters\<close>

text \<open>
  The pointers \<open>result\<close>, \<open>shouldRebalance\<close> and \<open>stack\<close> that the update functions write through.
  Some paths leave \<open>result\<close> or \<open>shouldRebalance\<close> as they were.  The top of the stack is the head of
  the list.
\<close>

record 'v update_out =
  result :: 'v
  shouldRebalance :: bool
  node_stack :: "addr list"

section \<open>updateInsert\<close>

text \<open>
  The traversal loop.  The result is \<open>p\<close>, \<open>l\<close>, the number of violations seen and the stack, or on
  the left only the stack, when \<open>protect\<close> fails and the caller retries.
\<close>

definition violation_at :: "('k, 'v) Chromatic \<Rightarrow> addr \<Rightarrow> addr \<Rightarrow> bool" where
  "violation_at st p l \<longleftrightarrow> nweight st l > 1 \<or> nweight st l = 0 \<and> nweight st p = 0"

partial_function (option) searchInsert ::
    "'k::linorder \<Rightarrow> addr \<Rightarrow> addr \<Rightarrow> int \<Rightarrow> addr list \<Rightarrow> ('k, 'v) Chromatic \<Rightarrow>
     (addr list + addr \<times> addr \<times> int \<times> addr list) option" where
  "searchInsert x p l cnt stack st =
    (if nleft st l \<noteq> NULL
     then if x < nkey st l
       then if IF_FAIL_TO_PROTECT_NODE st (nleft st l) then Some (Inl (p # stack))
            else searchInsert x l (nleft st l) (if violation_at st p l then cnt + 1 else cnt)
                   (p # stack) st
       else if IF_FAIL_TO_PROTECT_NODE st (nright st l) then Some (Inl (p # stack))
            else searchInsert x l (nright st l) (if violation_at st p l then cnt + 1 else cnt)
                   (p # stack) st
     else Some (Inr (p, l, cnt, stack)))"

text \<open>The branch that finds the key in the tree and replaces its leaf.\<close>

definition insertReplace ::
    "nat \<Rightarrow> 'k \<Rightarrow> 'v \<Rightarrow> addr \<Rightarrow> addr \<Rightarrow> 'v update_out \<Rightarrow> ('k, 'v) Chromatic \<Rightarrow>
     bool \<times> 'v update_out \<times> ('k, 'v) Chromatic" where
  "insertReplace tid x v p l out st =
    (case llx p st of ((i, pleft, pright), st) \<Rightarrow>
       if i = NULL then (False, out, st)
       else if l \<noteq> pleft \<and> l \<noteq> pright then (False, out, st)
       else let out = out\<lparr>result := nval st l\<rparr>;
                ver = allocatedVersions st tid 0;
                new = allocatedNodes st tid 0;
                st = initializeVersion ver x 1 NULL NULL st;
                st = initializeNodeWithVersion new x v (nweight st l) NULL NULL ver st;
                st = REPLACE_ALLOCATED_VERSION tid 0 st;
                (ok, st) = scx tid TYPE_REPLACE [p, l] [i] (p, l = pleft) new st
            in (ok, out, st))"

text \<open>The branch that replaces the leaf \<open>l\<close> by an internal node over the new leaf and a copy of \<open>l\<close>.\<close>

definition insertNew ::
    "nat \<Rightarrow> 'k::linorder \<Rightarrow> 'v \<Rightarrow> addr \<Rightarrow> addr \<Rightarrow> int \<Rightarrow> 'v update_out \<Rightarrow>
     ('k, 'v) Chromatic \<Rightarrow> bool \<times> 'v update_out \<times> ('k, 'v) Chromatic" where
  "insertNew tid x v p l cnt out st =
    (case llx p st of ((i, pleft, pright), st) \<Rightarrow>
       if i = NULL then (False, out, st)
       else if l \<noteq> pleft \<and> l \<noteq> pright then (False, out, st)
       else let newWeight = (if IS_SENTINEL st l p then 1 else nweight st l - 1);
                ver0 = allocatedVersions st tid 0; ver1 = allocatedVersions st tid 1;
                ver2 = allocatedVersions st tid 2;
                newLeaf = allocatedNodes st tid 0; newCopyOfL = allocatedNodes st tid 1;
                newInternal = allocatedNodes st tid 2;
                lkey = nkey st l; lval = nval st l; nk = NO_KEY st;
                st = initializeVersion ver0 x 1 NULL NULL st;
                st = initializeNodeWithVersion newLeaf x v 1 NULL NULL ver0 st;
                st = initializeVersion ver1 lkey (if lkey = nk then 0 else 1) NULL NULL st;
                st = initializeNodeWithVersion newCopyOfL lkey lval 1 NULL NULL ver1 st;
                st = (if lkey = nk \<or> x < lkey
                      then initializeNodeWithVersion newInternal lkey lval newWeight newLeaf newCopyOfL ver2
                             (initializeVersion ver2 lkey (if lkey = nk then 1 else 2) ver0 ver1 st)
                      else initializeNodeWithVersion newInternal x v newWeight newCopyOfL newLeaf ver2
                             (initializeVersion ver2 x (if lkey = nk then 1 else 2) ver1 ver0 st));
                st = REPLACE_ALLOCATED_VERSION tid 0 st;
                st = REPLACE_ALLOCATED_VERSION tid 1 st;
                st = REPLACE_ALLOCATED_VERSION tid 2 st;
                out = out\<lparr>result := NO_VALUE st, shouldRebalance := cnt > allowedViolations st\<rparr>;
                (ok, st) = scx tid TYPE_INS [p, l] [i] (p, l = pleft) newInternal st
            in (ok, out, st))"

definition updateInsert ::
    "nat \<Rightarrow> 'k::linorder \<Rightarrow> 'v \<Rightarrow> bool \<Rightarrow> 'v update_out \<Rightarrow> ('k, 'v) Chromatic \<Rightarrow>
     (bool \<times> 'v update_out \<times> ('k, 'v) Chromatic) option" where
  "updateInsert tid x v onlyIfAbsent out st =
    (let stack = root st # node_stack out; l = nleft st (root st) in
     if IF_FAIL_TO_PROTECT_NODE st l then Some (False, out\<lparr>node_stack := stack\<rparr>, st)
     else do {
       found \<leftarrow> (if nleft st l \<noteq> NULL
         then if IF_FAIL_TO_PROTECT_NODE st (nleft st l) then Some (Inl stack)
              else searchInsert x l (nleft st l) 0 stack st
         else Some (Inr (root st, l, 0, stack)));
       case found of
         Inl stack \<Rightarrow> Some (False, out\<lparr>node_stack := stack\<rparr>, st)
       | Inr (p, l, cnt, stack) \<Rightarrow>
           let out = out\<lparr>node_stack := stack\<rparr> in
           if x = nkey st l
           then if onlyIfAbsent then Some (True, out\<lparr>result := nval st l\<rparr>, st)
                else Some (insertReplace tid x v p l out st)
           else Some (insertNew tid x v p l cnt out st)
     })"

section \<open>updateErase\<close>

partial_function (option) searchErase ::
    "'k::linorder \<Rightarrow> addr \<Rightarrow> addr \<Rightarrow> addr \<Rightarrow> int \<Rightarrow> addr list \<Rightarrow> ('k, 'v) Chromatic \<Rightarrow>
     (addr list + addr \<times> addr \<times> addr \<times> int \<times> addr list) option" where
  "searchErase x gp p l cnt stack st =
    (if nleft st l \<noteq> NULL
     then if x < nkey st l
       then if IF_FAIL_TO_PROTECT_NODE st (nleft st l) then Some (Inl (p # stack))
            else searchErase x p l (nleft st l) (if violation_at st p l then cnt + 1 else cnt)
                   (p # stack) st
       else if IF_FAIL_TO_PROTECT_NODE st (nright st l) then Some (Inl (p # stack))
            else searchErase x p l (nright st l) (if violation_at st p l then cnt + 1 else cnt)
                   (p # stack) st
     else Some (Inr (gp, p, l, cnt, stack)))"

definition eraseLeaf ::
    "nat \<Rightarrow> addr \<Rightarrow> addr \<Rightarrow> addr \<Rightarrow> int \<Rightarrow> 'v update_out \<Rightarrow> ('k, 'v) Chromatic \<Rightarrow>
     bool \<times> 'v update_out \<times> ('k, 'v) Chromatic" where
  "eraseLeaf tid gp p l cnt out st =
    (case llx gp st of ((igp, gpleft, gpright), st) \<Rightarrow>
       if igp = NULL then (False, out, st)
       else if p \<noteq> gpleft \<and> p \<noteq> gpright then (False, out, st)
       else case llx p st of ((ip, pleft, pright), st) \<Rightarrow>
         if ip = NULL then (False, out, st)
         else if l \<noteq> pleft \<and> l \<noteq> pright then (False, out, st)
         else let out = out\<lparr>result := nval st l\<rparr>;
                  s = (if l = pleft then pright else pleft)
              in if IF_FAIL_TO_PROTECT_NODE st s then (False, out, st)
           else case llx s st of ((isib, sleft, sright), st) \<Rightarrow>
             if isib = NULL then (False, out, st)
             else let newWeight = (if IS_SENTINEL st p gp then 1 else nweight st p + nweight st s);
                      new = allocatedNodes st tid 0;
                      st = initializeNode new (nkey st s) (nval st s) newWeight sleft sright st;
                      out = out\<lparr>shouldRebalance := cnt > allowedViolations st\<rparr>;
                      (ok, st) = scx tid TYPE_DEL [gp, p, s, l] [igp, ip, isib] (gp, p = gpleft) new st
                  in (ok, out, st))"

definition updateErase ::
    "nat \<Rightarrow> 'k::linorder \<Rightarrow> 'v update_out \<Rightarrow> ('k, 'v) Chromatic \<Rightarrow>
     (bool \<times> 'v update_out \<times> ('k, 'v) Chromatic) option" where
  "updateErase tid x out st =
    (let stack = root st # node_stack out; l = nleft st (root st) in
     if IF_FAIL_TO_PROTECT_NODE st l then Some (False, out\<lparr>node_stack := stack\<rparr>, st)
     else if nleft st l = NULL then Some (True, out\<lparr>node_stack := stack\<rparr>, st)
     else if IF_FAIL_TO_PROTECT_NODE st (nleft st l) then Some (False, out\<lparr>node_stack := stack\<rparr>, st)
     else do {
       found \<leftarrow> searchErase x (root st) l (nleft st l) 0 stack st;
       case found of
         Inl stack \<Rightarrow> Some (False, out\<lparr>node_stack := stack\<rparr>, st)
       | Inr (gp, p, l, cnt, stack) \<Rightarrow>
           let out = out\<lparr>node_stack := stack\<rparr> in
           if x \<noteq> nkey st l then Some (True, out\<lparr>result := NO_VALUE st\<rparr>, st)
           else Some (eraseLeaf tid gp p l cnt out st)
     })"

section \<open>The retry loops\<close>

partial_function (option) insertLoop ::
    "nat \<Rightarrow> 'k::linorder \<Rightarrow> 'v \<Rightarrow> bool \<Rightarrow> 'v update_out \<Rightarrow> ('k, 'v) Chromatic \<Rightarrow>
     ('v update_out \<times> ('k, 'v) Chromatic) option" where
  "insertLoop tid x v onlyIfAbsent out st =
    do {
      (fin, out', st') \<leftarrow> updateInsert tid x v onlyIfAbsent (out\<lparr>node_stack := []\<rparr>) st;
      if fin then Some (out', st') else insertLoop tid x v onlyIfAbsent out' st'
    }"

partial_function (option) eraseLoop ::
    "nat \<Rightarrow> 'k::linorder \<Rightarrow> 'v update_out \<Rightarrow> ('k, 'v) Chromatic \<Rightarrow>
     ('v update_out \<times> ('k, 'v) Chromatic) option" where
  "eraseLoop tid x out st =
    do {
      (fin, out', st') \<leftarrow> updateErase tid x (out\<lparr>node_stack := []\<rparr>) st;
      if fin then Some (out', st') else eraseLoop tid x out' st'
    }"

section \<open>New leaves with their versions\<close>

text \<open>
  The state in which \<open>updateInsert\<close> calls SCX: thread \<open>tid\<close> has written its spare nodes and its
  first \<open>n\<close> spare versions, and has taken fresh spare versions for these.
\<close>

definition version_ext :: "nat \<Rightarrow> nat \<Rightarrow> ('k, 'v) Chromatic \<Rightarrow> ('k, 'v) Chromatic \<Rightarrow> bool" where
  "version_ext tid n st st' \<longleftrightarrow>
     NO_KEY st' = NO_KEY st \<and> NO_VALUE st' = NO_VALUE st \<and>
     allowedViolations st' = allowedViolations st \<and> root st' = root st \<and> dummy st' = dummy st \<and>
     allocatedSCXRecord st' = allocatedSCXRecord st \<and> allocatedNodes st' = allocatedNodes st \<and>
     scxH st' = scxH st \<and> nextNode st' = nextNode st \<and> nextSCX st' = nextSCX st \<and>
     allocatedVersions st' = (allocatedVersions st)(tid :=
       \<lambda>i. if i < n then nextVersion st + i else allocatedVersions st tid i) \<and>
     nextVersion st' = nextVersion st + n \<and>
     (\<forall>v. (\<forall>i<5. v \<noteq> allocatedVersions st tid i) \<longrightarrow> versionH st' v = versionH st v) \<and>
     (\<forall>b. (\<forall>i<5. b \<noteq> allocatedNodes st tid i) \<longrightarrow> nodeH st' b = nodeH st b)"

lemma version_extD:
  assumes "version_ext tid n st st'"
  shows "NO_KEY st' = NO_KEY st" "NO_VALUE st' = NO_VALUE st"
    "allowedViolations st' = allowedViolations st" "root st' = root st" "dummy st' = dummy st"
    "allocatedSCXRecord st' = allocatedSCXRecord st" "allocatedNodes st' = allocatedNodes st"
    "scxH st' = scxH st" "nextNode st' = nextNode st" "nextSCX st' = nextSCX st"
    "allocatedVersions st' = (allocatedVersions st)(tid :=
       \<lambda>i. if i < n then nextVersion st + i else allocatedVersions st tid i)"
    "nextVersion st' = nextVersion st + n"
    "\<And>v. (\<And>i. i < 5 \<Longrightarrow> v \<noteq> allocatedVersions st tid i) \<Longrightarrow> versionH st' v = versionH st v"
    "\<And>b. (\<And>i. i < 5 \<Longrightarrow> b \<noteq> allocatedNodes st tid i) \<Longrightarrow> nodeH st' b = nodeH st b"
    "ready st' = ready st"
  using assms unfolding version_ext_def ready_def by (blast, blast, blast, blast, blast, blast, blast,
      blast, blast, blast, blast, blast, blast, blast, simp add: fun_eq_iff)

lemma version_ext_live_node:
  assumes "version_ext tid n st st'" and "ready st tid" and "live_node st a"
  shows "nodeH st' a = nodeH st a" "live_node st' a"
proof -
  note e = version_extD[OF assms(1)]
  show eq: "nodeH st' a = nodeH st a" using e(14)[of a] live_not_spare[OF assms(3,2)] by blast
  show "live_node st' a"
    using assms(3) unfolding live_node_def eq e(6-10) e(15) .
qed

lemma version_ext_hwf:
  assumes "version_ext tid n st st'" and "ready st tid" and "hwf st T"
  shows "hwf st' T"
proof -
  note e = version_extD[OF assms(1)] and h = hwfD[OF assms(3)]
    and live = version_ext_live_node[OF assms(1,2)]
  have "pools_ok st'"
    using h(1) unfolding pools_ok_def e(5-12) e(15) by (simp only: spare_ok_refill simp_thms)
  moreover have nd: "nodeH st' a = nodeH st a" if "a \<in> insert (root st) (set (addrs T))" for a
    using that h(9,10) live(1) by blast
  have "tree_at (nodeH st') T"
    using h(2) nd tree_at_cong[of T "nodeH st'" "nodeH st"] by (metis insertCI same_fields_refl)
  moreover have "\<forall>a\<in>set (root st # addrs T). live_node st' a"
    using h(9,10) live(2) by auto
  ultimately show ?thesis
    using assms(3) by (simp add: hwf_def e(1,4) nd)
qed

lemma version_ext_framed:
  assumes "version_ext tid n st st'" and "ready st tid" and "pools_ok st" and "n \<le> 5"
  shows "framed st st'" "i < n \<Longrightarrow> live_version st' (allocatedVersions st tid i)"
proof -
  note e = version_extD[OF assms(1)]
  have "live_version st' v \<and> versionH st' v = versionH st v" if "live_version st v" for v
    using that e(13)[of v] assms(2) by (auto simp: live_version_def e(11,12,15))
  then show "framed st st'" by (simp add: framed_def e(1-4) e(15))
  assume i: "i < n"
  then have i5: "i < 5" using assms(4) by simp
  have "allocatedVersions st' t j \<noteq> allocatedVersions st tid i" if "ready st t" "j < 5" for t j
    using pools_ok_inj(3)[OF assms(3) that(1) assms(2) that(2) i5] pools_ok_spare(7)[OF assms(3,2) i5] i
    by (auto simp: e(11))
  then show "live_version st' (allocatedVersions st tid i)"
    using pools_ok_spare(6,7)[OF assms(3,2) i5] by (simp add: live_version_def e(12,15))
qed

section \<open>Searching for a leaf\<close>

lemma searchInsert_zdown:
  assumes "hwf st (plug C t)" and "C \<noteq> []" and "zdown x C t = (D, u)"
  shows "\<exists>cnt'. searchInsert x (fst (hole (root st) C)) (adr t) cnt (map fadr (tl C) @ [root st]) st =
    Some (Inr (fst (hole (root st) D), adr u, cnt', map fadr (tl D) @ [root st]))"
  using assms
proof (induction x C t arbitrary: cnt rule: zdown.induct)
  case (1 x C a k v w)
  have "nleft st a = NULL" using hwfD(2)[OF "1.prems"(1)] by (simp add: tree_at_plug)
  then show ?case using "1.prems"(3) by (subst searchInsert.simps) auto
next
  case (2 x C a k v w l r)
  have t: "tree_at (nodeH st) (Nd a k v w l r)" using hwfD(2)[OF "2.prems"(1)] by (simp add: tree_at_plug)
  then have e: "nleft st a \<noteq> NULL" using tree_at_adr by auto
  have st: "fst (hole (root st) C) # map fadr (tl C) @ [root st] = map fadr C @ [root st]"
    using "2.prems"(2) by (cases C) auto
  have hl: "hwf st (plug (FL a k v w r # C) l)" "hwf st (plug (FR a k v w l # C) r)"
    using "2.prems"(1) by simp_all
  let ?cnt = "if violation_at st (fst (hole (root st) C)) a then cnt + 1 else cnt"
  show ?case
  proof (cases "x < k")
    case True
    then have "zdown x (FL a k v w r # C) l = (D, u)" using "2.prems"(3) by simp
    note IH = "2.IH"(1)[OF True hl(1) list.distinct(2) this, of ?cnt]
    show ?thesis using IH True t e st by (subst searchInsert.simps) auto
  next
    case False
    then have "zdown x (FR a k v w l # C) r = (D, u)" using "2.prems"(3) by simp
    note IH = "2.IH"(2)[OF False hl(2) list.distinct(2) this, of ?cnt]
    show ?thesis using IH False t e st by (subst searchInsert.simps) auto
  qed
qed

lemma searchErase_zdown:
  assumes "hwf st (plug C t)" and "C \<noteq> []" and "zdown x C t = (D, u)"
  shows "\<exists>cnt'. searchErase x (fst (hole (root st) (tl C))) (fst (hole (root st) C)) (adr t) cnt
      (map fadr (tl C) @ [root st]) st =
    Some (Inr (fst (hole (root st) (tl D)), fst (hole (root st) D), adr u, cnt', map fadr (tl D) @ [root st]))"
  using assms
proof (induction x C t arbitrary: cnt rule: zdown.induct)
  case (1 x C a k v w)
  have "nleft st a = NULL" using hwfD(2)[OF "1.prems"(1)] by (simp add: tree_at_plug)
  then show ?case using "1.prems"(3) by (subst searchErase.simps) auto
next
  case (2 x C a k v w l r)
  have t: "tree_at (nodeH st) (Nd a k v w l r)" using hwfD(2)[OF "2.prems"(1)] by (simp add: tree_at_plug)
  then have e: "nleft st a \<noteq> NULL" using tree_at_adr by auto
  have st: "fst (hole (root st) C) # map fadr (tl C) @ [root st] = map fadr C @ [root st]"
    using "2.prems"(2) by (cases C) auto
  have hl: "hwf st (plug (FL a k v w r # C) l)" "hwf st (plug (FR a k v w l # C) r)"
    using "2.prems"(1) by simp_all
  let ?cnt = "if violation_at st (fst (hole (root st) C)) a then cnt + 1 else cnt"
  show ?case
  proof (cases "x < k")
    case True
    then have "zdown x (FL a k v w r # C) l = (D, u)" using "2.prems"(3) by simp
    note IH = "2.IH"(1)[OF True hl(1) list.distinct(2) this, of ?cnt]
    show ?thesis using IH True t e st by (subst searchErase.simps) auto
  next
    case False
    then have "zdown x (FR a k v w l # C) r = (D, u)" using "2.prems"(3) by simp
    note IH = "2.IH"(2)[OF False hl(2) list.distinct(2) this, of ?cnt]
    show ?thesis using IH False t e st by (subst searchErase.simps) auto
  qed
qed

section \<open>Version trees in memory\<close>

text \<open>
  \<open>vtree_at st z v t\<close>: the version \<open>v\<close> is the root of a version tree that mirrors the node tree
  \<open>t\<close> key by key, with the sum of an inner version the sum of its children's.  A leaf counts 1,
  the sentinel leaf counts \<open>z\<close>.
\<close>

definition leaf_sum :: "('k, 'v) Chromatic \<Rightarrow> int \<Rightarrow> 'k \<Rightarrow> int" where
  "leaf_sum st z k = (if k = NO_KEY st then z else 1)"

fun vtree_at :: "('k, 'v) Chromatic \<Rightarrow> int \<Rightarrow> addr \<Rightarrow> ('k, 'v) ct \<Rightarrow> bool" where
  "vtree_at st z u (Lf a k v w) \<longleftrightarrow> leaf_version st u k (leaf_sum st z k)"
| "vtree_at st z u (Nd a k v w l r) \<longleftrightarrow> live_version st u \<and> vkey (versionH st u) = k \<and>
     vtree_at st z (vleft (versionH st u)) l \<and> vtree_at st z (vright (versionH st u)) r \<and>
     vsum (versionH st u) =
       vsum (versionH st (vleft (versionH st u))) + vsum (versionH st (vright (versionH st u)))"

text \<open>Every node of the tree has such a version.\<close>

abbreviation nversion :: "('k, 'v) Chromatic \<Rightarrow> addr \<Rightarrow> addr" where
  "nversion st a \<equiv> version (nodeH st a)"

fun vfull :: "('k, 'v) Chromatic \<Rightarrow> int \<Rightarrow> ('k, 'v) ct \<Rightarrow> bool" where
  "vfull st z (Lf a k v w) \<longleftrightarrow> vtree_at st z (nversion st a) (Lf a k v w)"
| "vfull st z (Nd a k v w l r) \<longleftrightarrow>
     vtree_at st z (nversion st a) (Nd a k v w l r) \<and> vfull st z l \<and> vfull st z r"

lemma vtree_at_live: "vtree_at st z u t \<Longrightarrow> live_version st u"
  by (cases t) (auto simp: leaf_version_def)

lemma live_version_nonnull: "live_version st u \<Longrightarrow> u \<noteq> NULL"
  by (auto simp: live_version_def)

lemma vtree_at_framed: "vtree_at st z u t \<Longrightarrow> framed st st' \<Longrightarrow> vtree_at st' z u t"
proof (induction t arbitrary: u)
  case (Lf a k v w)
  then show ?case using leaf_version_framed[of st u k _ st'] by (simp add: leaf_sum_def framed_def)
next
  case (Nd a k v w l r)
  note fr = Nd.prems(2)[unfolded framed_def, THEN conjunct2, THEN conjunct2, THEN conjunct2,
      THEN conjunct2, THEN conjunct2, rule_format]
  show ?case using Nd vtree_at_live[of st z _ l] vtree_at_live[of st z _ r] by (simp add: fr)
qed

lemma vfull_framed:
  assumes "vfull st z t" and "framed st st'" and "\<And>a. a \<in> set (addrs t) \<Longrightarrow> nversion st' a = nversion st a"
  shows "vfull st' z t"
  using assms(1,3)
proof (induction t)
  case (Nd a k v w l r)
  then show ?case using vtree_at_framed[OF _ assms(2)] by (simp del: vtree_at.simps)
next
  case (Lf a k v w)
  then show ?case using vtree_at_framed[OF _ assms(2)] by (simp del: vtree_at.simps)
qed

text \<open>The sum of a mirrored version is the number of leaves.\<close>

fun tsum :: "'k \<Rightarrow> int \<Rightarrow> ('k, 'v) ct \<Rightarrow> int" where
  "tsum nk z (Lf a k v w) = (if k = nk then z else 1)"
| "tsum nk z (Nd a k v w l r) = tsum nk z l + tsum nk z r"

lemma vtree_at_sum: "vtree_at st z u t \<Longrightarrow> vsum (versionH st u) = tsum (NO_KEY st) z t"
  by (induction t arbitrary: u) (auto simp: leaf_version_def leaf_sum_def)

section \<open>SCX on a leaf\<close>

definition grown :: "('k, 'v) ctx \<Rightarrow> ('k, 'v) ct \<Rightarrow> ('k, 'v) ct \<Rightarrow> int \<Rightarrow>
    ('k, 'v) Chromatic \<Rightarrow> ('k, 'v) Chromatic \<Rightarrow> bool" where
  "grown D u S' z st st' \<longleftrightarrow> framed st st' \<and>
     (\<forall>a\<in>insert (root st) (set (addrs (plug D u))). nversion st' a = nversion st a) \<and>
     vfull st' z S'"

lemma scx_grow:
  fixes st :: "('k, 'v) Chromatic"
  assumes hw: "hwf st (plug D u)" and rd: "ready st tid" and ext: "version_ext tid n st st1"
    and tbl: "NUM_TO_FREEZE ! ty = 1" "NUM_OF_NODES ! ty = 2" "NUM_INSERTED ! ty = n" "n \<le> 5"
    and S': "tree_at (nodeH st1) S'" "distinct (addrs S')"
      "set (addrs S') \<subseteq> {allocatedNodes st tid i |i. i < n}"
      "\<forall>a\<in>set (addrs S'). \<not> marked (nodeH st1 a) \<and> scxRecord (nodeH st1 a) = dummy st"
      "vfull st1 z S'"
  shows "\<exists>st'. scx tid ty [fst (hole (root st) D), adr u] [llx_value st (fst (hole (root st) D))]
             (hole (root st) D) (adr S') st1 = (True, st') \<and>
           hwf st' (plug D S') \<and> grown D u S' z st st'"
proof -
  let ?p = "fst (hole (root st) D)"
  note e = version_extD[OF ext] and live = version_ext_live_node[OF ext rd] and h = hwfD[OF hw]
  have hw1: "hwf st1 (plug D u)" by (rule version_ext_hwf[OF ext rd hw])
  have inT: "live_node st a" if "a \<in> insert (root st) (set (addrs (plug D u)))" for a
    using that h(9,10) by blast
  have "nodeH st1 ?p = nodeH st ?p"
    using inT hole_in[of "root st" D] by (intro live(1)) (auto simp: set_addrs_plug)
  then have p: "llx_value st1 ?p = llx_value st ?p" by (simp add: llx_value_def)
  have sub: "set (addrs S') \<subseteq> (set (addrs u) - set (adr u # [])) \<union>
      {allocatedNodes st1 tid i |i. i < NUM_INSERTED ! ty}"
    using S'(3) unfolding e(7) tbl(3) by blast
  obtain st' where st': "scx tid ty [?p, adr u] [llx_value st ?p] (hole (root st1) D) (adr S') st1 = (True, st')"
      "hwf st' (plug D S')" "replaced D st1 st'"
    using scx_replace[of st1 D u tid ty "[?p, adr u]" "[]" "[llx_value st ?p]" S'] hw1 rd tbl S'(1,2,4) sub
    by (auto simp: e(4,5,15) p)
  have fr1: "framed st1 st'" and ver: "\<And>a. nversion st' a = nversion st1 a"
    using st'(3) by (auto simp: replaced_def)
  have "framed st st'" by (rule framed_trans[OF version_ext_framed(1)[OF ext rd h(1) tbl(4)] fr1])
  moreover have "nversion st' a = nversion st a" if "a \<in> insert (root st) (set (addrs (plug D u)))" for a
    using ver live(1)[OF inT[OF that]] by simp
  moreover have "vfull st' z S'" by (rule vfull_framed[OF S'(5) fr1 ver])
  ultimately have "grown D u S' z st st'" unfolding grown_def by blast
  then show ?thesis using st'(1,2) unfolding e(4) by blast
qed

text \<open>What \<open>updateInsert\<close> reads at the parent of the leaf.\<close>

lemma parent_reads:
  assumes "hwf st (plug D u)" and "p = fst (hole (root st) D)"
  shows "llx p st = ((llx_value st p, nleft st p, nright st p), st)" "llx_value st p \<noteq> NULL"
    "adr u \<noteq> nleft st p \<Longrightarrow> adr u = nright st p" "(p, adr u = nleft st p) = hole (root st) D"
proof -
  note h = hwfD[OF assms(1)]
  have "live_node st p" using h(9,10) hole_in[of "root st" D] by (auto simp: set_addrs_plug assms(2))
  then show "llx p st = ((llx_value st p, nleft st p, nright st p), st)" "llx_value st p \<noteq> NULL"
    by (rule llx_live, rule llx_value_nonnull)
  have "(adr u \<noteq> nleft st p \<longrightarrow> adr u = nright st p) \<and> (p, adr u = nleft st p) = hole (root st) D"
  proof (cases D)
    case Nil
    then show ?thesis using h(3) by (simp add: assms(2))
  next
    case (Cons f E)
    have "frame_at (nodeH st) f (adr u)" using h(2) by (simp add: tree_at_plug tree_at_fill Cons)
    moreover have "adr (fsib f) \<noteq> adr u"
    proof -
      have "set (addrs u) \<inter> set (caddrs D) = {}" using h(7) by (simp add: distinct_addrs_plug)
      then show ?thesis using adr_in_addrs[of u] adr_in_addrs[of "fsib f"]
        by (simp del: adr_in_addrs add: Cons disjoint_iff) metis
    qed
    ultimately show ?thesis by (cases f) (auto simp: assms(2) Cons)
  qed
  then show "adr u \<noteq> nleft st p \<Longrightarrow> adr u = nright st p" "(p, adr u = nleft st p) = hole (root st) D"
    by blast+
qed

lemma insertReplace_spec:
  fixes st :: "('k, 'v) Chromatic"
  assumes hw: "hwf st (plug D u)" and rd: "ready st tid" and leaf: "is_leaf u" and x: "x \<noteq> NO_KEY st"
  shows "\<exists>st'. insertReplace tid x v (fst (hole (root st) D)) (adr u) out st =
      (True, out\<lparr>result := tval u\<rparr>, st') \<and>
    hwf st' (plug D (Lf (allocatedNodes st tid 0) x v (wt u))) \<and>
    grown D u (Lf (allocatedNodes st tid 0) x v (wt u)) z st st'"
proof -
  let ?p = "fst (hole (root st) D)" and ?a = "allocatedNodes st tid 0" and ?v = "allocatedVersions st tid 0"
  let ?S = "Lf ?a x v (wt u)"
  note h = hwfD[OF hw] and rp = parent_reads[OF hw refl]
  have t: "tree_at (nodeH st) u" using h(2) by (simp add: tree_at_plug)
  have u: "nval st (adr u) = tval u" "nweight st (adr u) = wt u" using t by (simp_all add: tree_at_sel)
  define st1 where "st1 = REPLACE_ALLOCATED_VERSION tid 0
    (initializeNodeWithVersion ?a x v (wt u) NULL NULL ?v (initializeVersion ?v x 1 NULL NULL st))"
  have ext: "version_ext tid 1 st st1"
    by (simp add: version_ext_def st1_def REPLACE_ALLOCATED_VERSION_def initializeNodeWithVersion_def
        initializeVersion_def fun_eq_iff)
  have "?a \<noteq> NULL" using pools_ok_spare(4)[OF h(1) rd, of 0] by auto
  moreover have "live_version st1 ?v" using version_ext_framed(2)[OF ext rd h(1), of 0] by simp
  ultimately have "\<exists>st'. scx tid TYPE_REPLACE [?p, adr u] [llx_value st ?p] (hole (root st) D) (adr ?S) st1 = (True, st') \<and>
           hwf st' (plug D ?S) \<and> grown D u ?S z st st'"
    using x by (intro scx_grow[OF hw rd ext])
      (auto simp: table_defs st1_def REPLACE_ALLOCATED_VERSION_def initializeNodeWithVersion_def
        initializeVersion_def leaf_version_def leaf_sum_def)
  then show ?thesis
    using rp unfolding insertReplace_def
    by (auto simp: u Let_def st1_def initializeVersion_def split: prod.splits)
qed

text \<open>The tree that \<open>updateInsert\<close> puts in the place of the leaf \<open>u\<close>.\<close>

definition leaf_insert :: "'k::linorder \<Rightarrow> bool \<Rightarrow> 'k \<Rightarrow> 'v \<Rightarrow> (nat \<Rightarrow> addr) \<Rightarrow> ('k, 'v) ct \<Rightarrow> ('k, 'v) ct" where
  "leaf_insert nk tp x v a u =
    (let w = (if tp then 1 else wt u - 1); new = Lf (a 0) x v 1; cp = Lf (a 1) (tkey u) (tval u) 1
     in if tkey u = nk \<or> x < tkey u then Nd (a 2) (tkey u) (tval u) w new cp
        else Nd (a 2) x v w cp new)"

lemma spare_versions:
  assumes "pools_ok st" and "ready st tid"
  shows "i < 5 \<Longrightarrow> j < 5 \<Longrightarrow> allocatedVersions st tid i = allocatedVersions st tid j \<longleftrightarrow> i = j"
  using pools_ok_inj(3)[OF assms(1,2,2)] by blast

lemma insertNew_spec:
  fixes st :: "('k::linorder, 'v) Chromatic"
  assumes hw: "hwf st (plug D u)" and rd: "ready st tid" and x: "x \<noteq> NO_KEY st"
    and tp: "tp = IS_SENTINEL st (adr u) (fst (hole (root st) D))"
  shows "\<exists>st'. insertNew tid x v (fst (hole (root st) D)) (adr u) cnt out st =
      (True, out\<lparr>result := NO_VALUE st, shouldRebalance := cnt > allowedViolations st\<rparr>, st') \<and>
    hwf st' (plug D (leaf_insert (NO_KEY st) tp x v (allocatedNodes st tid) u)) \<and>
    grown D u (leaf_insert (NO_KEY st) tp x v (allocatedNodes st tid) u) 0 st st'"
proof -
  define p where "p = fst (hole (root st) D)"
  define a0 a1 a2 where a: "a0 = allocatedNodes st tid 0" "a1 = allocatedNodes st tid 1" "a2 = allocatedNodes st tid 2"
  define v0 v1 v2 where v: "v0 = allocatedVersions st tid 0" "v1 = allocatedVersions st tid 1" "v2 = allocatedVersions st tid 2"
  define nk k b w0 where d: "nk = NO_KEY st" "k = tkey u" "b = tval u" "w0 = (if tp then 1 else wt u - 1)"
  define S where "S = leaf_insert nk tp x v (allocatedNodes st tid) u"
  note h = hwfD[OF hw] and rp = parent_reads[OF hw p_def] and sp = spare_facts[OF hw rd]
  have t: "tree_at (nodeH st) u" using h(2) by (simp add: tree_at_plug)
  have u: "nkey st (adr u) = k" "nval st (adr u) = b" "nweight st (adr u) = wt u"
    using t by (simp_all add: tree_at_sel d)
  define st0 where "st0 = initializeNodeWithVersion a1 k b 1 NULL NULL v1
    (initializeVersion v1 k (if k = nk then 0 else 1) NULL NULL
    (initializeNodeWithVersion a0 x v 1 NULL NULL v0 (initializeVersion v0 x 1 NULL NULL st)))"
  define st1 where "st1 = REPLACE_ALLOCATED_VERSION tid 2 (REPLACE_ALLOCATED_VERSION tid 1
    (REPLACE_ALLOCATED_VERSION tid 0
      (if k = nk \<or> x < k
       then initializeNodeWithVersion a2 k b w0 a0 a1 v2
              (initializeVersion v2 k (if k = nk then 1 else 2) v0 v1 st0)
       else initializeNodeWithVersion a2 x v w0 a1 a0 v2
              (initializeVersion v2 x (if k = nk then 1 else 2) v1 v0 st0))))"
  note init = REPLACE_ALLOCATED_VERSION_def initializeNodeWithVersion_def initializeVersion_def
  have ext: "version_ext tid 3 st st1"
    by (simp add: version_ext_def st1_def st0_def init a v) (auto simp: fun_eq_iff)
  have ne: "a0 \<noteq> a1" "a0 \<noteq> a2" "a1 \<noteq> a2" "a0 \<noteq> NULL" "a1 \<noteq> NULL" "a2 \<noteq> NULL"
    "v0 \<noteq> v1" "v0 \<noteq> v2" "v1 \<noteq> v2"
    unfolding a v using sp(2,4) spare_versions[OF h(1) rd] by auto
  have lv: "live_version st1 v0" "live_version st1 v1" "live_version st1 v2"
    unfolding v using version_ext_framed(2)[OF ext rd h(1)] by simp_all
  have nH: "nodeH st1 a0 = \<lparr>key = x, left = NULL, right = NULL, weight = 1, val = v, marked = False,
      version = v0, scxRecord = dummy st\<rparr>"
    "nodeH st1 a1 = \<lparr>key = k, left = NULL, right = NULL, weight = 1, val = b, marked = False,
      version = v1, scxRecord = dummy st\<rparr>"
    "nodeH st1 a2 = (if k = nk \<or> x < k
      then \<lparr>key = k, left = a0, right = a1, weight = w0, val = b, marked = False, version = v2, scxRecord = dummy st\<rparr>
      else \<lparr>key = x, left = a1, right = a0, weight = w0, val = v, marked = False, version = v2, scxRecord = dummy st\<rparr>)"
    using ne by (simp_all add: st1_def st0_def init)
  have vH: "leaf_version st1 v0 x 1" "leaf_version st1 v1 k (if k = nk then 0 else 1)"
    "vkey (versionH st1 v2) = (if k = nk \<or> x < k then k else x)"
    "vleft (versionH st1 v2) = (if k = nk \<or> x < k then v0 else v1)"
    "vright (versionH st1 v2) = (if k = nk \<or> x < k then v1 else v0)"
    "vsum (versionH st1 v2) = (if k = nk then 1 else 2)"
    using ne lv(1,2) unfolding leaf_version_def by (simp_all add: st1_def st0_def init)
  have vs: "vsum (versionH st1 v0) = 1" "vsum (versionH st1 v1) = (if k = nk then 0 else 1)"
    using vH(1,2) unfolding leaf_version_def by blast+
  have S: "S = (if k = nk \<or> x < k then Nd a2 k b w0 (Lf a0 x v 1) (Lf a1 k b 1)
      else Nd a2 x v w0 (Lf a1 k b 1) (Lf a0 x v 1))"
    by (simp add: S_def leaf_insert_def d a Let_def)
  have Sa: "adr S = a2" by (simp add: S)
  have nk1: "NO_KEY st1 = nk" using version_extD(1)[OF ext] by (simp add: d)
  have "\<exists>st'. scx tid TYPE_INS [p, adr u] [llx_value st p] (hole (root st) D) (adr S) st1 = (True, st') \<and>
           hwf st' (plug D S) \<and> grown D u S 0 st st'"
    unfolding p_def
  proof (rule scx_grow[OF hw rd ext])
    show "tree_at (nodeH st1) S" "distinct (addrs S)" using ne by (auto simp: S nH)
    show "set (addrs S) \<subseteq> {allocatedNodes st tid i |i. i < 3}" (is "_ \<subseteq> ?P")
    proof -
      have "a0 \<in> ?P" "a1 \<in> ?P" "a2 \<in> ?P" unfolding a by (intro CollectI exI conjI, rule refl, simp)+
      then show ?thesis by (simp add: S)
    qed
    show "\<forall>a\<in>set (addrs S). \<not> marked (nodeH st1 a) \<and> scxRecord (nodeH st1 a) = dummy st"
      by (auto simp: S nH)
    show "vfull st1 0 S"
      using vH lv(3) x by (auto simp: S nH nk1 vs d(1) leaf_sum_def)
  qed (simp_all add: table_defs)
  then obtain st' where st': "scx tid TYPE_INS [p, adr u] [llx_value st p] (p, adr u = nleft st p) a2 st1 = (True, st')"
      "hwf st' (plug D S)" "grown D u S 0 st st'"
    unfolding rp(4) Sa by blast
  have ch: "\<not> (adr u \<noteq> nleft st p \<and> adr u \<noteq> nright st p)" using rp(3) by blast
  have fr: "NO_VALUE st1 = NO_VALUE st" "allowedViolations st1 = allowedViolations st"
    using version_extD(2,3)[OF ext] .
  have "insertNew tid x v p (adr u) cnt out st =
      (case scx tid TYPE_INS [p, adr u] [llx_value st p] (p, adr u = nleft st p) a2 st1 of (ok, st') \<Rightarrow>
         (ok, out\<lparr>result := NO_VALUE st1, shouldRebalance := cnt > allowedViolations st1\<rparr>, st'))"
    unfolding insertNew_def rp(1) prod.case if_not_P[OF rp(2)] if_not_P[OF ch] Let_def u
      tp[folded p_def, symmetric] a[symmetric] v[symmetric] d(1)[symmetric] d(4)[symmetric]
      st0_def[symmetric] st1_def[symmetric] ..
  then show ?thesis using st' by (simp add: p_def[symmetric] S_def[symmetric] d(1)[symmetric] fr)
qed

section \<open>The leaf a search ends at\<close>

fun found_leaf :: "'k::linorder \<Rightarrow> ('k, 'v) ct \<Rightarrow> ('k, 'v) ctx \<times> ('k, 'v) ct" where
  "found_leaf x (Lf a k v w) = ([], Lf a k v w)"
| "found_leaf x (Nd a k v w l r) = zdown x [FL a k v w r] l"

text \<open>The map that a chromatic tree represents: its leaves without the sentinels.\<close>

fun contents :: "('k, 'v) ct \<Rightarrow> ('k \<times> 'v) list" where
  "contents (Lf a k v w) = []"
| "contents (Nd a k v w l r) = leaves l"

lemma zdown_append: "zdown x (C @ F) t = map_prod (\<lambda>D. D @ F) id (zdown x C t)"
  by (induction x C t rule: zdown.induct) auto

lemma found_leaf_plug: "found_leaf x T = (D, u) \<Longrightarrow> plug D u = T \<and> is_leaf u"
  using zdown_plug[of x] zdown_leaf[of x] by (cases T) fastforce+

lemma found_leaf_lookup:
  assumes "chrom nk T" and "found_leaf x T = (D, u)" and "x \<noteq> nk"
  shows "map_of (contents T) x = (if tkey u = x then Some (tval u) else None)"
proof (cases T)
  case (Nd a k v w l r)
  have "bst l" "zdown x [FL a k v w r] l = (D, u)" using assms(1,2) by (simp_all add: Nd chrom_inner_def)
  from zdown_lookup[OF this] show ?thesis by (simp add: Nd)
qed (use assms in auto)

lemma found_leaf_split:
  assumes "chrom nk T" and "found_leaf x T = (D, u)"
  obtains (empty) a v where "D = []" "T = Lf a nk v 1" "u = T"
    | (inner) E a v b v' where "D = E @ [FL a nk v 1 (Lf b nk v' 1)]" "on_path x E"
      "chrom_inner nk (plug E u)" "T = Nd a nk v 1 (plug E u) (Lf b nk v' 1)"
proof (cases T)
  case (Lf a k v w)
  then have "D = []" "T = Lf a nk v 1" "u = T" using assms by auto
  then show ?thesis by (rule empty)
next
  case (Nd a k v w l r)
  let ?f = "FL a k v w r"
  have z: "zdown x [?f] l = (D, u)" using assms(2) by (simp add: Nd)
  obtain E where E: "D = E @ [?f]" using zdown_suffix[OF z] by blast
  have "plug E u = l" using zdown_plug[OF z] by (simp add: E plug_append)
  moreover have "on_path x E"
  proof -
    have "zdown x ([] @ [?f]) l = (E @ [?f], u)" using z by (simp add: E)
    then have "zdown x [] l = (E, u)" by (simp only: zdown_append) (auto simp: map_prod_def split: prod.splits)
    then show ?thesis using zdown_on_path[of x "[]" l E u] by simp
  qed
  moreover obtain b v' where "k = nk" "w = 1" "r = Lf b nk v' 1" "chrom_inner nk l"
    using assms(1) by (auto simp: Nd)
  ultimately show ?thesis by (intro inner[of E a v b v']) (simp_all add: Nd E)
qed

text \<open>The stack and the leaf that the traversal of \<open>updateInsert\<close> and \<open>updateErase\<close> yields.\<close>

lemma updateInsert_search:
  assumes "hwf st T" and "found_leaf x T = (D, u)"
  shows "\<exists>cnt. (let l = nleft st (root st); stack = [root st] in
      if nleft st l \<noteq> NULL
      then if IF_FAIL_TO_PROTECT_NODE st (nleft st l) then Some (Inl stack)
           else searchInsert x l (nleft st l) 0 stack st
      else Some (Inr (root st, l, 0, stack))) =
    Some (Inr (fst (hole (root st) D), adr u, cnt, map fadr (tl D) @ [root st]))"
proof (cases T)
  case (Lf a k v w)
  then show ?thesis using assms hwfD(2,3)[OF assms(1)] by auto
next
  case (Nd a k v w l r)
  have t: "nleft st (root st) = a" "nleft st a = adr l" "adr l \<noteq> NULL"
    using hwfD(2,3)[OF assms(1)] tree_at_adr[of "nodeH st" l] by (simp_all add: Nd)
  have hw: "hwf st (plug [FL a k v w r] l)" using assms(1) by (simp add: Nd)
  show ?thesis
    using searchInsert_zdown[OF hw, of x D u 0] assms(2) t by (simp add: Nd)
qed

section \<open>Insertion\<close>

lemma map_of_context:
  assumes "bst (plug E u)" and "on_path x E" and "map_of ls = (map_of (leaves u))(x := r)"
  shows "map_of (lctx E @ ls @ rctx E) = (map_of (leaves (plug E u)))(x := if r = None then None else r)"
proof -
  have "x \<notin> fst ` set (lctx E)" "x \<notin> fst ` set (rctx E)"
    using bst_plug_lctx[OF assms(1,2)] bst_plug_rctx[OF assms(1,2)] by auto
  then have "map_of (lctx E) x = None" "map_of (rctx E) x = None" by (simp_all add: map_of_eq_None_iff)
  then show ?thesis
    by (auto simp: leaves_plug map_add_def assms(3) fun_eq_iff split: option.splits)
qed

text \<open>
  Replacing the leaf that a search for \<open>x\<close> ends at by a tree of the same path weight whose keys
  are \<open>x\<close> and keys of the leaf.
\<close>

lemma chrom_inner_replace:
  assumes ci: "chrom_inner nk (plug E u)" and op: "on_path x E" and x: "x \<noteq> nk"
    and t: "bst t" "set (lkeys t) \<subseteq> insert x (set (lkeys u))" "ikeys t \<subseteq> insert x (set (lkeys u))"
    and w: "E = [] \<Longrightarrow> wt t = 1 \<and> (\<exists>n. pathw t n)" "\<And>m. E \<noteq> [] \<Longrightarrow> pathw u m \<Longrightarrow> pathw t m"
  shows "chrom_inner nk (plug E t)"
proof -
  have b: "bst (plug E t)"
    using bst_plug_replace[OF _ t(1) op t(2)] ci by (simp add: chrom_inner_def)
  have nk: "nk \<notin> set (lkeys u)" "nk \<notin> set (map fst (lctx E))" "nk \<notin> set (map fst (rctx E))" "nk \<notin> cikeys E"
    using ci by (auto simp: chrom_inner_def leaves_plug ikeys_plug)
  have k: "nk \<notin> set (lkeys (plug E t))" "nk \<notin> ikeys (plug E t)"
    using nk t(2,3) x by (auto simp: leaves_plug ikeys_plug)
  have "(\<exists>n. pathw (plug E t) n) \<and> wt (plug E t) = 1"
  proof (cases "E = []")
    case True
    then show ?thesis using w(1) by simp
  next
    case False
    obtain n where n: "pathw (plug E u) n" using ci unfolding chrom_inner_def by blast
    obtain m where m: "pathw u m" "\<And>t'. pathw t' m \<Longrightarrow> pathw (plug E t') n"
      by (rule pathw_plug[OF n]) (rule that)
    have "wt (plug E t) = wt (plug E u)" using wt_plug_Cons[OF False] by simp
    then show ?thesis using m(2)[OF w(2)[OF False m(1)]] ci by (auto simp: chrom_inner_def)
  qed
  then show ?thesis using b k by (simp add: chrom_inner_def)
qed

lemma chrom_leaf_replace:
  assumes ch: "chrom nk T" and fl: "found_leaf x T = (D, u)" and x: "x \<noteq> nk" "tkey u = x"
  shows "chrom nk (plug D (Lf a x v (wt u))) \<and>
    map_of (contents (plug D (Lf a x v (wt u)))) = (map_of (contents T))(x \<mapsto> v)"
  using ch fl
proof (cases rule: found_leaf_split)
  case (inner E ra va b v')
  have lf: "is_leaf u" using found_leaf_plug[OF fl] by blast
  have ci: "chrom_inner nk (plug E (Lf a x v (wt u)))"
    using lf x(2) inner(3) by (intro chrom_inner_replace[OF inner(3,2) x(1)]; cases u; auto simp: chrom_inner_def)
  have c': "chrom nk (plug D (Lf a x v (wt u)))" using ci by (simp add: inner(1) plug_append)
  have b: "bst (plug E u)" using inner(3) by (simp add: chrom_inner_def)
  have m: "map_of [(x, v)] = (map_of (leaves u))(x := Some v)" using lf x(2) by (cases u) auto
  have "map_of (contents (plug D (Lf a x v (wt u)))) = (map_of (contents T))(x \<mapsto> v)"
    using map_of_context[OF b inner(2) m] by (simp add: inner(1,4) plug_append leaves_plug)
  with c' show ?thesis ..
qed (use x in auto)

lemma chrom_leaf_insert:
  assumes ch: "chrom nk T" and fl: "found_leaf x T = (D, u)" and x: "x \<noteq> nk" "tkey u \<noteq> x"
    and tp: "tp \<longleftrightarrow> length D \<le> 1"
  shows "chrom nk (plug D (leaf_insert nk tp x v as u)) \<and>
    map_of (contents (plug D (leaf_insert nk tp x v as u))) = (map_of (contents T))(x \<mapsto> v)"
  using ch fl
proof (cases rule: found_leaf_split)
  case (empty a b)
  then show ?thesis
    using tp x(1) by (auto simp: leaf_insert_def Let_def chrom_inner_def)
next
  case (inner E a va b v')
  let ?S = "leaf_insert nk tp x v as u"
  have lf: "is_leaf u" using found_leaf_plug[OF fl] by blast
  then obtain ua uk uv uw where u: "u = Lf ua uk uv uw" by (cases u) auto
  have k: "uk \<noteq> nk" using inner(3) by (auto simp: u chrom_inner_def leaves_plug)
  have x2: "uk \<noteq> x" "\<not> x < uk \<Longrightarrow> uk < x" using x(2) by (auto simp: u)
  have b: "bst (plug E u)" using inner(3) by (simp add: chrom_inner_def)
  have S: "bst ?S" "set (lkeys ?S) \<subseteq> insert x (set (lkeys u))" "ikeys ?S \<subseteq> insert x (set (lkeys u))"
    using x2 k by (simp_all add: leaf_insert_def Let_def u)
  have w: "E = [] \<Longrightarrow> wt ?S = 1 \<and> (\<exists>n. pathw ?S n)" "\<And>m. E \<noteq> [] \<Longrightarrow> pathw u m \<Longrightarrow> pathw ?S m"
  proof -
    show "wt ?S = 1 \<and> (\<exists>n. pathw ?S n)" if "E = []"
      using tp that by (auto simp: leaf_insert_def Let_def inner(1) intro!: exI[of _ 2])
    show "pathw ?S m" if "E \<noteq> []" "pathw u m" for m
      using tp that by (cases E) (simp_all add: leaf_insert_def Let_def inner(1) u)
  qed
  have "chrom_inner nk (plug E ?S)" by (rule chrom_inner_replace[OF inner(3,2) x(1) S w])
  then have c': "chrom nk (plug D ?S)" by (simp add: inner(1) plug_append)
  have m: "map_of (leaves ?S) = (map_of (leaves u))(x := Some v)"
    using x2 by (auto simp: leaf_insert_def Let_def u fun_eq_iff)
  have "map_of (contents (plug D ?S)) = (map_of (contents T))(x \<mapsto> v)"
    using map_of_context[OF b inner(2) m] by (simp add: inner(1,4) plug_append leaves_plug)
  with c' show ?thesis ..
qed

lemma leaf_sentinel:
  assumes hw: "hwf st T" and ch: "chrom (NO_KEY st) T" and fl: "found_leaf x T = (D, u)"
  shows "IS_SENTINEL st (adr u) (fst (hole (root st) D)) \<longleftrightarrow> length D \<le> 1"
  using ch fl
proof (cases rule: found_leaf_split)
  case (empty a v)
  then show ?thesis using hwfD(5)[OF hw] by (simp add: IS_SENTINEL_def)
next
  case (inner E a va b v')
  have T: "plug D u = T" "is_leaf u" using found_leaf_plug[OF fl] by blast+
  have t: "tree_at (nodeH st) u" "ctx_at (nodeH st) D (adr u)"
    using hwfD(2)[OF hw] by (simp_all add: T(1)[symmetric] tree_at_plug)
  have "tkey u \<noteq> NO_KEY st"
    using inner(3) T(2) by (cases u) (auto simp: chrom_inner_def leaves_plug)
  moreover have "nkey st (adr u) = tkey u" using t(1) by (rule tree_at_sel)
  moreover have "nkey st (fst (hole (root st) D)) = fkey (hd D)"
    using ctx_at_fadr[OF t(2), of "hd D"] by (cases E) (simp_all add: inner(1))
  moreover have "fkey (hd D) = NO_KEY st \<longleftrightarrow> E = []"
    using chrom_inner_sub(2)[OF inner(3), of "hd E"] by (cases E) (auto simp: inner(1))
  ultimately show ?thesis by (auto simp: IS_SENTINEL_def inner(1))
qed

text \<open>
  What one attempt of \<open>updateInsert\<close> does on a chromatic tree: it succeeds, the stack holds the
  nodes above the parent of the leaf, and the leaf is replaced or the state is unchanged.
\<close>

definition leaf_updated :: "'k::linorder \<Rightarrow> ('k, 'v) Chromatic \<Rightarrow> ('k, 'v) ct \<Rightarrow> 'v update_out \<Rightarrow>
    ('k, 'v) Chromatic \<Rightarrow> ('k, 'v) ct \<Rightarrow> bool" where
  "leaf_updated x st T out st' T' \<longleftrightarrow> (case found_leaf x T of (D, u) \<Rightarrow>
     node_stack out = map fadr (tl D) @ [root st] \<and>
     (st' = st \<and> T' = T \<or> (\<exists>S'. T' = plug D S' \<and> grown D u S' 0 st st')))"

lemma updateInsert_spec:
  fixes st :: "('k::linorder, 'v) Chromatic"
  assumes hw: "hwf st T" and ch: "chrom (NO_KEY st) T" and rd: "ready st tid" and x: "x \<noteq> NO_KEY st"
    and out: "node_stack out = []"
  shows "\<exists>out' st' T'. updateInsert tid x v onlyIfAbsent out st = Some (True, out', st') \<and>
    hwf st' T' \<and> chrom (NO_KEY st) T' \<and> leaf_updated x st T out' st' T' \<and>
    result out' = (case map_of (contents T) x of None \<Rightarrow> NO_VALUE st | Some b \<Rightarrow> b) \<and>
    map_of (contents T') = (if onlyIfAbsent \<and> map_of (contents T) x \<noteq> None then map_of (contents T)
       else (map_of (contents T))(x \<mapsto> v))"
proof -
  obtain D u where fl: "found_leaf x T = (D, u)" by (meson surj_pair)
  have T: "plug D u = T" "is_leaf u" using found_leaf_plug[OF fl] by blast+
  note lk = found_leaf_lookup[OF ch fl x]
  have hw': "hwf st (plug D u)" using hw T(1) by simp
  let ?p = "fst (hole (root st) D)" and ?out = "out\<lparr>node_stack := map fadr (tl D) @ [root st]\<rparr>"
  obtain cnt where "updateInsert tid x v onlyIfAbsent out st =
      (if x = nkey st (adr u)
       then if onlyIfAbsent then Some (True, ?out\<lparr>result := nval st (adr u)\<rparr>, st)
            else Some (insertReplace tid x v ?p (adr u) ?out st)
       else Some (insertNew tid x v ?p (adr u) cnt ?out st))"
    using updateInsert_search[OF hw fl] out unfolding updateInsert_def by (auto simp: Let_def)
  moreover have "nkey st (adr u) = tkey u" "nval st (adr u) = tval u"
    using hwfD(2)[OF hw'] by (simp_all add: tree_at_plug tree_at_sel)
  ultimately have eq: "updateInsert tid x v onlyIfAbsent out st =
      (if x = tkey u
       then if onlyIfAbsent then Some (True, ?out\<lparr>result := tval u\<rparr>, st)
            else Some (insertReplace tid x v ?p (adr u) ?out st)
       else Some (insertNew tid x v ?p (adr u) cnt ?out st))" by simp
  consider (keep) "x = tkey u" onlyIfAbsent | (replace) "x = tkey u" "\<not> onlyIfAbsent" | (new) "tkey u \<noteq> x"
    by blast
  then show ?thesis
  proof cases
    case keep
    then show ?thesis using eq hw ch lk fl by (auto simp: leaf_updated_def)
  next
    case replace
    let ?S = "Lf (allocatedNodes st tid 0) x v (wt u)"
    obtain st' where "insertReplace tid x v ?p (adr u) ?out st = (True, ?out\<lparr>result := tval u\<rparr>, st')"
      "hwf st' (plug D ?S)" "grown D u ?S 0 st st'"
      using insertReplace_spec[OF hw' rd T(2) x] by blast
    then show ?thesis
      using eq replace lk fl chrom_leaf_replace[OF ch fl x, of _ v]
      by (intro exI[of _ "?out\<lparr>result := tval u\<rparr>"] exI[of _ st'] exI[of _ "plug D ?S"])
        (auto simp: leaf_updated_def)
  next
    case new
    let ?tp = "IS_SENTINEL st (adr u) ?p"
    let ?S = "leaf_insert (NO_KEY st) ?tp x v (allocatedNodes st tid) u"
      and ?o = "?out\<lparr>result := NO_VALUE st, shouldRebalance := cnt > allowedViolations st\<rparr>"
    obtain st' where "insertNew tid x v ?p (adr u) cnt ?out st = (True, ?o, st')"
      "hwf st' (plug D ?S)" "grown D u ?S 0 st st'"
      using insertNew_spec[OF hw' rd x refl] by blast
    then show ?thesis
      using eq new lk fl chrom_leaf_insert[OF ch fl x new leaf_sentinel[OF hw ch fl], of v]
      by (intro exI[of _ ?o] exI[of _ st'] exI[of _ "plug D ?S"]) (auto simp: leaf_updated_def)
  qed
qed

lemma insertLoop_spec:
  fixes st :: "('k::linorder, 'v) Chromatic"
  assumes "hwf st T" and "chrom (NO_KEY st) T" and "ready st tid" and "x \<noteq> NO_KEY st"
  shows "\<exists>out' st' T'. insertLoop tid x v onlyIfAbsent out st = Some (out', st') \<and>
    hwf st' T' \<and> chrom (NO_KEY st) T' \<and> leaf_updated x st T out' st' T' \<and>
    result out' = (case map_of (contents T) x of None \<Rightarrow> NO_VALUE st | Some b \<Rightarrow> b) \<and>
    map_of (contents T') = (if onlyIfAbsent \<and> map_of (contents T) x \<noteq> None then map_of (contents T)
       else (map_of (contents T))(x \<mapsto> v))"
proof -
  have "node_stack (out\<lparr>node_stack := []\<rparr>) = []" by simp
  from updateInsert_spec[OF assms this, of v onlyIfAbsent] show ?thesis
    by (subst insertLoop.simps) auto
qed

section \<open>Deletion\<close>

lemma frame_reads:
  assumes "hwf st (plug (f # D) u)"
  shows "nleft st (fadr f) = adr (if is_FL f then u else fsib f)"
    "nright st (fadr f) = adr (if is_FL f then fsib f else u)" "nweight st (fadr f) = fwt f"
    "tree_at (nodeH st) (fsib f)" "tree_at (nodeH st) u" "adr u \<noteq> adr (fsib f)" "adr u \<noteq> fadr f"
    "fadr f \<noteq> adr (fsib f)" "set (addrs u) \<inter> set (addrs (fsib f)) = {}"
    "fadr f \<notin> set (addrs (fsib f))" "distinct (addrs (fsib f))" "fadr f \<notin> set (addrs u)"
proof -
  note h = hwfD[OF assms]
  have t: "tree_at (nodeH st) (fill f u)" using h(2) by (simp add: tree_at_plug)
  then show "nleft st (fadr f) = adr (if is_FL f then u else fsib f)"
    "nright st (fadr f) = adr (if is_FL f then fsib f else u)" "nweight st (fadr f) = fwt f"
    "tree_at (nodeH st) (fsib f)" "tree_at (nodeH st) u"
    by (cases f; simp)+
  have "distinct (addrs (fill f u))" using h(7) by (simp add: distinct_addrs_plug)
  then show d: "set (addrs u) \<inter> set (addrs (fsib f)) = {}" "fadr f \<notin> set (addrs (fsib f))"
    "distinct (addrs (fsib f))" "fadr f \<notin> set (addrs u)"
    by (simp_all add: distinct_addrs_fill)
  show "adr u \<noteq> adr (fsib f)" "adr u \<noteq> fadr f" "fadr f \<noteq> adr (fsib f)"
    using d adr_in_addrs[of u] adr_in_addrs[of "fsib f"] by (metis disjoint_iff)+
qed

lemma eraseLeaf_spec:
  fixes st :: "('k, 'v) Chromatic"
  assumes hw: "hwf st (plug (f # D) u)" and rd: "ready st tid"
    and tp: "tp = IS_SENTINEL st (fadr f) (fst (hole (root st) D))"
    and S': "S' = copy (allocatedNodes st tid 0) (if tp then 1 else fwt f + wt (fsib f)) (fsib f)"
  shows "\<exists>st'. eraseLeaf tid (fst (hole (root st) D)) (fadr f) (adr u) cnt out st =
      (True, out\<lparr>result := nval st (adr u), shouldRebalance := cnt > allowedViolations st\<rparr>, st') \<and>
    hwf st' (plug D S') \<and> rebuilt D (fill f u) S' st st'"
proof -
  define gp p l s where d: "gp = fst (hole (root st) D)" "p = fadr f" "l = adr u" "s = adr (fsib f)"
  define a w where a: "a = allocatedNodes st tid 0" "w = (if tp then 1 else fwt f + wt (fsib f))"
  have hw': "hwf st (plug D (fill f u))" using hw by simp
  note h = hwfD[OF hw'] and fr = frame_reads[OF hw] and sp = spare_facts[OF hw' rd]
  have gp: "llx gp st = ((llx_value st gp, nleft st gp, nright st gp), st)" "llx_value st gp \<noteq> NULL"
    "p \<noteq> nleft st gp \<Longrightarrow> p = nright st gp" "(gp, p = nleft st gp) = hole (root st) D"
    using parent_reads[OF hw' d(1)] by (simp_all add: d)
  have live: "live_node st p" "live_node st s"
    using h(10) by (auto simp: set_addrs_plug set_addrs_fill d)
  have ps: "llx p st = ((llx_value st p, nleft st p, nright st p), st)" "llx_value st p \<noteq> NULL"
    "llx s st = ((llx_value st s, nleft st s, nright st s), st)" "llx_value st s \<noteq> NULL"
    using live by (simp_all only: llx_live llx_value_nonnull not_False_eq_True)
  have sib: "(if l = nleft st p then nright st p else nleft st p) = s"
    using fr(1,2,6) by (auto simp: d)
  have c: "\<not> (p \<noteq> nleft st gp \<and> p \<noteq> nright st gp)" "\<not> (l \<noteq> nleft st p \<and> l \<noteq> nright st p)"
    using gp(3) fr(1,2) by (auto simp: d)
  note sel = tree_at_sel[OF fr(4), folded d]
  define st1 where "st1 = initializeNode a (tkey (fsib f)) (tval (fsib f)) w (ladr (fsib f)) (radr (fsib f)) st"
  have ext: "pool_ext tid st st1" unfolding st1_def a by (rule initializeNode_ext) simp_all
  have aS: "a \<notin> set (addrs (fill f u))" "a \<noteq> NULL" using sp(1,2)[of 0] by (simp_all add: a)
  have sub: "subs_at (nodeH st1) (fsib f)"
    using fr(4) aS(1) unfolding st1_def by (cases "fsib f") (auto simp: heap_simps set_addrs_fill)
  have "\<exists>st'. scx tid TYPE_DEL [gp, p, s, l] [llx_value st gp, llx_value st p, llx_value st s]
        (hole (root st) D) (adr S') st1 = (True, st') \<and> hwf st' (plug D S') \<and> rebuilt D (fill f u) S' st st'"
    unfolding d(1)
  proof (rule scx_rebuild[OF hw' rd ext])
    show "[fst (hole (root st) D), p, s, l] = fst (hole (root st) D) # adr (fill f u) # [s, l]"
      by (simp add: d)
    show "distinct (adr (fill f u) # [s, l])" "set [s, l] \<subseteq> set (addrs (fill f u))"
      using fr(6-8) by (auto simp: d set_addrs_fill)
    show "tree_at (nodeH st1) S'"
      using sub aS(2) unfolding S' a[symmetric] by (simp add: tree_at_copy st1_def heap_simps)
    show "distinct (addrs S')"
      using aS(1) fr(11) set_tl_addrs[of "fsib f"] distinct_addrs_tl[of "fsib f"]
      by (auto simp: S' a[symmetric] set_addrs_fill)
    show "set (addrs S') \<subseteq> (set (addrs (fill f u)) - set (adr (fill f u) # [s, l])) \<union>
         {allocatedNodes st tid i |i. i < NUM_INSERTED ! TYPE_DEL}"
      using fr(9,10) set_tl_addrs[of "fsib f"] distinct_addrs_tl[OF fr(11)] adr_in_addrs[of u]
      by (auto simp: S' set_addrs_fill table_defs d simp del: adr_in_addrs)
    show "new_node st st1 (allocatedNodes st tid i)" if "i < NUM_INSERTED ! TYPE_DEL" for i
      using that by (simp add: table_defs st1_def a(1) initializeNode_new[OF pool_ext_refl])
    show "[llx_value st (fst (hole (root st) D)), llx_value st p, llx_value st s] ! j =
        llx_value st ([fst (hole (root st) D), p, s, l] ! j)" if "j < NUM_TO_FREEZE ! TYPE_DEL" for j
      using that by (auto simp: table_defs less_Suc_eq numeral_3_eq_3)
  qed (simp_all add: table_defs)
  then obtain st' where st': "scx tid TYPE_DEL [gp, p, s, l] [llx_value st gp, llx_value st p, llx_value st s]
        (gp, p = nleft st gp) a st1 = (True, st')" "hwf st' (plug D S')" "rebuilt D (fill f u) S' st st'"
    unfolding gp(4) by (auto simp: S' a)
  have av: "allowedViolations st1 = allowedViolations st" by (simp add: st1_def frame_simps)
  have "eraseLeaf tid gp p l cnt out st =
      (case scx tid TYPE_DEL [gp, p, s, l] [llx_value st gp, llx_value st p, llx_value st s]
          (gp, p = nleft st gp) a st1 of (ok, st') \<Rightarrow>
         (ok, out\<lparr>result := nval st l, shouldRebalance := cnt > allowedViolations st1\<rparr>, st'))"
    unfolding eraseLeaf_def gp(1) ps(1) prod.case if_not_P[OF gp(2)] if_not_P[OF ps(2)] if_not_P[OF c(1)]
      if_not_P[OF c(2)] Let_def sib ps(3) if_not_P[OF ps(4)] if_not_P[OF protect_succeeds(2)]
    by (simp add: sel st1_def a tp d fr(3) tree_at_sel[OF fr(4)] split: prod.splits)
  then show ?thesis using st' by (simp add: d av)
qed

lemma frame_sentinel:
  assumes hw: "hwf st T" and ch: "chrom (NO_KEY st) T" and fl: "found_leaf x T = (f # D, u)"
  shows "IS_SENTINEL st (fadr f) (fst (hole (root st) D)) \<longleftrightarrow> length D \<le> 1"
proof (cases D)
  case Nil
  then show ?thesis using hwfD(5)[OF hw] by (simp add: IS_SENTINEL_def)
next
  case (Cons g D')
  have T: "plug D (fill f u) = T" using found_leaf_plug[OF fl] by simp
  have "\<not> is_leaf (fill f u)" by (cases f) auto
  then show ?thesis
    using sentinel_iff[of st D "fill f u"] hw ch T by (auto simp: Cons)
qed

text \<open>The subtree of the deleted leaf's parent is replaced by a copy of the leaf's sibling.\<close>

lemma chrom_inner_erase:
  assumes ci: "chrom_inner nk (plug E (fill f u))" and u: "is_leaf u" "tkey u = x"
    and op: "on_path x (f # E)"
    and w: "w = (if E = [] then 1 else fwt f + wt (fsib f))"
  shows "chrom_inner nk (plug E (copy a w (fsib f)))"
    "map_of (leaves (plug E (copy a w (fsib f)))) = (map_of (leaves (plug E (fill f u))))(x := None)"
proof -
  let ?s = "fsib f" and ?S = "copy a w (fsib f)"
  have b: "bst (plug E (fill f u))" using ci by (simp add: chrom_inner_def)
  have bs: "bst ?s" using bst_plug_inner[OF b] by (cases f) auto
  have nk: "nk \<notin> set (lkeys ?s)" "nk \<notin> ikeys ?s" "nk \<notin> set (map fst (lctx E))" "nk \<notin> set (map fst (rctx E))"
    "nk \<notin> cikeys E"
    using ci by (cases f; auto simp: chrom_inner_def leaves_plug ikeys_plug)+
  have b': "bst (plug E ?S)"
    using bst_plug_same_keys[OF b, of ?S] bs by (cases f) auto
  obtain n where n: "pathw (plug E (fill f u)) n" using ci unfolding chrom_inner_def by blast
  obtain m where m: "pathw (fill f u) m" "\<And>t'. pathw t' m \<Longrightarrow> pathw (plug E t') n"
    by (rule pathw_plug[OF n]) (rule that)
  have ps: "pathw ?s (m - fwt f)" "0 \<le> fwt f" using m(1) by (cases f; simp)+
  have w1: "0 \<le> w" "is_leaf ?s \<Longrightarrow> 1 \<le> w"
    using pathw_wt[OF ps(1)] ps by (auto simp: w) (cases ?s; simp)
  have ps': "pathw ?S (m - fwt f - wt ?s + w)" by (rule pathw_copy[OF ps(1) w1])
  have "(\<exists>n. pathw (plug E ?S) n) \<and> wt (plug E ?S) = 1"
  proof (cases "E = []")
    case True
    then show ?thesis using ps' by (auto simp: w)
  next
    case False
    then have "pathw ?S m" using ps' by (simp add: w algebra_simps)
    moreover have "wt (plug E ?S) = wt (plug E (fill f u))" using wt_plug_Cons[OF False] by simp
    ultimately show ?thesis using m(2) ci by (auto simp: chrom_inner_def)
  qed
  then show "chrom_inner nk (plug E ?S)"
    using b' nk by (auto simp: chrom_inner_def leaves_plug ikeys_plug)
  have xs: "x \<notin> fst ` set (leaves ?s)"
    using bst_plug_inner[OF b] op by (cases f) fastforce+
  have lu: "leaves u = [(x, tval u)]" using u by (cases u) auto
  have "map_of (leaves ?S) = (map_of (leaves (fill f u)))(x := None)"
    using xs lu by (cases f) (auto simp: fun_eq_iff map_add_def map_of_eq_None_iff split: option.splits)
  from map_of_context[OF b _ this] op
  show "map_of (leaves (plug E ?S)) = (map_of (leaves (plug E (fill f u))))(x := None)"
    by (simp add: leaves_plug)
qed

lemma chrom_leaf_erase:
  assumes ch: "chrom nk T" and fl: "found_leaf x T = (f # D, u)" and x: "x \<noteq> nk" "tkey u = x"
    and S': "S' = copy a (if length D \<le> 1 then 1 else fwt f + wt (fsib f)) (fsib f)"
  shows "chrom nk (plug D S') \<and> map_of (contents (plug D S')) = (map_of (contents T))(x := None)"
  using ch fl
proof (cases rule: found_leaf_split)
  case (inner E a va b v')
  have lf: "is_leaf u" using found_leaf_plug[OF fl] by blast
  show ?thesis
  proof (cases E)
    case Nil
    have "leaves u = [(x, tval u)]" using lf x(2) by (cases u) auto
    then show ?thesis using inner by (auto simp: Nil S' fun_eq_iff)
  next
    case (Cons g E')
    then have D: "f = g" "D = E' @ [FL a nk va 1 (Lf b nk v' 1)]" using inner(1) by auto
    have ci: "chrom_inner nk (plug E' (fill f u))" using inner(3) by (simp add: Cons D)
    have op: "on_path x (f # E')" using inner(2) by (simp add: Cons D)
    have "(if length D \<le> 1 then 1 else fwt f + wt (fsib f)) = (if E' = [] then 1 else fwt f + wt (fsib f))"
      by (simp add: D)
    from chrom_inner_erase[OF ci lf x(2) op this] show ?thesis
      by (simp add: D inner(4) Cons S' plug_append)
  qed
qed simp

definition leaf_erased :: "'k::linorder \<Rightarrow> ('k, 'v) Chromatic \<Rightarrow> ('k, 'v) ct \<Rightarrow> 'v update_out \<Rightarrow>
    ('k, 'v) Chromatic \<Rightarrow> ('k, 'v) ct \<Rightarrow> bool" where
  "leaf_erased x st T out st' T' \<longleftrightarrow> (case found_leaf x T of (D, u) \<Rightarrow>
     node_stack out = map fadr (tl D) @ [root st] \<and>
     (st' = st \<and> T' = T \<or> (\<exists>f D' a w. D = f # D' \<and> T' = plug D' (copy a w (fsib f)) \<and>
        a \<notin> set (addrs T) \<and> rebuilt D' (fill f u) (copy a w (fsib f)) st st')))"

lemma updateErase_empty:
  assumes "hwf st (Lf a k v w)"
  shows "updateErase tid x out st = Some (True, out\<lparr>node_stack := root st # node_stack out\<rparr>, st)"
  using hwfD(2,3)[OF assms] by (simp add: updateErase_def Let_def)

lemma updateErase_spec:
  fixes st :: "('k::linorder, 'v) Chromatic"
  assumes hw: "hwf st T" and ch: "chrom (NO_KEY st) T" and rd: "ready st tid" and x: "x \<noteq> NO_KEY st"
    and out: "node_stack out = []"
  shows "\<exists>out' st' T'. updateErase tid x out st = Some (True, out', st') \<and>
    hwf st' T' \<and> chrom (NO_KEY st) T' \<and> leaf_erased x st T out' st' T' \<and>
    result out' = (case map_of (contents T) x of
      None \<Rightarrow> if is_leaf T then result out else NO_VALUE st | Some b \<Rightarrow> b) \<and>
    map_of (contents T') = (map_of (contents T))(x := None)"
proof (cases T)
  case (Lf a k v w)
  then show ?thesis using updateErase_empty[of st a k v w tid x out] hw ch out by (auto simp: leaf_erased_def)
next
  case (Nd a k v w l r)
  obtain D u where fl: "found_leaf x T = (D, u)" by (meson surj_pair)
  have T: "plug D u = T" "is_leaf u" using found_leaf_plug[OF fl] by blast+
  note lk = found_leaf_lookup[OF ch fl x]
  have hw1: "hwf st (plug [FL a k v w r] l)" using hw by (simp add: Nd)
  let ?out = "out\<lparr>node_stack := map fadr (tl D) @ [root st]\<rparr>"
  have t: "nleft st (root st) = a" "nleft st a = adr l" "adr l \<noteq> NULL"
    using hwfD(2,3)[OF hw] tree_at_adr[of "nodeH st" l] by (simp_all add: Nd)
  have u: "nkey st (adr u) = tkey u" "nval st (adr u) = tval u"
    using hwfD(2)[OF hw] by (simp_all add: T(1)[symmetric] tree_at_plug tree_at_sel)
  obtain cnt where eq: "updateErase tid x out st =
      (if x \<noteq> tkey u then Some (True, ?out\<lparr>result := NO_VALUE st\<rparr>, st)
       else Some (eraseLeaf tid (fst (hole (root st) (tl D))) (fst (hole (root st) D)) (adr u) cnt ?out st))"
    using searchErase_zdown[OF hw1, of x D u 0] fl t out u unfolding updateErase_def
    by (auto simp: Let_def Nd)
  show ?thesis
  proof (cases "x = tkey u")
    case False
    then have n: "map_of (contents T) x = None" using lk by simp
    then show ?thesis
      using eq hw ch fl False
      by (intro exI[of _ "?out\<lparr>result := NO_VALUE st\<rparr>"] exI[of _ st] exI[of _ T])
        (simp add: leaf_erased_def fun_upd_idem, simp add: Nd)
  next
    case True
    have "D \<noteq> []" using zdown_suffix[of x "[FL a k v w r]" l D u] fl by (auto simp: Nd)
    then obtain f D' where D: "D = f # D'" by (cases D) auto
    let ?tp = "IS_SENTINEL st (fadr f) (fst (hole (root st) D'))" and ?a = "allocatedNodes st tid 0"
    let ?w = "if ?tp then 1 else fwt f + wt (fsib f)"
    let ?S = "copy ?a ?w (fsib f)"
      and ?o = "?out\<lparr>result := tval u, shouldRebalance := cnt > allowedViolations st\<rparr>"
    have hw': "hwf st (plug (f # D') u)" using hw T(1) by (simp add: D)
    obtain st' where st': "eraseLeaf tid (fst (hole (root st) D')) (fadr f) (adr u) cnt ?out st = (True, ?o, st')"
      "hwf st' (plug D' ?S)" "rebuilt D' (fill f u) ?S st st'"
      using eraseLeaf_spec[OF hw' rd refl refl] unfolding u(2) by blast
    have a: "?a \<notin> set (addrs T)"
      using hwfD(10)[OF hw, of ?a] live_not_spare[of st ?a tid 0] rd by auto
    have up: "updateErase tid x out st = Some (True, ?o, st')"
      unfolding eq using True st'(1) by (simp add: D)
    have len: "?tp \<longleftrightarrow> length D' \<le> 1" by (rule frame_sentinel[OF hw ch fl[unfolded D]])
    have cm: "chrom (NO_KEY st) (plug D' ?S)" "map_of (contents (plug D' ?S)) = (map_of (contents T))(x := None)"
      using chrom_leaf_erase[OF ch fl[unfolded D] x True[symmetric], of ?S ?a] unfolding len by blast+
    have "leaf_erased x st T ?o st' (plug D' ?S)"
      unfolding leaf_erased_def fl prod.case D using a st'(3)
      by (intro conjI disjI2 exI) (simp, rule refl, rule refl)
    then show ?thesis using up st'(2) cm lk True by (intro exI[of _ ?o] exI[of _ st'] exI[of _ "plug D' ?S"]) simp
  qed
qed

lemma eraseLoop_spec:
  fixes st :: "('k::linorder, 'v) Chromatic"
  assumes "hwf st T" and "chrom (NO_KEY st) T" and "ready st tid" and "x \<noteq> NO_KEY st"
  shows "\<exists>out' st' T'. eraseLoop tid x out st = Some (out', st') \<and>
    hwf st' T' \<and> chrom (NO_KEY st) T' \<and> leaf_erased x st T out' st' T' \<and>
    result out' = (case map_of (contents T) x of
      None \<Rightarrow> if is_leaf T then result out else NO_VALUE st | Some b \<Rightarrow> b) \<and>
    map_of (contents T') = (map_of (contents T))(x := None)"
proof -
  have o: "node_stack (out\<lparr>node_stack := []\<rparr>) = []" "result (out\<lparr>node_stack := []\<rparr>) = result out"
    by simp_all
  from updateErase_spec[OF assms o(1)] show ?thesis
    unfolding o(2) by (subst eraseLoop.simps) auto
qed

end
