(* ===== verification/Version_Propagation.thy ===== *)
theory Version_Propagation
  imports Chromatic_Update
begin

text \<open>
  \<open>refresh\<close>, \<open>propagate\<close> and \<open>findNode\<close> of \<open>chromatic_impl.h\<close>: after an update the versions of the
  nodes on the path to the key are rebuilt bottom-up, up to the root.  The lemmas show that both
  loops end, also when some of the stacked nodes have been replaced by a rebalancing step, and that
  afterwards every node of the tree, and the root, has a version tree that mirrors its subtree.
\<close>

section \<open>refresh\<close>

text \<open>
  The call that installs the new version, from the allocation to the compare-and-swap.  The new
  version has the key of \<open>x\<close> and the sum of the children's sums; the root has only a left child.
  A replaced version goes to \<open>toRetire\<close>, a version that was not installed is freed.
\<close>

definition publishVersion ::
    "nat \<Rightarrow> addr \<Rightarrow> addr \<Rightarrow> addr \<Rightarrow> addr \<Rightarrow> addr \<Rightarrow> addr list option \<Rightarrow> ('k, 'v) Chromatic \<Rightarrow>
     bool \<times> addr list option \<times> ('k, 'v) Chromatic" where
  "publishVersion tid x oldVer leftver right1 rightver toRetire st =
    (let newVer = allocatedVersions st tid 0;
         st = (if right1 \<noteq> NULL
               then initializeVersion newVer (nkey st x)
                      (vsum (versionH st leftver) + vsum (versionH st rightver)) leftver rightver st
               else initializeVersion newVer (nkey st x) (vsum (versionH st leftver)) leftver NULL st);
         st = REPLACE_ALLOCATED_VERSION tid 0 st
     in if nversion st x = oldVer
        then (True, if oldVer \<noteq> NULL then map_option (\<lambda>vs. vs @ [oldVer]) toRetire else toRetire,
              st\<lparr>nodeH := (nodeH st)(x := (nodeH st x)\<lparr>version := newVer\<rparr>)\<rparr>)
        else (False, toRetire, st\<lparr>freedVersions := newVer # freedVersions st\<rparr>))"

text \<open>
  \<open>refresh\<close> and its two loops that read a child together with the child's version, and refresh a
  child without a version first.  The three call each other, so they are one function on the call:
  \<open>ChildVersion x True\<close> is the loop on the left child of \<open>x\<close>, \<open>ChildVersion x False\<close> the one on the
  right child.  The second and third component of the result are the child and its version.  A null
  pointer passed as \<open>toRetire\<close> is \<open>None\<close>.
\<close>

datatype refresh_call = Refresh addr | ChildVersion addr bool

partial_function (option) refresh_run ::
    "nat \<Rightarrow> refresh_call \<Rightarrow> addr list option \<Rightarrow> ('k, 'v) Chromatic \<Rightarrow>
     ((bool \<times> addr \<times> addr) \<times> addr list option \<times> ('k, 'v) Chromatic) option" where
  "refresh_run tid call toRetire st =
    (case call of
       Refresh x \<Rightarrow>
         let oldVer = nversion st x in
         if toRetire = None \<and> oldVer \<noteq> NULL then Some ((True, NULL, NULL), toRetire, st)
         else if nleft st x = NULL then Some ((True, NULL, NULL), toRetire, st)
         else do {
           ((_, left1, leftver), toRetire, st) \<leftarrow> refresh_run tid (ChildVersion x True) toRetire st;
           ((_, right1, rightver), toRetire, st) \<leftarrow> refresh_run tid (ChildVersion x False) toRetire st;
           let (res, toRetire, st) = publishVersion tid x oldVer leftver right1 rightver toRetire st
           in Some ((res, NULL, NULL), toRetire, st)
         }
     | ChildVersion x onleft \<Rightarrow>
         let child = get_field st (x, onleft);
             ver = (if child = NULL then NULL else nversion st child)
         in do {
           (ver, toRetire, st) \<leftarrow>
             (if ver = NULL \<and> child \<noteq> NULL
              then do {
                (_, toRetire, st) \<leftarrow> refresh_run tid (Refresh child) toRetire st;
                Some (nversion st child, toRetire, st)
              }
              else Some (ver, toRetire, st));
           if child \<noteq> get_field st (x, onleft) then refresh_run tid (ChildVersion x onleft) toRetire st
           else Some ((True, child, ver), toRetire, st)
         })"

definition refresh ::
    "nat \<Rightarrow> addr \<Rightarrow> addr list option \<Rightarrow> ('k, 'v) Chromatic \<Rightarrow>
     (bool \<times> addr list option \<times> ('k, 'v) Chromatic) option" where
  "refresh tid x toRetire st =
    do { ((res, _, _), toRetire, st) \<leftarrow> refresh_run tid (Refresh x) toRetire st; Some (res, toRetire, st) }"

section \<open>propagate\<close>

partial_function (option) findNode ::
    "addr \<Rightarrow> addr \<Rightarrow> ('k::linorder, 'v) Chromatic \<Rightarrow> bool option" where
  "findNode rt node st =
    (if rt = node then Some True
     else if vleft (versionH st rt) = NULL then Some False
     else findNode
       (if vkey (versionH st node) < vkey (versionH st rt) \<or> vkey (versionH st rt) = NO_KEY st
        then vleft (versionH st rt) else vright (versionH st rt)) node st)"

definition key_child :: "'k::linorder \<Rightarrow> addr \<Rightarrow> ('k, 'v) Chromatic \<Rightarrow> addr" where
  "key_child x c st = (if x < nkey st c \<or> nkey st c = NO_KEY st then nleft st c else nright st c)"

partial_function (option) descend ::
    "'k::linorder \<Rightarrow> addr \<Rightarrow> addr list \<Rightarrow> addr set \<Rightarrow> ('k, 'v) Chromatic \<Rightarrow> addr list option" where
  "descend x c stack visited st =
    (if c \<noteq> NULL \<and> nleft st c \<noteq> NULL \<and> c \<notin> visited
     then descend x (key_child x c st) (c # stack) visited st
     else Some stack)"

text \<open>The outer loop; taking the top of an empty stack is undefined in C++ and has no result here.\<close>

partial_function (option) propagateLoop ::
    "nat \<Rightarrow> 'k::linorder \<Rightarrow> addr set \<Rightarrow> addr list \<Rightarrow> addr list option \<Rightarrow> ('k, 'v) Chromatic \<Rightarrow>
     (addr list option \<times> ('k, 'v) Chromatic) option" where
  "propagateLoop tid x visited stack toRetire st =
    (if root st \<in> visited then Some (toRetire, st)
     else case stack of
       [] \<Rightarrow> None
     | c # _ \<Rightarrow> do {
         stack \<leftarrow> descend x (key_child x c st) stack visited st;
         (res, toRetire, st) \<leftarrow> refresh tid (hd stack) toRetire st;
         (toRetire, st) \<leftarrow>
           (if \<not> res
            then do { (_, toRetire, st) \<leftarrow> refresh tid (hd stack) toRetire st; Some (toRetire, st) }
            else Some (toRetire, st));
         propagateLoop tid x (insert (hd stack) visited) (tl stack) toRetire st
       })"

text \<open>
  The vector \<open>toRetire\<close> starts as a copy of the thread's \<open>versToRetire\<close>, to which nothing is ever
  added, so it starts empty.  The calls of \<open>findNode\<close> only serve debugging output.
\<close>

definition propagate ::
    "nat \<Rightarrow> 'k::linorder \<Rightarrow> addr list \<Rightarrow> ('k, 'v) Chromatic \<Rightarrow> ('k, 'v) Chromatic option" where
  "propagate tid x stack st =
    do {
      (toRetire, st) \<leftarrow> propagateLoop tid x {} stack (Some []) st;
      Some (fold (\<lambda>v st. st\<lparr>retiredVersions := v # retiredVersions st\<rparr>)
        (case toRetire of None \<Rightarrow> [] | Some vs \<Rightarrow> vs) st)
    }"

section \<open>Nodes with and without versions\<close>

lemma tree_at_unique: "tree_at h t \<Longrightarrow> tree_at h t' \<Longrightarrow> adr t = adr t' \<Longrightarrow> t = t'"
proof (induction t arbitrary: t')
  case (Lf a k v w)
  then show ?case by (cases t') (auto dest: tree_at_adr)
next
  case (Nd a k v w l r)
  then show ?case by (cases t') (auto dest: tree_at_adr)
qed

text \<open>
  New internal nodes have no version yet; below them may be more such nodes, or subtrees in which
  every node has its version.
\<close>

fun vpart :: "('k, 'v) Chromatic \<Rightarrow> int \<Rightarrow> ('k, 'v) ct \<Rightarrow> bool" where
  "vpart st z (Lf a k v w) \<longleftrightarrow> vfull st z (Lf a k v w)"
| "vpart st z (Nd a k v w l r) \<longleftrightarrow> vfull st z (Nd a k v w l r) \<or>
     nversion st a = NULL \<and> vpart st z l \<and> vpart st z r"

lemma vfull_vpart: "vfull st z t \<Longrightarrow> vpart st z t"
  by (cases t) auto

lemma vfull_root: "vfull st z t \<Longrightarrow> vtree_at st z (nversion st (adr t)) t"
  by (cases t) auto

text \<open>A step that only gives nodes new versions; only nodes of \<open>A\<close> are affected.\<close>

definition vstep :: "int \<Rightarrow> addr set \<Rightarrow> ('k, 'v) Chromatic \<Rightarrow> ('k, 'v) Chromatic \<Rightarrow> bool" where
  "vstep z A st st' \<longleftrightarrow> framed st st' \<and> dummy st' = dummy st \<and>
     allocatedSCXRecord st' = allocatedSCXRecord st \<and> allocatedNodes st' = allocatedNodes st \<and>
     scxH st' = scxH st \<and> nextNode st' = nextNode st \<and> nextSCX st' = nextSCX st \<and>
     (pools_ok st \<longrightarrow> pools_ok st') \<and>
     (\<forall>a. nodeH st' a = (nodeH st a)\<lparr>version := nversion st' a\<rparr>) \<and>
     (\<forall>a. a \<notin> A \<longrightarrow> nversion st' a = nversion st a) \<and>
     (\<forall>a\<in>A. nversion st' a = nversion st a \<or> a = root st \<or>
        (\<exists>t. tree_at (nodeH st) t \<and> adr t = a \<and> root st \<notin> set (addrs t) \<and> vfull st' z t))"

lemma vstepD:
  assumes "vstep z A st st'"
  shows "framed st st'" "dummy st' = dummy st" "allocatedSCXRecord st' = allocatedSCXRecord st"
    "allocatedNodes st' = allocatedNodes st" "scxH st' = scxH st" "nextNode st' = nextNode st"
    "nextSCX st' = nextSCX st" "pools_ok st \<Longrightarrow> pools_ok st'"
    "\<And>a. nodeH st' a = (nodeH st a)\<lparr>version := nversion st' a\<rparr>"
    "\<And>a. a \<notin> A \<Longrightarrow> nversion st' a = nversion st a"
    "\<And>a. nversion st' a = nversion st a \<or> a = root st \<or>
       (\<exists>t. tree_at (nodeH st) t \<and> adr t = a \<and> root st \<notin> set (addrs t) \<and> vfull st' z t)"
  using assms unfolding vstep_def by blast+

lemma vstep_fields:
  assumes "vstep z A st st'"
  shows "nkey st' a = nkey st a" "nval st' a = nval st a" "nweight st' a = nweight st a"
    "nleft st' a = nleft st a" "nright st' a = nright st a" "marked (nodeH st' a) = marked (nodeH st a)"
    "scxRecord (nodeH st' a) = scxRecord (nodeH st a)" "tree_at (nodeH st') t = tree_at (nodeH st) t"
    "root st' = root st" "NO_KEY st' = NO_KEY st" "ready st' = ready st"
proof -
  note e = vstepD(9)[OF assms]
  show "nkey st' a = nkey st a" "nval st' a = nval st a" "nweight st' a = nweight st a"
    "nleft st' a = nleft st a" "nright st' a = nright st a" "marked (nodeH st' a) = marked (nodeH st a)"
    "scxRecord (nodeH st' a) = scxRecord (nodeH st a)"
    by (subst e, simp)+
  show "tree_at (nodeH st') t = tree_at (nodeH st) t"
    by (rule tree_at_cong) (subst e, simp add: same_fields_def)
  show "root st' = root st" "NO_KEY st' = NO_KEY st" "ready st' = ready st"
    using vstepD(1)[OF assms] by (auto simp: framed_def)
qed

lemma vstep_refl [simp]: "vstep z A st st"
  by (simp add: vstep_def)

lemma vstep_vfull:
  assumes "vstep z A st st'" and "vfull st z t" and "tree_at (nodeH st) t" and "root st \<notin> set (addrs t)"
  shows "vfull st' z t"
  using assms(2-4)
proof (induction t)
  case (Lf a k v w)
  consider "nversion st' a = nversion st a" | t where "tree_at (nodeH st) t" "adr t = a" "vfull st' z t"
    using vstepD(11)[OF assms(1), of a] Lf.prems(3) by auto
  then show ?case
  proof cases
    case 1
    then show ?thesis using Lf.prems(1) vtree_at_framed[OF _ vstepD(1)[OF assms(1)]] by (simp del: vtree_at.simps)
  next
    case (2 t)
    then show ?thesis using tree_at_unique[OF Lf.prems(2), of t] by simp
  qed
next
  case (Nd a k v w l r)
  consider "nversion st' a = nversion st a" | t where "tree_at (nodeH st) t" "adr t = a" "vfull st' z t"
    using vstepD(11)[OF assms(1), of a] Nd.prems(3) by auto
  then show ?case
  proof cases
    case 1
    then show ?thesis
      using Nd vtree_at_framed[OF _ vstepD(1)[OF assms(1)]] by (simp del: vtree_at.simps)
  next
    case (2 t)
    then show ?thesis using tree_at_unique[OF Nd.prems(2), of t] by simp
  qed
qed

lemma vstep_vpart:
  assumes "vstep z A st st'" and "vpart st z t" and "tree_at (nodeH st) t" and "root st \<notin> set (addrs t)"
  shows "vpart st' z t"
  using assms(2-4)
proof (induction t)
  case (Lf a k v w)
  then show ?case using vstep_vfull[OF assms(1)] by (simp del: vfull.simps)
next
  case (Nd a k v w l r)
  show ?case
  proof (cases "vfull st z (Nd a k v w l r)")
    case True
    then show ?thesis using vstep_vfull[OF assms(1) _ Nd.prems(2,3)] vfull_vpart by blast
  next
    case False
    then have n: "nversion st a = NULL" "vpart st z l" "vpart st z r" 
      using Nd.prems(1) unfolding vpart.simps by blast+
    consider "nversion st' a = nversion st a" | t where "tree_at (nodeH st) t" "adr t = a" "vfull st' z t"
      using vstepD(11)[OF assms(1), of a] Nd.prems(3) by auto
    then show ?thesis
    proof cases
      case 1
      then show ?thesis using Nd n by simp
    next
      case (2 t)
      then show ?thesis using tree_at_unique[OF Nd.prems(2), of t] vfull_vpart by (metis ct.sel(2))
    qed
  qed
qed

lemma vstep_mono: "vstep z A st st' \<Longrightarrow> A \<subseteq> B \<Longrightarrow> vstep z B st st'"
  unfolding vstep_def by blast

lemma vstep_trans:
  assumes "vstep z A st st'" and "vstep z A st' st''"
  shows "vstep z A st st''"
proof -
  note d = vstepD[OF assms(1)] vstepD[OF assms(2)] and f = vstep_fields[OF assms(1)]
  have "nversion st'' a = nversion st a \<or> a = root st \<or>
      (\<exists>t. tree_at (nodeH st) t \<and> adr t = a \<and> root st \<notin> set (addrs t) \<and> vfull st'' z t)" for a
  proof -
    consider "a = root st"
      | t where "tree_at (nodeH st') t" "adr t = a" "root st \<notin> set (addrs t)" "vfull st'' z t"
      | "nversion st'' a = nversion st a"
      | t where "tree_at (nodeH st) t" "adr t = a" "root st \<notin> set (addrs t)" "vfull st' z t"
      using d(11)[of a] d(22)[of a] unfolding f(9) by metis
    then show ?thesis
    proof cases
      case (4 t)
      then show ?thesis using vstep_vfull[OF assms(2) 4(4)] unfolding f(8,9) by blast
    qed (use f(8) in auto)
  qed
  moreover have "nodeH st'' a = (nodeH st a)\<lparr>version := nversion st'' a\<rparr>" for a
    by (subst d(20), subst d(9)) simp
  ultimately show ?thesis
    using d framed_trans[OF d(1) d(12)] unfolding vstep_def by auto
qed

section \<open>refresh gives a node the version of its subtree\<close>

text \<open>The state after the compare-and-swap: a new live version \<open>v\<close>, installed in \<open>x\<close>.\<close>

lemma publish_step:
  fixes st :: "('k, 'v) Chromatic"
  assumes ok: "pools_ok st" and rd: "ready st tid" and old: "nversion st x = oldVer"
    and live: "live_version st leftver" "right1 \<noteq> NULL \<Longrightarrow> live_version st rightver"
  shows "\<exists>v toRetire' st'. publishVersion tid x oldVer leftver right1 rightver (Some toRetire) st =
      (True, Some toRetire', st') \<and> framed st st' \<and> dummy st' = dummy st \<and>
      allocatedSCXRecord st' = allocatedSCXRecord st \<and> allocatedNodes st' = allocatedNodes st \<and>
      scxH st' = scxH st \<and> nextNode st' = nextNode st \<and> nextSCX st' = nextSCX st \<and> pools_ok st' \<and>
      nodeH st' = (nodeH st)(x := (nodeH st x)\<lparr>version := v\<rparr>) \<and> live_version st' v \<and>
      vkey (versionH st' v) = nkey st x \<and> vleft (versionH st' v) = leftver \<and>
      vright (versionH st' v) = (if right1 = NULL then NULL else rightver) \<and>
      vsum (versionH st' v) = vsum (versionH st' leftver) +
        (if right1 = NULL then 0 else vsum (versionH st' rightver))"
proof -
  define v where "v = allocatedVersions st tid 0"
  define st1 where "st1 = REPLACE_ALLOCATED_VERSION tid 0
    (initializeVersion v (nkey st x) (vsum (versionH st leftver) +
       (if right1 = NULL then 0 else vsum (versionH st rightver))) leftver
       (if right1 = NULL then NULL else rightver) st)"
  define st' where "st' = st1\<lparr>nodeH := (nodeH st)(x := (nodeH st x)\<lparr>version := v\<rparr>)\<rparr>"
  have ext: "version_ext tid 1 st st1"
    by (simp add: version_ext_def st1_def v_def REPLACE_ALLOCATED_VERSION_def initializeVersion_def fun_eq_iff)
  note e = version_extD[OF ext] and fr = version_ext_framed[OF ext rd ok]
  have n: "nodeH st1 = nodeH st" by (simp add: st1_def REPLACE_ALLOCATED_VERSION_def initializeVersion_def)
  have ok1: "pools_ok st1"
    using ok unfolding pools_ok_def e(5-12) e(15) by (simp only: spare_ok_refill simp_thms)
  have rd': "ready st' = ready st1" by (simp add: st'_def ready_def fun_eq_iff)
  have lv: "live_version st' w = live_version st1 w" for w
    unfolding live_version_def rd' by (simp add: st'_def)
  have sel: "NO_KEY st' = NO_KEY st1" "NO_VALUE st' = NO_VALUE st1" "root st' = root st1"
    "allowedViolations st' = allowedViolations st1" "versionH st' = versionH st1"
    by (simp_all add: st'_def)
  have fr': "framed st st'"
    using fr(1) unfolding framed_def lv rd' sel by simp
  have vv: "v \<noteq> leftver" "right1 \<noteq> NULL \<Longrightarrow> v \<noteq> rightver"
    using live rd by (auto simp: live_version_def v_def)
  have eq: "publishVersion tid x oldVer leftver right1 rightver (Some toRetire) st =
      (True, Some (if oldVer \<noteq> NULL then toRetire @ [oldVer] else toRetire), st')"
    using old by (simp add: publishVersion_def Let_def v_def[symmetric] st'_def st1_def
        REPLACE_ALLOCATED_VERSION_def initializeVersion_def)
  have "pools_ok st'" using ok1 unfolding pools_ok_def rd' by (simp add: st'_def)
  moreover have "live_version st' v" using fr(2)[of 0] by (simp add: lv v_def)
  moreover have "vsum (versionH st' w) = vsum (versionH st w)" if "w \<noteq> v" for w
    using that by (simp add: st'_def st1_def REPLACE_ALLOCATED_VERSION_def initializeVersion_def)
  moreover have "dummy st' = dummy st" "allocatedSCXRecord st' = allocatedSCXRecord st"
    "allocatedNodes st' = allocatedNodes st" "scxH st' = scxH st" "nextNode st' = nextNode st"
    "nextSCX st' = nextSCX st" "nodeH st' = (nodeH st)(x := (nodeH st x)\<lparr>version := v\<rparr>)"
    by (simp_all add: st'_def e(5-10))
  moreover have "vkey (versionH st' v) = nkey st x" "vleft (versionH st' v) = leftver"
    "vright (versionH st' v) = (if right1 = NULL then NULL else rightver)"
    "vsum (versionH st' v) = vsum (versionH st leftver) + (if right1 = NULL then 0 else vsum (versionH st rightver))"
    by (simp_all add: sel(5) st1_def REPLACE_ALLOCATED_VERSION_def initializeVersion_def)
  ultimately show ?thesis
    using vv(1) not_sym[OF vv(2)] by (intro exI[of _ v] exI[of _ "if oldVer \<noteq> NULL then toRetire @ [oldVer] else toRetire"] exI[of _ st'])
      (simp add: eq fr')
qed

text \<open>\<open>refresh\<close> on the root of a subtree whose children are ready: it succeeds at once.\<close>

definition refreshed :: "nat \<Rightarrow> int \<Rightarrow> ('k, 'v) ct \<Rightarrow> addr list \<Rightarrow> ('k, 'v) Chromatic \<Rightarrow> bool" where
  "refreshed tid z t toRetire st \<longleftrightarrow>
     (\<exists>c b toRetire' st'. refresh_run tid (Refresh (adr t)) (Some toRetire) st = Some ((True, c, b), Some toRetire', st') \<and>
        vstep z (set (addrs t)) st st' \<and> vfull st' z t)"

lemma childVersion_spec:
  assumes t: "tree_at (nodeH st) t" "root st \<notin> set (addrs t)" "vpart st z t"
    and rf: "nversion st (adr t) = NULL \<Longrightarrow> refreshed tid z t toRetire st"
    and fld: "get_field st (x, onleft) = adr t"
  shows "\<exists>toRetire' st'. refresh_run tid (ChildVersion x onleft) (Some toRetire) st =
      Some ((True, adr t, nversion st' (adr t)), Some toRetire', st') \<and>
    vstep z (set (addrs t)) st st' \<and> vfull st' z t"
proof -
  have a: "adr t \<noteq> NULL" using tree_at_adr[OF t(1)] .
  show ?thesis
  proof (cases "nversion st (adr t) = NULL")
    case True
    then obtain c b toRetire' st' where st': "refresh_run tid (Refresh (adr t)) (Some toRetire) st = Some ((True, c, b), Some toRetire', st')"
      "vstep z (set (addrs t)) st st'" "vfull st' z t"
      using rf unfolding refreshed_def by blast
    have "get_field st' (x, onleft) = adr t" using fld by (cases onleft) (simp_all add: get_field_def vstep_fields[OF st'(2)])
    then show ?thesis using st' a True fld by (subst refresh_run.simps) (auto simp: Let_def)
  next
    case False
    then have "vfull st z t" using t(3) by (cases t) auto
    then show ?thesis
      using False a fld by (subst refresh_run.simps) (auto simp: Let_def intro!: exI[of _ st])
  qed
qed

lemma vstep_publish:
  assumes fr: "framed st st'" and eq: "dummy st' = dummy st"
      "allocatedSCXRecord st' = allocatedSCXRecord st" "allocatedNodes st' = allocatedNodes st"
      "scxH st' = scxH st" "nextNode st' = nextNode st" "nextSCX st' = nextSCX st" "pools_ok st'"
      "nodeH st' = (nodeH st)(x := (nodeH st x)\<lparr>version := v\<rparr>)"
    and x: "x = root st \<or> (\<exists>t. tree_at (nodeH st) t \<and> adr t = x \<and> root st \<notin> set (addrs t) \<and> vfull st' z t)"
    and A: "x \<in> A"
  shows "vstep z A st st'"
  unfolding vstep_def using fr eq x A by auto

lemma refresh_run_spec:
  assumes "pools_ok st" and "ready st tid" and "tree_at (nodeH st) t" and "root st \<notin> set (addrs t)"
    and "distinct (addrs t)" and "is_leaf t \<Longrightarrow> vfull st z t"
    and "\<not> is_leaf t \<Longrightarrow> vpart st z (lft t) \<and> vpart st z (rgt t)"
  shows "refreshed tid z t toRetire st"
  using assms
proof (induction t arbitrary: st toRetire)
  case (Lf a k v w)
  have "refresh_run tid (Refresh a) (Some toRetire) st = Some ((True, NULL, NULL), Some toRetire, st)"
    using Lf.prems(3) by (subst refresh_run.simps) (simp add: Let_def)
  then show ?case unfolding refreshed_def using Lf.prems(6) by auto
next
  case (Nd a k v w l r)
  let ?t = "Nd a k v w l r"
  have t: "tree_at (nodeH st) l" "tree_at (nodeH st) r" "nleft st a = adr l" "nright st a = adr r"
    "nkey st a = k" "root st \<notin> set (addrs l)" "root st \<notin> set (addrs r)" "distinct (addrs l)" "distinct (addrs r)"
    "a \<notin> set (addrs l)" "a \<notin> set (addrs r)" "vpart st z l" "vpart st z r"
    using Nd.prems by auto
  have sub: "vpart s z u \<Longrightarrow> nversion s (adr u) = NULL \<Longrightarrow>
      (is_leaf u \<longrightarrow> vfull s z u) \<and> (\<not> is_leaf u \<longrightarrow> vpart s z (lft u) \<and> vpart s z (rgt u))" for s u
    by (cases u) (auto dest: vtree_at_live live_version_nonnull)
  have "refreshed tid z l toRetire st" if "nversion st (adr l) = NULL"
    using Nd.IH(1)[OF Nd.prems(1,2) t(1,6,8)] sub[OF t(12) that] by blast
  from childVersion_spec[OF t(1,6,12) this, of a True]
  obtain R1 st1 where s1: "refresh_run tid (ChildVersion a True) (Some toRetire) st =
      Some ((True, adr l, nversion st1 (adr l)), Some R1, st1)" "vstep z (set (addrs l)) st st1" "vfull st1 z l"
    using t(3) by (auto simp: get_field_def)
  note f1 = vstep_fields[OF s1(2)]
  have ok1: "pools_ok st1" "ready st1 tid" "vpart st1 z r"
    using vstepD(8)[OF s1(2) Nd.prems(1)] Nd.prems(2) vstep_vpart[OF s1(2) t(13,2,7)] by (simp_all add: f1)
  have "refreshed tid z r R1 st1" if "nversion st1 (adr r) = NULL"
    using Nd.IH(2)[OF ok1(1,2)] t(2,7,9) sub[OF ok1(3) that] by (simp add: f1)
  from childVersion_spec[OF _ _ ok1(3) this, of a False]
  obtain R2 st2 where s2: "refresh_run tid (ChildVersion a False) (Some R1) st1 =
      Some ((True, adr r, nversion st2 (adr r)), Some R2, st2)" "vstep z (set (addrs r)) st1 st2" "vfull st2 z r"
    using t(2,4,7) by (auto simp: get_field_def f1)
  note f2 = vstep_fields[OF s2(2)]
  have ok2: "pools_ok st2" "ready st2 tid" using vstepD(8)[OF s2(2) ok1(1)] ok1(2) by (simp_all add: f2)
  have full2: "vfull st2 z l" using vstep_vfull[OF s2(2) s1(3)] t(1,6) by (simp add: f1)
  have lv: "nversion st1 (adr l) = nversion st2 (adr l)" "nversion st2 a = nversion st a"
    using vstepD(10)[OF s1(2), of a] vstepD(10)[OF s2(2)] t(10,11) Nd.prems(5) adr_in_addrs[of l]
    by (auto simp: disjoint_iff simp del: adr_in_addrs)
  have live: "live_version st2 (nversion st2 (adr l))" "live_version st2 (nversion st2 (adr r))"
    using vfull_root[OF full2] vfull_root[OF s2(3)] vtree_at_live by blast+
  have rn: "adr r \<noteq> NULL" "adr l \<noteq> NULL" using tree_at_adr t(1,2) by blast+
  obtain v R' st' where p: "publishVersion tid a (nversion st a) (nversion st2 (adr l)) (adr r) (nversion st2 (adr r)) (Some R2) st2 =
      (True, Some R', st')" and fr: "framed st2 st'" "dummy st' = dummy st2"
      "allocatedSCXRecord st' = allocatedSCXRecord st2" "allocatedNodes st' = allocatedNodes st2"
      "scxH st' = scxH st2" "nextNode st' = nextNode st2" "nextSCX st' = nextSCX st2" "pools_ok st'"
      and n: "nodeH st' = (nodeH st2)(a := (nodeH st2 a)\<lparr>version := v\<rparr>)"
      and v: "live_version st' v" "vkey (versionH st' v) = nkey st2 a"
      "vleft (versionH st' v) = nversion st2 (adr l)" "vright (versionH st' v) = nversion st2 (adr r)"
      "vsum (versionH st' v) = vsum (versionH st' (nversion st2 (adr l))) + vsum (versionH st' (nversion st2 (adr r)))"
    using publish_step[OF ok2 lv(2) live(1), of "adr r" "nversion st2 (adr r)" R2] live(2) rn by auto
  have nv: "nversion st' b = (if b = a then v else nversion st2 b)" for b by (simp add: n)
  have "vfull st' z l" "vfull st' z r"
    by (rule vfull_framed[OF full2 fr(1)], use nv t(10) in auto,
        rule vfull_framed[OF s2(3) fr(1)], use nv t(11) in auto)
  moreover have "vtree_at st' z v ?t"
    using v vtree_at_framed[OF vfull_root[OF full2] fr(1)] vtree_at_framed[OF vfull_root[OF s2(3)] fr(1)] t(5)
    by (simp add: f1 f2)
  ultimately have full: "vfull st' z ?t" using nv[of a] by simp
  have tr: "tree_at (nodeH st2) ?t" using Nd.prems(3) by (simp only: f1 f2)
  have "\<exists>t. tree_at (nodeH st2) t \<and> adr t = a \<and> root st2 \<notin> set (addrs t) \<and> vfull st' z t"
    unfolding f2(9) f1(9) using tr Nd.prems(4) full by (metis ct.sel(2))
  then have "vstep z (set (addrs ?t)) st2 st'" by (intro vstep_publish[OF fr n]) auto
  moreover have "vstep z (set (addrs ?t)) st st2"
    using vstep_trans[OF vstep_mono[OF s1(2)] vstep_mono[OF s2(2)], of "set (addrs ?t)"] by auto
  ultimately have vs: "vstep z (set (addrs ?t)) st st'" using vstep_trans by blast
  have "refresh_run tid (Refresh (adr ?t)) (Some toRetire) st = Some ((True, NULL, NULL), Some R', st')"
    using s1(1) s2(1) p rn t(3) lv by (subst refresh_run.simps) (simp add: Let_def)
  then show ?case unfolding refreshed_def using vs full by blast
qed

lemma refresh_node:
  assumes "pools_ok st" and "ready st tid" and "tree_at (nodeH st) (Nd a k v w l r)"
    and "root st \<notin> set (addrs (Nd a k v w l r))" and "distinct (addrs (Nd a k v w l r))"
    and "vpart st z l" and "vpart st z r"
  shows "\<exists>toRetire' st'. refresh tid a (Some toRetire) st = Some (True, Some toRetire', st') \<and>
    vstep z (set (addrs (Nd a k v w l r))) st st' \<and> vfull st' z (Nd a k v w l r)"
proof -
  have "refreshed tid z (Nd a k v w l r) toRetire st"
    by (rule refresh_run_spec) (use assms in simp_all)
  then show ?thesis unfolding refreshed_def refresh_def by (fastforce simp del: vfull.simps)
qed

section \<open>Refreshing the root\<close>

text \<open>The root has the tree as its only child; its version has the version of the tree as left child.\<close>

definition vroot :: "('k, 'v) Chromatic \<Rightarrow> int \<Rightarrow> ('k, 'v) ct \<Rightarrow> bool" where
  "vroot st z T \<longleftrightarrow> (let u = versionH st (nversion st (root st)) in
     live_version st (nversion st (root st)) \<and> vkey u = NO_KEY st \<and> vtree_at st z (vleft u) T \<and>
     vright u = NULL \<and> vsum u = vsum (versionH st (vleft u)))"

lemma vstep_hwf:
  assumes "vstep z A st st'" and "hwf st T"
  shows "hwf st' T"
proof -
  note d = vstepD[OF assms(1)] and f = vstep_fields[OF assms(1)] and h = hwfD[OF assms(2)]
  have "live_node st' a = live_node st a" for a unfolding live_node_def f d(3-7) ..
  then show ?thesis using assms(2) d(8)[OF h(1)] unfolding hwf_def f by simp
qed

lemma refresh_root:
  assumes hw: "hwf st T" and rd: "ready st tid" and vp: "vpart st z T"
  shows "\<exists>toRetire' st'. refresh tid (root st) (Some toRetire) st = Some (True, Some toRetire', st') \<and>
    vstep z (insert (root st) (set (addrs T))) st st' \<and> vfull st' z T \<and> vroot st' z T"
proof -
  note h = hwfD[OF hw]
  have sub: "(is_leaf T \<longrightarrow> vfull st z T) \<and> (\<not> is_leaf T \<longrightarrow> vpart st z (lft T) \<and> vpart st z (rgt T))"
    if "nversion st (adr T) = NULL"
    using that vp by (cases T) (auto dest: vtree_at_live live_version_nonnull)
  have "refreshed tid z T toRetire st" if "nversion st (adr T) = NULL"
    using refresh_run_spec[OF h(1) rd h(2,8,7)] sub[OF that] by blast
  from childVersion_spec[OF h(2,8) vp this, of "root st" True]
  obtain R1 st1 where s1: "refresh_run tid (ChildVersion (root st) True) (Some toRetire) st =
      Some ((True, adr T, nversion st1 (adr T)), Some R1, st1)" "vstep z (set (addrs T)) st st1" "vfull st1 z T"
    using h(3) by (auto simp: get_field_def)
  note f1 = vstep_fields[OF s1(2)]
  have s2: "refresh_run tid (ChildVersion (root st) False) (Some R1) st1 =
      Some ((True, NULL, NULL), Some R1, st1)"
    using h(4) by (subst refresh_run.simps) (simp add: get_field_def f1)
  have ok1: "pools_ok st1" "ready st1 tid" using vstepD(8)[OF s1(2) h(1)] rd by (simp_all add: f1)
  have old: "nversion st1 (root st) = nversion st (root st)" using vstepD(10)[OF s1(2) h(8)] .
  have live: "live_version st1 (nversion st1 (adr T))" using vfull_root[OF s1(3)] vtree_at_live by blast
  obtain v R' st' where p: "publishVersion tid (root st) (nversion st (root st)) (nversion st1 (adr T)) NULL NULL (Some R1) st1 =
      (True, Some R', st')" and fr: "framed st1 st'" "dummy st' = dummy st1"
      "allocatedSCXRecord st' = allocatedSCXRecord st1" "allocatedNodes st' = allocatedNodes st1"
      "scxH st' = scxH st1" "nextNode st' = nextNode st1" "nextSCX st' = nextSCX st1" "pools_ok st'"
      and n: "nodeH st' = (nodeH st1)(root st := (nodeH st1 (root st))\<lparr>version := v\<rparr>)"
      and v: "live_version st' v" "vkey (versionH st' v) = nkey st1 (root st)"
      "vleft (versionH st' v) = nversion st1 (adr T)" "vright (versionH st' v) = NULL"
      "vsum (versionH st' v) = vsum (versionH st' (nversion st1 (adr T)))"
    using publish_step[OF ok1 old live, of NULL NULL R1] by auto
  have vs': "vstep z (insert (root st) (set (addrs T))) st1 st'"
    by (rule vstep_publish[OF fr n]) (simp_all add: f1)
  then have vs: "vstep z (insert (root st) (set (addrs T))) st st'"
    using vstep_trans[OF vstep_mono[OF s1(2)]] by blast
  have full: "vfull st' z T" using vstep_vfull[OF vs' s1(3)] h(2,8) by (simp add: f1)
  have "vtree_at st' z (nversion st1 (adr T)) T" by (rule vtree_at_framed[OF vfull_root[OF s1(3)] fr(1)])
  then have "vroot st' z T"
    using v h(5) by (simp add: vroot_def vstep_fields[OF vs] n f1)
  moreover have "refresh tid (root st) (Some toRetire) st = Some (True, Some R', st')"
    unfolding refresh_def using s1(1) s2 p tree_at_adr[OF h(2)] h(3)
    by (subst refresh_run.simps) (simp add: Let_def)
  ultimately show ?thesis using vs full by blast
qed

section \<open>The loop of propagate\<close>

text \<open>The nodes on the path to \<open>x\<close> may have any version, the subtrees beside the path have theirs.\<close>

fun offpath :: "('k::linorder, 'v) Chromatic \<Rightarrow> int \<Rightarrow> 'k \<Rightarrow> ('k, 'v) ct \<Rightarrow> bool" where
  "offpath st z x (Lf a k v w) \<longleftrightarrow> vfull st z (Lf a k v w)"
| "offpath st z x (Nd a k v w l r) \<longleftrightarrow>
     (if x < k \<or> k = NO_KEY st then offpath st z x l \<and> vpart st z r else vpart st z l \<and> offpath st z x r)"

definition visited_ok :: "('k, 'v) Chromatic \<Rightarrow> int \<Rightarrow> addr set \<Rightarrow> bool" where
  "visited_ok st z P \<longleftrightarrow>
     (\<forall>c\<in>P. \<exists>t. tree_at (nodeH st) t \<and> adr t = c \<and> root st \<notin> set (addrs t) \<and> vfull st z t)"

lemma vstep_offpath:
  assumes "vstep z A st st'" and "offpath st z x t" and "tree_at (nodeH st) t" and "root st \<notin> set (addrs t)"
  shows "offpath st' z x t"
  using assms(2-4) vstep_vfull[OF assms(1)] vstep_vpart[OF assms(1)]
  by (induction t) (auto simp: vstep_fields(10)[OF assms(1)] simp del: vfull.simps)

lemma vstep_visited: "vstep z A st st' \<Longrightarrow> visited_ok st z P \<Longrightarrow> visited_ok st' z P"
  unfolding visited_ok_def using vstep_vfull[of z A st st'] by (simp add: vstep_fields) metis

lemma propagateLoop_push:
  assumes "c = key_child x a st" and "c \<noteq> NULL" and "nleft st c \<noteq> NULL" and "c \<notin> P"
  shows "propagateLoop tid x P (a # stack) toRetire st = propagateLoop tid x P (c # a # stack) toRetire st"
proof -
  have "descend x (key_child x a st) (a # stack) P st = descend x (key_child x c st) (c # a # stack) P st"
    using assms by (subst descend.simps) simp
  then show ?thesis by (subst (1 2) propagateLoop.simps) simp
qed

text \<open>The top of the stack is refreshed when its child on the path needs no visit.\<close>

lemma propagateLoop_pop:
  assumes "root st \<notin> P" and "key_child x a st = NULL \<or> nleft st (key_child x a st) = NULL \<or> key_child x a st \<in> P"
    and "refresh tid a toRetire st = Some (True, toRetire', st')"
  shows "propagateLoop tid x P (a # stack) toRetire st = propagateLoop tid x (insert a P) stack toRetire' st'"
proof -
  have "descend x (key_child x a st) (a # stack) P st = Some (a # stack)"
    using assms(2) by (subst descend.simps) auto
  then show ?thesis using assms(1,3) by (subst propagateLoop.simps) simp
qed

lemma propagate_node:
  assumes "pools_ok st" and "ready st tid" and "tree_at (nodeH st) t" and "root st \<notin> set (addrs t)"
    and "distinct (addrs t)" and "\<not> is_leaf t" and "offpath st z x t" and "visited_ok st z P" and "root st \<notin> P"
  shows "\<exists>P' toRetire' st'. propagateLoop tid x P (adr t # stack) (Some toRetire) st =
      propagateLoop tid x P' stack (Some toRetire') st' \<and> vstep z (set (addrs t)) st st' \<and>
    vfull st' z t \<and> visited_ok st' z P' \<and> root st \<notin> P' \<and> adr t \<in> P'"
  using assms
proof (induction t arbitrary: st P toRetire stack)
  case (Nd a k v w l r)
  let ?t = "Nd a k v w l r"
  define c where "c = (if x < k \<or> k = NO_KEY st then l else r)"
  define o' where "o' = (if x < k \<or> k = NO_KEY st then r else l)"
  have c: "tree_at (nodeH st) c" "root st \<notin> set (addrs c)" "distinct (addrs c)" "offpath st z x c" "vpart st z o'"
    "set (addrs c) \<subseteq> set (addrs ?t)" "key_child x a st = adr c" "adr c \<noteq> NULL"
    "tree_at (nodeH st) o'" "root st \<notin> set (addrs o')"
    using Nd.prems tree_at_adr by (auto simp: c_def o'_def key_child_def)
  have top: "\<exists>P' toRetire' st'. propagateLoop tid x Q (a # stack) (Some R) s =
      propagateLoop tid x P' stack (Some toRetire') st' \<and> vstep z (set (addrs ?t)) s st' \<and>
      vfull st' z ?t \<and> visited_ok st' z P' \<and> root st \<notin> P' \<and> a \<in> P'"
    if s: "vstep z (set (addrs ?t)) st s" "vfull s z c" "visited_ok s z Q" "root st \<notin> Q" "is_leaf c \<or> adr c \<in> Q"
    for s Q R
  proof -
    note f = vstep_fields[OF s(1)]
    have "vpart s z l" "vpart s z r"
      using vfull_vpart[OF s(2)] vstep_vpart[OF s(1) c(5,9,10)] by (auto simp: c_def o'_def split: if_splits)
    then obtain R' s' where rf: "refresh tid a (Some R) s = Some (True, Some R', s')"
        "vstep z (set (addrs ?t)) s s'" "vfull s' z ?t"
      using refresh_node[of s tid a k v w l r z R] vstepD(8)[OF s(1) Nd.prems(1)] Nd.prems by (auto simp: f)
    have kc: "key_child x a s = adr c" using c(7) unfolding key_child_def f .
    moreover have "is_leaf c \<Longrightarrow> nleft s (adr c) = NULL" using c(1) by (cases c) (auto simp: f)
    ultimately have "propagateLoop tid x Q (a # stack) (Some R) s = propagateLoop tid x (insert a Q) stack (Some R') s'"
      using s(4,5) rf(1) by (intro propagateLoop_pop) (auto simp: f)
    moreover have "visited_ok s' z (insert a Q)"
    proof -
      have "tree_at (nodeH s') ?t" "root s' \<notin> set (addrs ?t)"
        using Nd.prems(3,4) unfolding f vstep_fields[OF rf(2)] .
      then have "\<exists>t. tree_at (nodeH s') t \<and> adr t = a \<and> root s' \<notin> set (addrs t) \<and> vfull s' z t"
        using rf(3) by (metis ct.sel(2))
      then show ?thesis using vstep_visited[OF rf(2) s(3)] unfolding visited_ok_def by blast
    qed
    moreover have "root st \<notin> insert a Q" using s(4) Nd.prems(4) by auto
    ultimately show ?thesis using rf(2,3) by blast
  qed
  show ?case
  proof (cases "is_leaf c \<or> adr c \<in> P")
    case True
    have "vfull st z c"
    proof (cases "is_leaf c")
      case True
      then show ?thesis using c(4) by (cases c) auto
    next
      case False
      then obtain t where "tree_at (nodeH st) t" "adr t = adr c" "vfull st z t"
        using True Nd.prems(8) unfolding visited_ok_def by blast
      then show ?thesis using tree_at_unique[OF c(1)] by metis
    qed
    then show ?thesis using top[of st P toRetire] True Nd.prems(8,9) by simp
  next
    case False
    have IH: "\<exists>P' toRetire' st'. propagateLoop tid x P (adr c # a # stack) (Some toRetire) st =
      propagateLoop tid x P' (a # stack) (Some toRetire') st' \<and> vstep z (set (addrs c)) st st' \<and>
      vfull st' z c \<and> visited_ok st' z P' \<and> root st \<notin> P' \<and> adr c \<in> P'"
      using Nd.IH[OF Nd.prems(1,2)] c(1-4) False Nd.prems(8,9) by (cases "x < k \<or> k = NO_KEY st") (auto simp: c_def)
    then obtain P1 R1 st1 where s1: "propagateLoop tid x P (adr c # a # stack) (Some toRetire) st =
      propagateLoop tid x P1 (a # stack) (Some R1) st1" "vstep z (set (addrs c)) st st1"
      "vfull st1 z c" "visited_ok st1 z P1" "root st \<notin> P1" "adr c \<in> P1" by blast
    have vs: "vstep z (set (addrs ?t)) st st1" by (rule vstep_mono[OF s1(2) c(6)])
    have "nleft st (adr c) \<noteq> NULL" using False c(1) tree_at_adr by (cases c) auto
    then have "propagateLoop tid x P (a # stack) (Some toRetire) st =
        propagateLoop tid x P1 (a # stack) (Some R1) st1"
      using propagateLoop_push[of "adr c" x a st P] c(7,8) False s1(1) by auto
    then show ?thesis using top[OF vs s1(3-5), of R1] s1(6) vstep_trans[OF vs] by simp blast
  qed
qed simp

lemma vroot_framed:
  assumes "vroot st z T" and "framed st st'" and "nversion st' (root st) = nversion st (root st)"
  shows "vroot st' z T"
proof -
  let ?u = "nversion st (root st)"
  have l: "live_version st ?u" "vtree_at st z (vleft (versionH st ?u)) T"
    using assms(1) by (simp_all add: vroot_def Let_def)
  note fr = assms(2)[unfolded framed_def]
  have "versionH st' ?u = versionH st ?u" "live_version st' ?u"
    "versionH st' (vleft (versionH st ?u)) = versionH st (vleft (versionH st ?u))"
    using fr l(1) vtree_at_live[OF l(2)] by blast+
  then show ?thesis
    using assms(1,3) fr vtree_at_framed[OF l(2) assms(2)] by (simp add: vroot_def Let_def)
qed

lemma vstep_retire: "vstep z A st (st\<lparr>retiredVersions := vs\<rparr>)"
proof -
  let ?s = "st\<lparr>retiredVersions := vs\<rparr>"
  have rd: "ready ?s = ready st" by (simp add: ready_def fun_eq_iff)
  have "live_version ?s v = live_version st v" for v by (simp add: live_version_def rd)
  moreover have "pools_ok ?s = pools_ok st" by (simp add: pools_ok_def rd)
  ultimately show ?thesis by (simp add: vstep_def framed_def rd)
qed

lemma retire_all:
  "fold (\<lambda>v st. st\<lparr>retiredVersions := v # retiredVersions st\<rparr>) vs st =
    st\<lparr>retiredVersions := rev vs @ retiredVersions st\<rparr>"
  by (induction vs arbitrary: st) auto

text \<open>A stacked node: the root of a tree in memory, in the current tree or replaced since.\<close>

definition stacked :: "('k::linorder, 'v) Chromatic \<Rightarrow> int \<Rightarrow> 'k \<Rightarrow> addr \<Rightarrow> bool" where
  "stacked st z x s \<longleftrightarrow> (\<exists>t. tree_at (nodeH st) t \<and> adr t = s \<and> root st \<notin> set (addrs t) \<and>
     distinct (addrs t) \<and> \<not> is_leaf t \<and> offpath st z x t)"

lemma vstep_stacked: "vstep z A st st' \<Longrightarrow> stacked st z x s \<Longrightarrow> stacked st' z x s"
  unfolding stacked_def using vstep_offpath[of z A st st' x] by (simp add: vstep_fields) metis

lemma propagate_stack:
  assumes "pools_ok st" and "ready st tid" and "\<forall>s\<in>set ss. stacked st z x s"
    and "visited_ok st z P" and "root st \<notin> P"
  shows "\<exists>P' toRetire' st'. propagateLoop tid x P (ss @ stack) (Some toRetire) st =
      propagateLoop tid x P' stack (Some toRetire') st' \<and> vstep z UNIV st st' \<and>
    visited_ok st' z P' \<and> root st \<notin> P'"
  using assms
proof (induction ss arbitrary: st P toRetire)
  case Nil
  then show ?case by (intro exI[of _ P] exI[of _ toRetire] exI[of _ st]) simp
next
  case (Cons s ss)
  obtain t where t: "tree_at (nodeH st) t" "root st \<notin> set (addrs t)" "distinct (addrs t)" "\<not> is_leaf t"
    "offpath st z x t" "adr t = s"
    using Cons.prems(3) by (auto simp: stacked_def)
  from propagate_node[OF Cons.prems(1,2) t(1-5) Cons.prems(4,5)] t(6)
  obtain P1 R1 st1 where s1: "propagateLoop tid x P (s # ss @ stack) (Some toRetire) st =
      propagateLoop tid x P1 (ss @ stack) (Some R1) st1" "vstep z (set (addrs t)) st st1"
      "visited_ok st1 z P1" "root st \<notin> P1" by blast
  note f = vstep_fields[OF s1(2)]
  have "pools_ok st1" "ready st1 tid" "\<forall>s\<in>set ss. stacked st1 z x s" "root st1 \<notin> P1"
    using vstepD(8)[OF s1(2)] Cons.prems(1-3) s1(4) vstep_stacked[OF s1(2)] by (auto simp: f)
  from Cons.IH[OF this(1-3) s1(3) this(4)]
  obtain P2 R2 st2 where s2: "propagateLoop tid x P1 (ss @ stack) (Some R1) st1 =
      propagateLoop tid x P2 stack (Some R2) st2" "vstep z UNIV st1 st2" "visited_ok st2 z P2" "root st1 \<notin> P2"
    by blast
  show ?case
    using s1(1) s2 vstep_trans[OF vstep_mono[OF s1(2) subset_UNIV] s2(2)]
    by (intro exI[of _ P2] exI[of _ R2] exI[of _ st2]) (simp add: f)
qed

lemma propagate_root:
  assumes hw: "hwf st T" and rd: "ready st tid" and op: "offpath st z x T"
    and P: "visited_ok st z P" "root st \<notin> P"
  shows "\<exists>toRetire' st'. propagateLoop tid x P [root st] (Some toRetire) st = Some (Some toRetire', st') \<and>
    vstep z UNIV st st' \<and> vfull st' z T \<and> vroot st' z T"
proof -
  note h = hwfD[OF hw]
  have kc: "key_child x (root st) s = adr T" if "vstep z UNIV st s" for s
    using h(3,5) vstep_fields[OF that] by (simp add: key_child_def)
  have top: "\<exists>toRetire' st'. propagateLoop tid x Q [root st] (Some R) s = Some (Some toRetire', st') \<and>
      vstep z UNIV st st' \<and> vfull st' z T \<and> vroot st' z T"
    if s: "vstep z UNIV st s" "vfull s z T" "root st \<notin> Q" "is_leaf T \<or> adr T \<in> Q" for s Q R
  proof -
    note f = vstep_fields[OF s(1)]
    obtain R' s' where rf: "refresh tid (root st) (Some R) s = Some (True, Some R', s')"
        "vstep z (insert (root st) (set (addrs T))) s s'" "vfull s' z T" "vroot s' z T"
      using refresh_root[OF vstep_hwf[OF s(1) hw] _ vfull_vpart[OF s(2)], of tid R] rd by (auto simp: f)
    have "is_leaf T \<Longrightarrow> nleft s (adr T) = NULL" using h(2) by (cases T) (auto simp: f)
    then have "propagateLoop tid x Q [root st] (Some R) s = propagateLoop tid x (insert (root st) Q) [] (Some R') s'"
      using kc[OF s(1)] s(3,4) rf(1) by (intro propagateLoop_pop) (auto simp: f)
    also have "\<dots> = Some (Some R', s')"
      by (subst propagateLoop.simps) (simp add: f vstep_fields[OF rf(2)])
    finally show ?thesis
      using rf(3,4) vstep_trans[OF s(1) vstep_mono[OF rf(2) subset_UNIV]] by blast
  qed
  show ?thesis
  proof (cases "is_leaf T \<or> adr T \<in> P")
    case True
    have "vfull st z T"
    proof (cases "is_leaf T")
      case True
      then show ?thesis using op by (cases T) auto
    next
      case False
      then obtain t where "tree_at (nodeH st) t" "adr t = adr T" "vfull st z t"
        using True P(1) unfolding visited_ok_def by blast
      then show ?thesis using tree_at_unique[OF h(2)] by metis
    qed
    then show ?thesis using top[of st P] True P(2) by simp
  next
    case False
    then have nl: "\<not> is_leaf T" "adr T \<notin> P" by auto
    have "nleft st (adr T) \<noteq> NULL" using nl(1) h(2) tree_at_adr by (cases T) auto
    then have push: "propagateLoop tid x P [root st] (Some toRetire) st =
        propagateLoop tid x P [adr T, root st] (Some toRetire) st"
      using kc[OF vstep_refl] nl(2) tree_at_adr[OF h(2)] by (intro propagateLoop_push) auto
    obtain P1 R1 st1 where s1: "propagateLoop tid x P [adr T, root st] (Some toRetire) st =
        propagateLoop tid x P1 [root st] (Some R1) st1" "vstep z (set (addrs T)) st st1" "vfull st1 z T"
        "root st \<notin> P1" "adr T \<in> P1"
      using propagate_node[OF h(1) rd h(2,8,7) nl(1) op P] by blast
    then show ?thesis using top[OF vstep_mono[OF s1(2) subset_UNIV] s1(3,4), of R1] push s1(5) by simp
  qed
qed

lemma propagate_spec:
  assumes hw: "hwf st T" and rd: "ready st tid" and op: "offpath st z x T"
    and ss: "\<forall>s\<in>set ss. stacked st z x s"
  shows "\<exists>st'. propagate tid x (ss @ [root st]) st = Some st' \<and> hwf st' T \<and> framed st st' \<and>
    vfull st' z T \<and> vroot st' z T"
proof -
  note h = hwfD[OF hw]
  obtain P1 R1 st1 where s1: "propagateLoop tid x {} (ss @ [root st]) (Some []) st =
      propagateLoop tid x P1 [root st] (Some R1) st1" "vstep z UNIV st st1" "visited_ok st1 z P1" "root st \<notin> P1"
    using propagate_stack[OF h(1) rd ss, of "{}" "[root st]" "[]"] by (auto simp: visited_ok_def)
  note f1 = vstep_fields[OF s1(2)]
  obtain R2 st2 where s2: "propagateLoop tid x P1 [root st] (Some R1) st1 = Some (Some R2, st2)"
      "vstep z UNIV st1 st2" "vfull st2 z T" "vroot st2 z T"
    using propagate_root[OF vstep_hwf[OF s1(2) hw] _ vstep_offpath[OF s1(2) op h(2,8)] s1(3), of tid R1] rd s1(4)
    by (auto simp: f1)
  let ?s = "st2\<lparr>retiredVersions := rev R2 @ retiredVersions st2\<rparr>"
  have vs: "vstep z UNIV st2 ?s" by (rule vstep_retire)
  have "propagate tid x (ss @ [root st]) st = Some ?s"
    using s1(1) s2(1) by (simp add: propagate_def retire_all)
  moreover have all: "vstep z UNIV st ?s" by (rule vstep_trans[OF vstep_trans[OF s1(2) s2(2)] vs])
  moreover have "vfull ?s z T"
    by (rule vstep_vfull[OF vs s2(3)]) (use h(2,8) in \<open>simp_all add: f1 vstep_fields[OF s2(2)]\<close>)
  moreover have "vroot ?s z T" by (rule vroot_framed[OF s2(4) vstepD(1)[OF vs]]) simp
  ultimately show ?thesis using vstep_hwf[OF all hw] vstepD(1)[OF all] by blast
qed

end
