(* ===== verification/Version_Paths.thy ===== *)
theory Version_Paths
  imports Version_Propagation
begin

text \<open>
  What the updates and the rebalancing steps do to the versions: after \<open>updateInsert\<close> or
  \<open>updateErase\<close> only the nodes on the path to the key have an outdated version, and a rebalancing
  step keeps this so, since it keeps the sequence of keys and hence the paths of the nodes it
  keeps.  The nodes on the stack of the update, replaced or not, are then fit for \<open>propagate\<close>.
\<close>

section \<open>Positions in the sequence of keys\<close>

fun ltoks :: "('k, 'v) ctx \<Rightarrow> ('k, 'v) token list" where
  "ltoks [] = []"
| "ltoks (f # C) = ltoks C @ (if is_FL f then [] else tokens (fsib f) @ [KeyTok (fkey f)])"

fun rtoks :: "('k, 'v) ctx \<Rightarrow> ('k, 'v) token list" where
  "rtoks [] = []"
| "rtoks (f # C) = (if is_FL f then KeyTok (fkey f) # tokens (fsib f) else []) @ rtoks C"

lemma tokens_plug_ctx: "tokens (plug C t) = ltoks C @ tokens t @ rtoks C"
proof (induction C arbitrary: t)
  case (Cons f C)
  then show ?case by (cases f) auto
qed simp

text \<open>The hole is on the path to \<open>x\<close> when \<open>x\<close> separates the internal keys before and after it.\<close>

lemma on_path_toks:
  assumes "bst (plug C t)"
  shows "on_path x C \<longleftrightarrow> (\<forall>k. KeyTok k \<in> set (ltoks C) \<longrightarrow> k \<le> x) \<and> (\<forall>k. KeyTok k \<in> set (rtoks C) \<longrightarrow> x < k)"
  using assms
proof (induction C arbitrary: t)
  case (Cons f C)
  have b: "bst (fill f t)" using Cons.prems bst_plug_inner by auto
  note IH = Cons.IH[of "fill f t"]
  show ?case
  proof (cases "is_FL f")
    case True
    have bs: "bst (fsib f)" "\<forall>y\<in>set (lkeys (fsib f)). fkey f \<le> y" using b True by (cases f; simp)+
    have "fkey f < k" if kt: "KeyTok k \<in> set (tokens (fsib f))" for k
    proof -
      obtain y where "y \<in> set (lkeys (fsib f))" "y < k"
        using ikeys_between[OF bs(1), of k] kt unfolding ikeys_tokens by blast
      then show ?thesis using bs(2) by (meson order.strict_trans1)
    qed
    then have "x < k" if "KeyTok k \<in> set (tokens (fsib f))" "x < fkey f" for k
      using that by (meson order.strict_trans)
    then show ?thesis using IH Cons.prems True by auto
  next
    case False
    have bs: "bst (fsib f)" "\<forall>y\<in>set (lkeys (fsib f)). y < fkey f" using b False by (cases f; simp)+
    have "k < fkey f" if kt: "KeyTok k \<in> set (tokens (fsib f))" for k
    proof -
      obtain y where "y \<in> set (lkeys (fsib f))" "k \<le> y"
        using ikeys_between[OF bs(1), of k] kt unfolding ikeys_tokens by blast
      then show ?thesis using bs(2) by (meson order.strict_trans1)
    qed
    then have "k \<le> x" if "KeyTok k \<in> set (tokens (fsib f))" "fkey f \<le> x" for k
      using that by (meson less_imp_le order.trans)
    then show ?thesis using IH Cons.prems False by auto
  qed
qed simp

lemma tokens_first: "\<exists>k v ys. tokens t = LeafTok k v # ys"
  by (induction t) auto

lemma leaf_token_once:
  assumes "bst t" and "tokens t = xs @ LeafTok k v # ys"
  shows "LeafTok k v \<notin> set xs" "LeafTok k v \<notin> set ys"
proof -
  have "leaves t = concat (map tok_leaf xs) @ (k, v) # concat (map tok_leaf ys)"
    by (simp add: leaves_tokens assms(2))
  then have "k \<notin> fst ` set (concat (map tok_leaf xs))" "k \<notin> fst ` set (concat (map tok_leaf ys))"
    using bst_sorted[OF assms(1)] by (auto simp: sorted_wrt_append)
  moreover have "k \<in> fst ` set (concat (map tok_leaf zs))" if "LeafTok k v \<in> set zs" for zs
    using that by (induction zs) auto
  ultimately show "LeafTok k v \<notin> set xs" "LeafTok k v \<notin> set ys" by blast+
qed

lemma same_toks:
  assumes "bst (plug E1 q)" and "tokens (plug E1 q) = tokens (plug E2 q)"
  shows "ltoks E1 = ltoks E2" "rtoks E1 = rtoks E2"
proof -
  obtain k v ys where q: "tokens q = LeafTok k v # ys" using tokens_first[of q] by blast
  have e: "tokens (plug E1 q) = ltoks E1 @ LeafTok k v # (ys @ rtoks E1)" by (simp add: tokens_plug_ctx q)
  have "ltoks E1 = ltoks E2 \<and> ys @ rtoks E1 = ys @ rtoks E2"
    using append_Cons_eq_iff[OF leaf_token_once[OF assms(1) e]] assms(2) e by (simp add: tokens_plug_ctx q)
  then show "ltoks E1 = ltoks E2" "rtoks E1 = rtoks E2" by simp_all
qed

lemma on_path_same_toks:
  assumes "bst (plug E1 q)" and "tokens (plug E2 q) = tokens (plug E1 q)"
  shows "on_path x E1 \<longleftrightarrow> on_path x E2"
proof -
  have b: "bst (plug E2 q)" using assms(1) tokens_same(3)[OF assms(2)] by simp
  show ?thesis
    unfolding on_path_toks[OF assms(1)] on_path_toks[OF b] same_toks[OF assms(1) assms(2)[symmetric]] ..
qed

section \<open>Paths in a tree with sentinels\<close>

text \<open>The search of \<open>propagate\<close> goes left at the sentinel key.\<close>

fun cpath :: "'k::linorder \<Rightarrow> 'k \<Rightarrow> ('k, 'v) ctx \<Rightarrow> bool" where
  "cpath nk x [] = True"
| "cpath nk x (f # C) = ((is_FL f \<longleftrightarrow> x < fkey f \<or> fkey f = nk) \<and> cpath nk x C)"

lemma cpath_append: "cpath nk x (E @ F) \<longleftrightarrow> cpath nk x E \<and> cpath nk x F"
  by (induction E) auto

lemma cpath_on_path: "\<forall>f\<in>set E. fkey f \<noteq> nk \<Longrightarrow> cpath nk x E = on_path x E"
  by (induction E) auto

fun cdown :: "'k::linorder \<Rightarrow> 'k \<Rightarrow> ('k, 'v) ctx \<Rightarrow> ('k, 'v) ct \<Rightarrow> ('k, 'v) ctx" where
  "cdown nk x C (Lf a k v w) = C"
| "cdown nk x C (Nd a k v w l r) =
    (if x < k \<or> k = nk then cdown nk x (FL a k v w r # C) l else cdown nk x (FR a k v w l # C) r)"

lemma cdown_suffix: "\<exists>E. cdown nk x C t = E @ C"
proof (induction nk x C t rule: cdown.induct)
  case (2 nk x C a k v w l r)
  show ?case
  proof (cases "x < k \<or> k = nk")
    case True
    then obtain E where "cdown nk x (FL a k v w r # C) l = E @ FL a k v w r # C" using 2(1) by blast
    then show ?thesis using True by (intro exI[of _ "E @ [FL a k v w r]"]) simp
  next
    case False
    then obtain E where "cdown nk x (FR a k v w l # C) r = E @ FR a k v w l # C" using 2(2) by blast
    then show ?thesis using False by (intro exI[of _ "E @ [FR a k v w l]"]) simp
  qed
qed simp

lemma cdown_plug: "cpath nk x F \<Longrightarrow> cdown nk x C (plug F t) = cdown nk x (F @ C) t"
proof (induction F arbitrary: t)
  case (Cons f F)
  then show ?case by (cases f) auto
qed simp

lemma plug_inj: "plug C a = plug C b \<Longrightarrow> a = b"
proof (induction C arbitrary: a b)
  case (Cons f C)
  then have "fill f a = fill f b" by fastforce
  then show ?case by (cases f) auto
qed simp

text \<open>Two subtrees on the same path: one contains the other.\<close>

lemma cpath_cases:
  assumes "plug C S = plug C' S'" and "cpath nk x C" and "cpath nk x C'"
  obtains F where "C' = F @ C" "S = plug F S'" | F where "C = F @ C'" "F \<noteq> []" "S' = plug F S"
proof -
  obtain E E' where "cdown nk x [] (plug C S) = E @ C" "cdown nk x [] (plug C' S') = E' @ C'"
    using cdown_plug[OF assms(2), of "[]" S] cdown_plug[OF assms(3), of "[]" S']
      cdown_suffix[of nk x C S] cdown_suffix[of nk x C' S'] by auto
  then have "E @ C = E' @ C'" using assms(1) by simp
  then obtain F where "C' = F @ C \<or> C = F @ C'" by (metis append_eq_append_conv2)
  then show ?thesis
  proof
    assume f: "C' = F @ C"
    then have "S = plug F S'" using assms(1) plug_inj[of C] by (simp add: plug_append)
    then show ?thesis using that(1) f by blast
  next
    assume f: "C = F @ C'"
    then have e: "S' = plug F S" using assms(1) plug_inj[of C'] by (metis plug_append)
    show ?thesis
    proof (cases "F = []")
      case True
      then show ?thesis using that(1)[of "[]"] f e by simp
    next
      case False
      then show ?thesis using that(2) f e by blast
    qed
  qed
qed

lemma subtree_at: "a \<in> set (addrs t) \<Longrightarrow> \<exists>E u. t = plug E u \<and> adr u = a"
proof (induction t)
  case (Lf b k v w)
  then show ?case by (intro exI[of _ "[]"] exI[of _ "Lf b k v w"]) simp
next
  case (Nd b k v w l r)
  consider "a = b" | "a \<in> set (addrs l)" | "a \<in> set (addrs r)" using Nd.prems by auto
  then show ?case
  proof cases
    case 1
    then show ?thesis by (intro exI[of _ "[]"] exI[of _ "Nd b k v w l r"]) simp
  next
    case 2
    then obtain E u where "l = plug E u" "adr u = a" using Nd.IH(1) by blast
    then show ?thesis by (intro exI[of _ "E @ [FL b k v w r]"] exI[of _ u]) (simp add: plug_append)
  next
    case 3
    then obtain E u where "r = plug E u" "adr u = a" using Nd.IH(2) by blast
    then show ?thesis by (intro exI[of _ "E @ [FR b k v w l]"] exI[of _ u]) (simp add: plug_append)
  qed
qed

section \<open>Versions along a path\<close>

lemma vpart_framed:
  assumes "vpart st z t" and "framed st st'" and "\<And>a. a \<in> set (addrs t) \<Longrightarrow> nversion st' a = nversion st a"
  shows "vpart st' z t"
  using assms(1,3)
proof (induction t)
  case (Lf a k v w)
  then show ?case using vfull_framed[of st z "Lf a k v w" st'] assms(2) by (simp del: vfull.simps)
next
  case (Nd a k v w l r)
  show ?case
  proof (cases "vfull st z (Nd a k v w l r)")
    case True
    then show ?thesis using vfull_framed[OF True assms(2) Nd.prems(2)] vfull_vpart by blast
  next
    case False
    then have "nversion st a = NULL" "vpart st z l" "vpart st z r"
      using Nd.prems(1) unfolding vpart.simps by blast+
    then show ?thesis using Nd by (simp del: vfull.simps)
  qed
qed

lemma offpath_framed:
  assumes "offpath st z x t" and "framed st st'" and "\<And>a. a \<in> set (addrs t) \<Longrightarrow> nversion st' a = nversion st a"
  shows "offpath st' z x t"
  using assms(1,3)
proof (induction t)
  case (Lf a k v w)
  then show ?case using vfull_framed[of st z "Lf a k v w" st'] assms(2) by (simp del: vfull.simps)
next
  case (Nd a k v w l r)
  have "NO_KEY st' = NO_KEY st" using assms(2) by (simp add: framed_def)
  then show ?case using Nd vpart_framed[OF _ assms(2)] by (auto split: if_splits)
qed

lemma vpart_offpath: "vpart st z t \<Longrightarrow> offpath st z x t"
proof (induction t)
  case (Nd a k v w l r)
  have "vpart st z l" "vpart st z r" using Nd.prems vfull_vpart by auto
  then show ?case using Nd.IH by simp
qed simp

lemma offpath_plug:
  assumes "cpath (NO_KEY st) x C"
  shows "offpath st z x (plug C t) \<longleftrightarrow> offpath st z x t \<and> (\<forall>f\<in>set C. vpart st z (fsib f))"
  using assms
proof (induction C arbitrary: t)
  case (Cons f C)
  have "offpath st z x (fill f t) \<longleftrightarrow> offpath st z x t \<and> vpart st z (fsib f)"
    using Cons.prems by (cases f) auto
  then show ?case using Cons by auto
qed simp

lemma vpart_plug: "vpart st z (plug E q) \<Longrightarrow> vpart st z q"
proof (induction E arbitrary: q)
  case (Cons f E)
  then have "vpart st z (fill f q)" by simp
  then show ?case using vfull_vpart by (cases f) auto
qed simp

lemma vfull_plug: "vfull st z (plug E q) \<Longrightarrow> vfull st z q \<and> (\<forall>f\<in>set E. vfull st z (fsib f))"
proof (induction E arbitrary: q)
  case (Cons f E)
  then have "vfull st z (fill f q)" "\<forall>f\<in>set E. vfull st z (fsib f)" by simp_all
  then show ?case by (cases f) auto
qed simp

lemma offpath_beside:
  assumes "offpath st z x (plug E q)" and "\<not> cpath (NO_KEY st) x E"
  shows "vpart st z q"
  using assms
proof (induction E arbitrary: q)
  case (Cons f E)
  show ?case
  proof (cases "cpath (NO_KEY st) x E")
    case True
    then have "offpath st z x (fill f q)" using Cons.prems(1) offpath_plug[OF True] by simp
    then show ?thesis using Cons.prems(2) True by (cases f) (auto split: if_splits)
  next
    case False
    then have "vpart st z (fill f q)" using Cons by simp
    then show ?thesis using vpart_plug[of st z "[f]" q] by simp
  qed
qed simp

section \<open>A rebalancing step keeps the outdated versions on the path\<close>

lemma chrom_cpath:
  assumes "chrom nk (plug C S)" and "C \<noteq> []" and "\<not> is_leaf S"
  shows "cpath nk x C \<longleftrightarrow> on_path x (butlast C)" "bst S" "nk \<notin> ikeys S" "nk \<notin> set (lkeys S)"
proof -
  obtain E a v b v' where E: "C = E @ [FL a nk v 1 (Lf b nk v' 1)]" "chrom_inner nk (plug E S)"
    using chrom_split[OF assms] by blast
  have "\<forall>f\<in>set E. fkey f \<noteq> nk" using chrom_inner_sub(2)[OF E(2)] by blast
  then show "cpath nk x C \<longleftrightarrow> on_path x (butlast C)"
    using cpath_on_path[of E nk x] by (simp add: E(1) cpath_append)
  show "bst S" "nk \<notin> ikeys S" "nk \<notin> set (lkeys S)"
    using E(2) bst_plug_inner by (auto simp: chrom_inner_def ikeys_plug leaves_plug)
qed

lemma ikeys_frames: "f \<in> set E \<Longrightarrow> fkey f \<in> ikeys (plug E q)"
proof -
  have "f \<in> set E \<Longrightarrow> fkey f \<in> cikeys E" by (induction E) auto
  then show "f \<in> set E \<Longrightarrow> fkey f \<in> ikeys (plug E q)" by (simp add: ikeys_plug)
qed

lemma rebuilt_offpath:
  assumes rb: "rebuilt C S S' st st'" and op: "offpath st z x S" and bs: "bst S"
    and nk: "NO_KEY st \<notin> ikeys S" "NO_KEY st \<notin> set (lkeys S)" and tk: "tokens S' = tokens S"
    and tr: "tree_at (nodeH st) S" "tree_at (nodeH st') S'"
    and q: "S' = plug E q"
  shows "(on_path x E \<longrightarrow> offpath st' z x q) \<and> (\<not> on_path x E \<longrightarrow> vpart st' z q)"
  using q
proof (induction q arbitrary: E)
  have fr: "framed st st'" and ver: "\<And>a. a \<in> set (addrs S) \<Longrightarrow> nversion st' a = nversion st a"
    and sf: "\<And>a. a \<in> set (addrs S) \<Longrightarrow> same_fields (nodeH st' a) (nodeH st a)"
    and new: "\<And>a. a \<in> set (addrs S') \<Longrightarrow> a \<notin> set (addrs S) \<Longrightarrow> built st' a"
    using rb unfolding rebuilt_def set_addrs_plug by auto
  have trS: "tree_at (nodeH st') S" using tr(1) tree_at_cong[of S "nodeH st'" "nodeH st"] sf by blast
  have kept: "(on_path x E \<longrightarrow> offpath st' z x q) \<and> (\<not> on_path x E \<longrightarrow> vpart st' z q)"
    if q: "S' = plug E q" and a: "adr q \<in> set (addrs S)" for E q
  proof -
    obtain E1 q1 where S: "S = plug E1 q1" "adr q1 = adr q" using subtree_at[OF a] by blast
    have "tree_at (nodeH st') q" "tree_at (nodeH st') q1"
      using trS tr(2) by (simp_all add: S q tree_at_plug)
    then have "q1 = q" using tree_at_unique S(2) by blast
    then have S: "S = plug E1 q" using S(1) by simp
    have qS: "set (addrs q) \<subseteq> set (addrs S)" by (simp add: S set_addrs_plug)
    have E1: "\<forall>f\<in>set E1. fkey f \<noteq> NO_KEY st" using nk(1) ikeys_frames[of _ E1 q] unfolding S by metis
    note cp = cpath_on_path[OF E1, of x]
    have eq: "on_path x E1 \<longleftrightarrow> on_path x E" using on_path_same_toks[of E1 q E x] bs tk by (simp add: S q)
    show ?thesis
    proof (cases "on_path x E1")
      case True
      then have "offpath st z x q" using op offpath_plug[of st x E1 z q] cp by (simp add: S)
      then show ?thesis using offpath_framed[OF _ fr] ver qS eq True by blast
    next
      case False
      then have "vpart st z q" using offpath_beside[of st z x E1 q] op cp by (simp add: S)
      then have "vpart st' z q" using vpart_framed[OF _ fr] ver qS by blast
      then show ?thesis using vpart_offpath by blast
    qed
  qed
  {
    case (Lf a k v w)
    show ?case
    proof (cases "a \<in> set (addrs S)")
      case False
      have t: "tree_at (nodeH st') (Lf a k v w)" using tr(2) by (simp add: Lf tree_at_plug)
      have "k \<in> set (lkeys S)" unfolding tokens_same(1)[OF tk, symmetric] by (simp add: Lf leaves_plug)
      then have "k \<noteq> NO_KEY st" using nk(2) by metis
      moreover have "built st' a" using new[of a] False by (simp add: Lf set_addrs_plug)
      moreover have "NO_KEY st' = NO_KEY st" using fr by (simp add: framed_def)
      ultimately have "vfull st' z (Lf a k v w)" using t by (simp add: built_def leaf_sum_def)
      then show ?thesis by simp
    qed (use kept[OF Lf] in simp)
  next
    case (Nd a k v w l r)
    show ?case
    proof (cases "a \<in> set (addrs S)")
      case False
      have t: "tree_at (nodeH st') (Nd a k v w l r)" using tr(2) by (simp add: Nd.prems tree_at_plug)
      have "built st' a" using new[of a] False by (simp add: Nd.prems set_addrs_plug)
      then have "nversion st' a = NULL" using t tree_at_adr[of "nodeH st'" l] by (auto simp: built_def)
      moreover have "k \<noteq> NO_KEY st'"
        using nk(1) tokens_same(2)[OF tk] fr by (auto simp: Nd.prems ikeys_plug framed_def)
      moreover note Nd.IH(1)[of "FL a k v w r # E"] Nd.IH(2)[of "FR a k v w l # E"]
      ultimately show ?thesis using Nd.prems by (auto simp del: vfull.simps)
    qed (use kept[OF Nd.prems] in simp)
  }
qed

text \<open>An internal node on the path to \<open>x\<close>.\<close>

definition path_node :: "'k::linorder \<Rightarrow> 'k \<Rightarrow> ('k, 'v) ct \<Rightarrow> addr \<Rightarrow> bool" where
  "path_node nk x T s \<longleftrightarrow> (\<exists>C t. T = plug C t \<and> adr t = s \<and> \<not> is_leaf t \<and> cpath nk x C)"

lemma stackedI:
  assumes "hwf st T" and "T = plug C t" and "\<not> is_leaf t" and "offpath st z x t"
  shows "stacked st z x (adr t)"
  using assms hwfD(2,7,8)[OF assms(1)]
  by (auto simp: stacked_def tree_at_plug distinct_addrs_plug set_addrs_plug intro!: exI[of _ t])

lemma path_node_stacked:
  assumes "hwf st T" and "offpath st z x T" and "path_node (NO_KEY st) x T s"
  shows "stacked st z x s"
proof -
  obtain C t where t: "T = plug C t" "adr t = s" "\<not> is_leaf t" "cpath (NO_KEY st) x C"
    using assms(3) unfolding path_node_def by blast
  then show ?thesis using stackedI[OF assms(1) t(1,3)] assms(2) offpath_plug[OF t(4)] by blast
qed

lemma fsib_caddrs: "f \<in> set C \<Longrightarrow> set (addrs (fsib f)) \<subseteq> set (caddrs C)"
  by (induction C) auto

lemma not_leaf_plug: "F \<noteq> [] \<Longrightarrow> \<not> is_leaf (plug F t)"
proof (induction F arbitrary: t)
  case (Cons f F)
  then show ?case by (cases F) auto
qed simp

lemma rebalance_versions:
  assumes hw: "hwf st T" and ch: "chrom (NO_KEY st) T" and op: "offpath st z x T"
    and sm: "same_map x st T st' T'" and hw': "hwf st' T'"
  shows "framed st st'" "offpath st' z x T'" "path_node (NO_KEY st) x T s \<Longrightarrow> stacked st' z x s"
proof -
  have "framed st st' \<and> offpath st' z x T' \<and> (path_node (NO_KEY st) x T s \<longrightarrow> stacked st' z x s)"
  proof (cases "st' = st \<and> T' = T")
    case True
    then show ?thesis using op path_node_stacked[OF hw op] by simp
  next
    case False
    then obtain C S S' where T: "T = plug C S" "T' = plug C S'" and C: "C \<noteq> []" "\<not> is_leaf S"
      and onp: "on_path x (butlast C)" and tk: "tokens S' = tokens S" and rb: "rebuilt C S S' st st'"
      using sm unfolding same_map_def by blast
    note cc = chrom_cpath[OF ch[unfolded T(1)] C]
    have fr: "framed st st'" and nk: "NO_KEY st' = NO_KEY st"
      and ver: "\<And>a. a \<in> set (addrs T) \<Longrightarrow> nversion st' a = nversion st a"
      and sf: "\<And>a. a \<in> set (addrs S) \<Longrightarrow> same_fields (nodeH st' a) (nodeH st a)"
      using rb unfolding rebuilt_def T(1) framed_def by auto
    have tr: "tree_at (nodeH st) S" "tree_at (nodeH st') S'" "tree_at (nodeH st') S"
      using hwfD(2)[OF hw] hwfD(2)[OF hw'] tree_at_cong[of S "nodeH st'" "nodeH st"] sf
      by (simp_all add: T tree_at_plug)
    have cp: "cpath (NO_KEY st) x C" using cc(1) onp by blast
    have ops: "offpath st z x S" "\<forall>f\<in>set C. vpart st z (fsib f)"
      using op offpath_plug[OF cp] by (simp_all add: T(1))
    have sib: "vpart st' z (fsib f)" if "f \<in> set C" for f
    proof -
      show ?thesis
        by (rule vpart_framed[OF bspec[OF ops(2) that] fr])
          (use ver fsib_caddrs[OF that] in \<open>auto simp: T(1) set_addrs_plug\<close>)
    qed
    have "offpath st' z x S'"
      using rebuilt_offpath[OF rb ops(1) cc(2-4) tk tr(1,2), of "[]" S'] by simp
    then have op': "offpath st' z x T'"
      using sib cp by (simp add: T(2) offpath_plug[of st' x C] nk)
    have "stacked st' z x s" if pn: "path_node (NO_KEY st) x T s"
    proof -
      obtain C1 t where t: "T = plug C1 t" "adr t = s" "\<not> is_leaf t" "cpath (NO_KEY st) x C1"
        using pn unfolding path_node_def by blast
      from t(1) T(1) have pp: "plug C S = plug C1 t" by simp
      from pp cp t(4) show ?thesis
      proof (cases rule: cpath_cases)
        case (1 F)
        have "offpath st z x t" using op offpath_plug[OF t(4)] by (simp add: t(1))
        moreover have "set (addrs t) \<subseteq> set (addrs S)" by (simp add: 1 set_addrs_plug)
        moreover have "root st' \<notin> set (addrs S)" "distinct (addrs S)"
          using hwfD(7,8)[OF hw] fr by (auto simp: T(1) set_addrs_plug distinct_addrs_plug framed_def)
        ultimately show ?thesis
          using t(2,3) tr(3) offpath_framed[OF _ fr, of z x t] ver
          by (auto simp: stacked_def 1 tree_at_plug distinct_addrs_plug T(1) set_addrs_plug intro!: exI[of _ t])
      next
        case (2 F)
        have T2: "T' = plug C1 (plug F S')" by (simp add: T(2) 2 plug_append)
        then have "offpath st' z x (plug F S')" using op' offpath_plug[of st' x C1] t(4) by (simp add: nk)
        moreover have "adr (plug F S') = s" using t(2) 2 by (simp add: adr_plug)
        ultimately show ?thesis using stackedI[OF hw' T2 not_leaf_plug[OF 2(2)]] by simp
      qed
    qed
    then show ?thesis using fr op' by blast
  qed
  then show "framed st st'" "offpath st' z x T'" "path_node (NO_KEY st) x T s \<Longrightarrow> stacked st' z x s"
    by blast+
qed

section \<open>The versions after an update\<close>

lemma found_leaf_cpath:
  assumes "chrom nk T" and "found_leaf x T = (D, u)"
  shows "cpath nk x D"
  using assms
proof (cases rule: found_leaf_split)
  case (inner E a v b v')
  have "\<forall>f\<in>set E. fkey f \<noteq> nk" using chrom_inner_sub(2)[OF inner(3)] by blast
  then show ?thesis using cpath_on_path[of E nk x] inner(2) by (simp add: inner(1) cpath_append)
qed simp

lemma stack_path_node:
  assumes "cpath nk x D" and "s \<in> set (map fadr D)"
  shows "path_node nk x (plug D t) s"
proof -
  obtain f where "f \<in> set D" "s = fadr f" using assms(2) by auto
  then obtain F C where D: "D = F @ f # C" by (auto dest: split_list)
  have "plug D t = plug C (plug (F @ [f]) t)" by (simp add: D plug_append)
  moreover have "adr (plug (F @ [f]) t) = s" using \<open>s = fadr f\<close> by (simp add: adr_plug)
  moreover have "cpath nk x C" using assms(1) by (simp add: D cpath_append)
  ultimately show ?thesis unfolding path_node_def using not_leaf_plug[of "F @ [f]" t] by blast
qed

text \<open>
  Between two operations every version is up to date.  The sentinel leaf counts nothing, except
  that the last \<open>erase\<close> may have left an empty tree whose leaf counts as one key.
\<close>

definition vsync :: "('k, 'v) Chromatic \<Rightarrow> int \<Rightarrow> ('k, 'v) ct \<Rightarrow> bool" where
  "vsync st z T \<longleftrightarrow> (z = 0 \<or> z = 1 \<and> is_leaf T) \<and> vfull st z T \<and> vroot st z T"

lemma insert_versions:
  assumes hw: "hwf st T" and ch: "chrom (NO_KEY st) T" and vs: "vsync st z T"
    and lu: "leaf_updated x st T out st' T'"
  obtains ss z' where "node_stack out = ss @ [root st]" "offpath st' z' x T'" "framed st st'"
    "\<forall>s\<in>set ss. path_node (NO_KEY st) x T' s" "z' = 0 \<or> z' = 1 \<and> is_leaf T'"
proof -
  obtain D u where fl: "found_leaf x T = (D, u)" by (meson surj_pair)
  have T: "plug D u = T" "is_leaf u" using found_leaf_plug[OF fl] by blast+
  have cp: "cpath (NO_KEY st) x D" by (rule found_leaf_cpath[OF ch fl])
  have stk: "node_stack out = map fadr (tl D) @ [root st]"
    and up: "st' = st \<and> T' = T \<or> (\<exists>S'. T' = plug D S' \<and> grown D u S' 0 st st')"
    using lu by (simp_all add: leaf_updated_def fl)
  have full: "vfull st z T" using vs by (simp add: vsync_def)
  have ss: "\<forall>s\<in>set (map fadr (tl D)). path_node (NO_KEY st) x (plug D t) s" for t
    using stack_path_node[OF cp] by (cases D) auto
  show ?thesis
  proof (cases "st' = st \<and> T' = T")
    case True
    then show ?thesis
      using that[OF stk, of z] ss[of u] T(1) vs vpart_offpath[OF vfull_vpart[OF full]]
      by (auto simp: vsync_def)
  next
    case False
    then obtain S' where S': "T' = plug D S'" "grown D u S' 0 st st'" using up by blast
    have g: "framed st st'" "\<forall>a\<in>insert (root st) (set (addrs (plug D u))). nversion st' a = nversion st a"
      "vfull st' 0 S'" using S'(2) by (simp_all add: grown_def)
    have "vpart st' 0 (fsib f)" if "f \<in> set D" for f
    proof -
      have "D \<noteq> []" using that by auto
      then have "z = 0" using vs T(1) not_leaf_plug[of D u] by (auto simp: vsync_def)
      then have "vfull st 0 (fsib f)" using full vfull_plug[of st z D u] that T(1) by blast
      then have "vfull st' 0 (fsib f)"
        by (rule vfull_framed[OF _ g(1)]) (use g(2) fsib_caddrs[OF that] in \<open>auto simp: set_addrs_plug\<close>)
      then show ?thesis by (rule vfull_vpart)
    qed
    then have "offpath st' 0 x T'"
      using offpath_plug[of st' x D 0 S'] cp vpart_offpath[OF vfull_vpart[OF g(3)]] g(1)
      by (simp add: S'(1) framed_def)
    then show ?thesis using that[OF stk, of 0] ss[of S'] g(1) S'(1) by simp
  qed
qed

lemma erase_versions:
  assumes hw: "hwf st T" and ch: "chrom (NO_KEY st) T" and vs: "vsync st z T"
    and lu: "leaf_erased x st T out st' T'" and hw': "hwf st' T'" and ch': "chrom (NO_KEY st) T'"
  obtains ss z' where "node_stack out = ss @ [root st]" "offpath st' z' x T'" "framed st st'"
    "\<forall>s\<in>set ss. path_node (NO_KEY st) x T' s" "z' = 0 \<or> z' = 1 \<and> is_leaf T'"
    "\<not> (st' = st \<and> T' = T) \<Longrightarrow> is_leaf T' \<Longrightarrow> z' = 1"
proof -
  obtain D u where fl: "found_leaf x T = (D, u)" by (meson surj_pair)
  have T: "plug D u = T" "is_leaf u" using found_leaf_plug[OF fl] by blast+
  have cp: "cpath (NO_KEY st) x D" by (rule found_leaf_cpath[OF ch fl])
  have stk: "node_stack out = map fadr (tl D) @ [root st]"
    and up: "st' = st \<and> T' = T \<or> (\<exists>f D' a w. D = f # D' \<and> T' = plug D' (copy a w (fsib f)) \<and>
        a \<notin> set (addrs T) \<and> rebuilt D' (fill f u) (copy a w (fsib f)) st st')"
    using lu by (simp_all add: leaf_erased_def fl)
  have full: "vfull st z T" using vs by (simp add: vsync_def)
  show ?thesis
  proof (cases "st' = st \<and> T' = T")
    case True
    have "\<forall>s\<in>set (map fadr (tl D)). path_node (NO_KEY st) x T s"
      using stack_path_node[OF cp, of _ u] T(1) by (cases D) auto
    then show ?thesis
      using that[OF stk, of z] True vs vpart_offpath[OF vfull_vpart[OF full]] by (auto simp: vsync_def)
  next
    case False
    then obtain f D' a w where D: "D = f # D'" and T': "T' = plug D' (copy a w (fsib f))"
      and a: "a \<notin> set (addrs T)" and rb: "rebuilt D' (fill f u) (copy a w (fsib f)) st st'"
      using up by blast
    define z' :: int where "z' = (if is_leaf T' then 1 else 0)"
    have z: "z = 0" using vs T(1) not_leaf_plug[of D u] by (auto simp: vsync_def D)
    have fr: "framed st st'" and ver: "\<And>b. b \<in> set (addrs T) \<Longrightarrow> nversion st' b = nversion st b"
      and new: "\<And>b. b \<in> set (addrs (copy a w (fsib f))) \<Longrightarrow> b \<notin> set (addrs (fill f u)) \<Longrightarrow> built st' b"
      using rb T(1) by (auto simp: rebuilt_def D)
    have nk: "NO_KEY st' = NO_KEY st" using fr by (simp add: framed_def)
    have sib: "vpart st' 0 t" if "vfull st 0 t" "set (addrs t) \<subseteq> set (addrs T)" for t
      using vfull_framed[OF that(1) fr] ver that(2) vfull_vpart by blast
    have vf: "\<forall>g\<in>set D. vfull st 0 (fsib g)" using vfull_plug[of st z D u] full T(1) z by simp
    have sD: "set (addrs (fsib g)) \<subseteq> set (addrs T)" if "g \<in> set D" for g
      using fsib_caddrs[OF that] by (auto simp: T(1)[symmetric] set_addrs_plug)
    have "fill f u = plug [f] u" by simp
    then have "a \<notin> set (addrs (fill f u))" using a T(1) by (auto simp: D set_addrs_plug)
    then have bl: "built st' a" using new[of a] by simp
    have tr: "tree_at (nodeH st') (copy a w (fsib f))" using hwfD(2)[OF hw'] by (simp add: T' tree_at_plug)
    have "offpath st' z' x (copy a w (fsib f)) \<and> (D' \<noteq> [] \<longrightarrow> z' = 0)"
    proof (cases "fsib f")
      case (Nd b k v w' l r)
      have "\<not> is_leaf T'" using not_leaf_plug[of D'] by (cases "D' = []") (simp_all add: T' Nd)
      moreover have "vpart st' 0 l" "vpart st' 0 r"
        using sib[of l] sib[of r] vf sD[of f] by (auto simp: D Nd)
      ultimately show ?thesis using vpart_offpath by (auto simp: Nd z'_def)
    next
      case (Lf b k v w')
      have lv: "leaf_version st' (nversion st' a) k 1" using bl tr by (simp add: built_def Lf)
      show ?thesis
      proof (cases "D' = []")
        case True
        then show ?thesis using lv by (simp add: T' Lf z'_def leaf_sum_def)
      next
        case nD: False
        then have "k \<noteq> NO_KEY st"
        proof -
          obtain E c vc b' v' where E: "D = E @ [FL c (NO_KEY st) vc 1 (Lf b' (NO_KEY st) v' 1)]"
              "chrom_inner (NO_KEY st) (plug E u)"
            using found_leaf_split[OF ch fl] D by (metis list.distinct(1))
          then have "f \<in> set E" using nD D by (cases E) auto
          then obtain E1 E2 where "E = E1 @ f # E2" by (auto dest: split_list)
          then have "k \<in> set (lkeys (plug E u))"
            by (cases f) (use Lf in \<open>auto simp: plug_append leaves_plug\<close>)
          then show ?thesis using E(2) unfolding chrom_inner_def by metis
        qed
        then show ?thesis
          using lv not_leaf_plug[OF nD] by (simp add: T' Lf z'_def leaf_sum_def nk)
      qed
    qed
    moreover have "vpart st' z' (fsib g)" if "g \<in> set D'" for g
      using sib[of "fsib g"] vf sD[of g] that calculation by (cases D') (auto simp: D)
    moreover have "cpath (NO_KEY st') x D'" using cp by (simp add: D nk)
    ultimately have "offpath st' z' x T'" by (simp add: T' offpath_plug)
    moreover have "\<forall>s\<in>set (map fadr (tl D)). path_node (NO_KEY st) x T' s"
      using stack_path_node[of "NO_KEY st" x D'] cp by (simp add: D T')
    ultimately show ?thesis using that[OF stk, of z'] fr by (auto simp: z'_def)
  qed
qed

end
