(* ===== verification/BAT_Operations.thy ===== *)
theory BAT_Operations
  imports Version_Paths
begin

text \<open>
  The public operations of the tree (\<open>insert\<close>, \<open>insertIfAbsent\<close>, \<open>erase\<close>, \<open>find\<close>, \<open>contains\<close>,
  \<open>rangeQuery\<close>, \<open>getRank\<close>, \<open>size\<close>, \<open>debugKeySum\<close>) as compositions of the components, with the
  invariant \<open>bat\<close> that holds between operations.
\<close>

section \<open>Updates\<close>

definition start_out :: "'v \<Rightarrow> 'v update_out" where
  "start_out noValue = \<lparr>result = noValue, shouldRebalance = False, node_stack = []\<rparr>"

definition insert_op ::
    "nat \<Rightarrow> 'k::linorder \<Rightarrow> 'v \<Rightarrow> ('k, 'v) Chromatic \<Rightarrow> ('v \<times> ('k, 'v) Chromatic) option" where
  "insert_op tid x v st =
    do {
      (out, st) \<leftarrow> insertLoop tid x v False (start_out (NO_VALUE st)) st;
      st \<leftarrow> (if shouldRebalance out then fixAllToKey tid x st else Some st);
      st \<leftarrow> propagate tid x (node_stack out) st;
      Some (result out, st)
    }"

definition insertIfAbsent ::
    "nat \<Rightarrow> 'k::linorder \<Rightarrow> 'v \<Rightarrow> ('k, 'v) Chromatic \<Rightarrow> ('v \<times> ('k, 'v) Chromatic) option" where
  "insertIfAbsent tid x v st =
    do {
      (out, st) \<leftarrow> insertLoop tid x v True (start_out (NO_VALUE st)) st;
      st \<leftarrow> (if shouldRebalance out then fixAllToKey tid x st else Some st);
      st \<leftarrow> propagate tid x (node_stack out) st;
      Some (result out, st)
    }"

definition erase ::
    "nat \<Rightarrow> 'k::linorder \<Rightarrow> ('k, 'v) Chromatic \<Rightarrow> (('v \<times> bool) \<times> ('k, 'v) Chromatic) option" where
  "erase tid x st =
    do {
      (out, st) \<leftarrow> eraseLoop tid x (start_out (NO_VALUE st)) st;
      st \<leftarrow> (if shouldRebalance out then fixAllToKey tid x st else Some st);
      st \<leftarrow> propagate tid x (node_stack out) st;
      Some ((result out, result out \<noteq> NO_VALUE st), st)
    }"

section \<open>Queries on the nodes\<close>

partial_function (option) findLoop :: "'k::linorder \<Rightarrow> addr \<Rightarrow> ('k, 'v) Chromatic \<Rightarrow> addr option" where
  "findLoop x l st =
    (if nleft st l \<noteq> NULL
     then findLoop x (if x < nkey st l then nleft st l else nright st l) st
     else Some l)"

definition find_op :: "'k::linorder \<Rightarrow> ('k, 'v) Chromatic \<Rightarrow> ('v \<times> bool) option" where
  "find_op x st =
    (let p = nleft st (root st); l = nleft st p in
     if l = NULL then Some (NO_VALUE st, False)
     else do {
       l \<leftarrow> findLoop x l st;
       Some (if x = nkey st l then (nval st l, True) else (NO_VALUE st, False))
     })"

partial_function (option) computeSize :: "addr \<Rightarrow> ('k, 'v) Chromatic \<Rightarrow> int option" where
  "computeSize a st =
    (if a = NULL then Some 0
     else if nleft st a \<noteq> NULL
       then do { m \<leftarrow> computeSize (nleft st a) st; n \<leftarrow> computeSize (nright st a) st; Some (m + n) }
       else Some 1)"

definition size_op :: "('k, 'v) Chromatic \<Rightarrow> int option" where
  "size_op st = computeSize (nleft st (nleft st (root st))) st"

text \<open>The checksum of the benchmark; the keys are integers there, and the sum does not overflow.\<close>

partial_function (option) debugKeySum :: "addr \<Rightarrow> (int, 'v) Chromatic \<Rightarrow> int option" where
  "debugKeySum a st =
    (if a = NULL then Some 0
     else if nleft st a = NULL then Some (if nkey st a = NO_KEY st then 0 else nkey st a)
     else do { m \<leftarrow> debugKeySum (nleft st a) st; n \<leftarrow> debugKeySum (nright st a) st; Some (m + n) })"

section \<open>Queries on the versions\<close>

partial_function (option) containsLoop :: "'k::linorder \<Rightarrow> addr \<Rightarrow> ('k, 'v) Chromatic \<Rightarrow> addr option" where
  "containsLoop x l st =
    (let ver = versionH st l in
     if vleft ver \<noteq> NULL
     then containsLoop x (if vkey ver = NO_KEY st \<or> x < vkey ver then vleft ver else vright ver) st
     else Some l)"

definition contains_op :: "'k::linorder \<Rightarrow> ('k, 'v) Chromatic \<Rightarrow> bool option" where
  "contains_op x st =
    do { l \<leftarrow> containsLoop x (nversion st (root st)) st; Some (x = vkey (versionH st l)) }"

definition compareKeys :: "'k::linorder \<Rightarrow> 'k \<Rightarrow> bool \<Rightarrow> 'k \<Rightarrow> bool \<Rightarrow> bool" where
  "compareKeys noKey a aIsLo b bIsLo =
    (if a = noKey then aIsLo else if b = noKey then \<not> bIsLo else a < b)"

partial_function (option) doRangeQuery ::
    "'k::linorder \<Rightarrow> 'k \<Rightarrow> addr \<Rightarrow> ('k, 'v) Chromatic \<Rightarrow> int option" where
  "doRangeQuery lo hi cur st =
    (let ver = versionH st cur; noKey = NO_KEY st in
     if lo = noKey \<and> hi = noKey then Some (vsum ver)
     else if vleft ver = NULL
       then Some (if vkey ver \<noteq> noKey \<and> \<not> compareKeys noKey (vkey ver) False lo True \<and>
                     \<not> compareKeys noKey hi False (vkey ver) False then 1 else 0)
     else if vkey ver = noKey \<or> compareKeys noKey hi False (vkey ver) False
       then doRangeQuery lo hi (vleft ver) st
     else if compareKeys noKey (vkey ver) False lo True
       then doRangeQuery lo hi (vright ver) st
     else do {
       m \<leftarrow> doRangeQuery lo noKey (vleft ver) st;
       n \<leftarrow> doRangeQuery noKey hi (vright ver) st;
       Some (m + n)
     })"

definition rangeQuery :: "'k::linorder \<Rightarrow> 'k \<Rightarrow> ('k, 'v) Chromatic \<Rightarrow> int option" where
  "rangeQuery lo hi st = doRangeQuery lo hi (nversion st (root st)) st"

text \<open>Both \<open>currLeft\<close> and \<open>currRight\<close> are read from the left child, as in the source.\<close>

partial_function (option) doGetRank :: "'k::linorder \<Rightarrow> addr \<Rightarrow> ('k, 'v) Chromatic \<Rightarrow> int option" where
  "doGetRank x cur st =
    (let ver = versionH st cur in
     if vleft ver = NULL then Some (if vkey ver = x then 1 else - 1)
     else let currLeft = vleft ver; currRight = vleft ver in
       if vkey ver = NO_KEY st \<or> x < vkey ver then doGetRank x currLeft st
       else do { n \<leftarrow> doGetRank x currRight st; Some (vsum (versionH st currLeft) + n) })"

definition getRank :: "'k::linorder \<Rightarrow> ('k, 'v) Chromatic \<Rightarrow> int option" where
  "getRank x st = doGetRank x (nversion st (root st)) st"

section \<open>The invariant between operations\<close>

definition bat_at :: "('k::linorder, 'v) Chromatic \<Rightarrow> int \<Rightarrow> ('k, 'v) ct \<Rightarrow> bool" where
  "bat_at st z T \<longleftrightarrow> hwf st T \<and> chrom (NO_KEY st) T \<and> vsync st z T"

definition bat :: "('k::linorder, 'v) Chromatic \<Rightarrow> ('k, 'v) ct \<Rightarrow> bool" where
  "bat st T \<longleftrightarrow> (\<exists>z. bat_at st z T)"

text \<open>What an update leaves for rebalancing and \<open>propagate\<close>.\<close>

definition updated :: "'k::linorder \<Rightarrow> int \<Rightarrow> ('k, 'v) Chromatic \<Rightarrow> addr list \<Rightarrow> ('k, 'v) Chromatic \<Rightarrow> ('k, 'v) ct \<Rightarrow> bool" where
  "updated x z st stack st' T' \<longleftrightarrow> hwf st' T' \<and> chrom (NO_KEY st) T' \<and> framed st st' \<and>
     (z = 0 \<or> z = 1 \<and> is_leaf T') \<and>
     (\<exists>ss. stack = ss @ [root st] \<and> offpath st' z x T' \<and> (\<forall>s\<in>set ss. path_node (NO_KEY st) x T' s))"

lemma same_map_leaf:
  assumes "same_map x st T st' T'"
  shows "is_leaf T' \<longleftrightarrow> is_leaf T" "contents T' = contents T"
proof -
  have "(is_leaf T' \<longleftrightarrow> is_leaf T) \<and> contents T' = contents T"
  proof (cases "st' = st \<and> T' = T")
    case False
    then obtain C S S' where s: "T = plug C S" "T' = plug C S'" "C \<noteq> []" "tokens S' = tokens S"
      using assms unfolding same_map_def by blast
    obtain E f where C: "C = E @ [f]" using s(3) by (metis rev_exhaust)
    have "leaves (plug E S') = leaves (plug E S)"
      using tokens_same(1)[OF tokens_plug[OF s(4)]] by simp
    then show ?thesis by (cases f) (simp_all add: s(1,2) C plug_append)
  qed simp
  then show "is_leaf T' \<longleftrightarrow> is_leaf T" "contents T' = contents T" by blast+
qed

lemma finish_update:
  fixes st :: "('k::linorder, 'v) Chromatic"
  assumes up: "updated x z st stack st1 T1" and rd: "ready st tid"
  shows "\<exists>st2 st' T'. (if b then fixAllToKey tid x st1 else Some st1) = Some st2 \<and>
    propagate tid x stack st2 = Some st' \<and> bat_at st' z T' \<and> contents T' = contents T1 \<and>
    (is_leaf T' \<longleftrightarrow> is_leaf T1) \<and> framed st st'"
proof -
  have hw: "hwf st1 T1" and ch: "chrom (NO_KEY st) T1" and fr: "framed st st1"
    using up by (simp_all add: updated_def)
  obtain ss where ss: "stack = ss @ [root st]" "offpath st1 z x T1"
      "\<forall>s\<in>set ss. path_node (NO_KEY st) x T1 s" "z = 0 \<or> z = 1 \<and> is_leaf T1"
    using up unfolding updated_def by blast
  have e: "NO_KEY st1 = NO_KEY st" "root st1 = root st" "ready st1 tid" using fr rd by (simp_all add: framed_def)
  have ch1: "chrom (NO_KEY st1) T1" using ch e(1) by simp
  obtain st2 T2 where s2: "(if b then fixAllToKey tid x st1 else Some st1) = Some st2"
      "hwf st2 T2" "chrom (NO_KEY st1) T2" "same_map x st1 T1 st2 T2"
  proof (cases b)
    case True
    then show ?thesis using fixAllToKey_spec[OF hw ch1 e(3), of x] that by auto
  next
    case False
    have "same_map x st1 T1 st1 T1" by (simp add: same_map_def)
    then show ?thesis using False hw ch1 that by simp
  qed
  note rv = rebalance_versions[OF hw ch1 ss(2) s2(4,2)] and sl = same_map_leaf[OF s2(4)]
  have e2: "NO_KEY st2 = NO_KEY st" "root st2 = root st" "ready st2 tid"
    using rv(1) e by (simp_all add: framed_def)
  have "\<forall>s\<in>set ss. stacked st2 z x s" using rv(3) ss(3) e(1) by simp
  then obtain st' where st': "propagate tid x (ss @ [root st2]) st2 = Some st'" "hwf st' T2" "framed st2 st'"
      "vfull st' z T2" "vroot st' z T2"
    using propagate_spec[OF s2(2) e2(3) rv(2)] by blast
  have "NO_KEY st' = NO_KEY st" using st'(3) e2 by (simp add: framed_def)
  then have "bat_at st' z T2"
    using st'(2,4,5) s2(3) ss(4) sl(1) e(1) by (auto simp: bat_at_def vsync_def)
  then show ?thesis
    using s2(1) st'(1) sl framed_trans[OF framed_trans[OF fr rv(1)] st'(3)] by (auto simp: ss(1) e2(2))
qed

section \<open>The updates implement the map operations\<close>

lemma insertLoop_bat:
  assumes b: "bat st T" and rd: "ready st tid" and x: "x \<noteq> NO_KEY st"
  shows "\<exists>out st1 T1 z. insertLoop tid x v onlyIfAbsent (start_out (NO_VALUE st)) st = Some (out, st1) \<and>
    updated x z st (node_stack out) st1 T1 \<and>
    result out = (case map_of (contents T) x of None \<Rightarrow> NO_VALUE st | Some b \<Rightarrow> b) \<and>
    map_of (contents T1) = (if onlyIfAbsent \<and> map_of (contents T) x \<noteq> None then map_of (contents T)
       else (map_of (contents T))(x \<mapsto> v))"
proof -
  obtain z where h: "hwf st T" "chrom (NO_KEY st) T" "vsync st z T" using b unfolding bat_def bat_at_def by blast
  obtain out st1 T1 where s1: "insertLoop tid x v onlyIfAbsent (start_out (NO_VALUE st)) st = Some (out, st1)"
      "hwf st1 T1" "chrom (NO_KEY st) T1" "leaf_updated x st T out st1 T1"
      "result out = (case map_of (contents T) x of None \<Rightarrow> NO_VALUE st | Some b \<Rightarrow> b)"
      "map_of (contents T1) = (if onlyIfAbsent \<and> map_of (contents T) x \<noteq> None then map_of (contents T)
         else (map_of (contents T))(x \<mapsto> v))"
    using insertLoop_spec[OF h(1,2) rd x] by blast
  have "\<exists>z. updated x z st (node_stack out) st1 T1"
    by (rule insert_versions[OF h s1(4)]) (use s1(2,3) in \<open>auto simp: updated_def\<close>)
  then show ?thesis using s1 by blast
qed

lemma insert_op_spec:
  assumes b: "bat st T" and rd: "ready st tid" and x: "x \<noteq> NO_KEY st"
  shows "\<exists>st' T'. insert_op tid x v st =
      Some (case map_of (contents T) x of None \<Rightarrow> NO_VALUE st | Some b \<Rightarrow> b, st') \<and>
    bat st' T' \<and> framed st st' \<and> map_of (contents T') = (map_of (contents T))(x \<mapsto> v)"
proof -
  obtain out st1 T1 z where s1: "insertLoop tid x v False (start_out (NO_VALUE st)) st = Some (out, st1)"
      "updated x z st (node_stack out) st1 T1"
      "result out = (case map_of (contents T) x of None \<Rightarrow> NO_VALUE st | Some b \<Rightarrow> b)"
      "map_of (contents T1) = (map_of (contents T))(x \<mapsto> v)"
    using insertLoop_bat[OF assms, of v False] by auto
  obtain st2 st' T' where s2: "(if shouldRebalance out then fixAllToKey tid x st1 else Some st1) = Some st2"
      "propagate tid x (node_stack out) st2 = Some st'" "bat st' T'" "contents T' = contents T1" "framed st st'"
    using finish_update[OF s1(2) rd] unfolding bat_def by blast
  show ?thesis using s1 s2 by (intro exI[of _ st'] exI[of _ T']) (simp add: insert_op_def)
qed

lemma insertIfAbsent_spec:
  assumes b: "bat st T" and rd: "ready st tid" and x: "x \<noteq> NO_KEY st"
  shows "\<exists>st' T'. insertIfAbsent tid x v st =
      Some (case map_of (contents T) x of None \<Rightarrow> NO_VALUE st | Some b \<Rightarrow> b, st') \<and>
    bat st' T' \<and> framed st st' \<and> map_of (contents T') =
      (if map_of (contents T) x = None then (map_of (contents T))(x \<mapsto> v) else map_of (contents T))"
proof -
  obtain out st1 T1 z where s1: "insertLoop tid x v True (start_out (NO_VALUE st)) st = Some (out, st1)"
      "updated x z st (node_stack out) st1 T1"
      "result out = (case map_of (contents T) x of None \<Rightarrow> NO_VALUE st | Some b \<Rightarrow> b)"
      "map_of (contents T1) =
        (if map_of (contents T) x = None then (map_of (contents T))(x \<mapsto> v) else map_of (contents T))"
    using insertLoop_bat[OF assms, of v True] by auto
  obtain st2 st' T' where s2: "(if shouldRebalance out then fixAllToKey tid x st1 else Some st1) = Some st2"
      "propagate tid x (node_stack out) st2 = Some st'" "bat st' T'" "contents T' = contents T1" "framed st st'"
    using finish_update[OF s1(2) rd] unfolding bat_def by blast
  show ?thesis using s1 s2 by (intro exI[of _ st'] exI[of _ T']) (simp add: insertIfAbsent_def)
qed

lemma erase_spec:
  assumes b: "bat st T" and rd: "ready st tid" and x: "x \<noteq> NO_KEY st"
    and r: "r = (case map_of (contents T) x of None \<Rightarrow> NO_VALUE st | Some b \<Rightarrow> b)"
  shows "\<exists>st' z T'. erase tid x st = Some ((r, r \<noteq> NO_VALUE st), st') \<and>
    bat_at st' z T' \<and> framed st st' \<and> map_of (contents T') = (map_of (contents T))(x := None) \<and>
    (map_of (contents T) x \<noteq> None \<and> is_leaf T' \<longrightarrow> z = 1)"
proof -
  obtain z0 where h: "hwf st T" "chrom (NO_KEY st) T" "vsync st z0 T"
    using b unfolding bat_def bat_at_def by blast
  obtain out st1 T1 where s1: "eraseLoop tid x (start_out (NO_VALUE st)) st = Some (out, st1)"
      "hwf st1 T1" "chrom (NO_KEY st) T1" "leaf_erased x st T out st1 T1"
      "result out = (case map_of (contents T) x of
        None \<Rightarrow> if is_leaf T then result (start_out (NO_VALUE st)) else NO_VALUE st | Some b \<Rightarrow> b)"
      "map_of (contents T1) = (map_of (contents T))(x := None)"
    using eraseLoop_spec[OF h(1,2) rd x] by blast
  have res: "result out = r" using s1(5) r by (simp add: start_out_def split: option.splits)
  have ch: "\<not> (st1 = st \<and> T1 = T)" if "map_of (contents T) x \<noteq> None"
  proof
    assume "st1 = st \<and> T1 = T"
    then have "map_of (contents T) x = None" using fun_cong[OF s1(6), of x] by simp
    with that show False by blast
  qed
  obtain z where up: "updated x z st (node_stack out) st1 T1"
    and z: "map_of (contents T) x \<noteq> None \<Longrightarrow> is_leaf T1 \<Longrightarrow> z = 1"
    by (rule erase_versions[OF h s1(4,2,3)]) (use s1(2,3) ch in \<open>auto simp: updated_def\<close>)
  obtain st2 st' T' where s2: "(if shouldRebalance out then fixAllToKey tid x st1 else Some st1) = Some st2"
      "propagate tid x (node_stack out) st2 = Some st'" "bat_at st' z T'" "contents T' = contents T1"
      "is_leaf T' \<longleftrightarrow> is_leaf T1" "framed st st'"
    using finish_update[OF up rd] by blast
  have "NO_VALUE st' = NO_VALUE st" using s2(6) by (simp add: framed_def)
  then show ?thesis
    using s1(1,6) s2 res z by (intro exI[of _ st'] exI[of _ z] exI[of _ T']) (simp add: erase_def)
qed

section \<open>Queries on the nodes\<close>

lemma findLoop_zdown:
  assumes "tree_at (nodeH st) t" and "zdown x C t = (D, u)"
  shows "findLoop x (adr t) st = Some (adr u)"
  using assms
proof (induction x C t rule: zdown.induct)
  case (1 x C a k v w)
  then show ?case by (subst findLoop.simps) auto
next
  case (2 x C a k v w l r)
  have "nleft st a \<noteq> NULL" using 2(3) tree_at_adr by auto
  then show ?case using 2 by (subst findLoop.simps) (auto split: if_splits)
qed

lemma find_op_spec:
  assumes "bat st T" and "x \<noteq> NO_KEY st"
  shows "find_op x st = Some (case map_of (contents T) x of None \<Rightarrow> (NO_VALUE st, False) | Some v \<Rightarrow> (v, True))"
proof -
  have h: "hwf st T" "chrom (NO_KEY st) T" using assms(1) by (auto simp: bat_def bat_at_def)
  note hw = hwfD[OF h(1)]
  show ?thesis
  proof (cases T)
    case (Lf a k v w)
    then show ?thesis using hw(2,3) by (simp add: find_op_def Let_def)
  next
    case (Nd a k v w l r)
    obtain D u where fl: "found_leaf x T = (D, u)" by (meson surj_pair)
    have T: "plug D u = T" using found_leaf_plug[OF fl] by blast
    have u: "nkey st (adr u) = tkey u" "nval st (adr u) = tval u"
      using hw(2) by (simp_all add: T[symmetric] tree_at_plug tree_at_sel)
    have l: "nleft st (root st) = a" "nleft st a = adr l" "adr l \<noteq> NULL" "tree_at (nodeH st) l"
      using hw(2,3) tree_at_adr by (auto simp: Nd)
    have "findLoop x (adr l) st = Some (adr u)"
      using findLoop_zdown[OF l(4), of x "[FL a k v w r]"] fl by (simp add: Nd)
    then show ?thesis
      using l(1-3) u found_leaf_lookup[OF h(2) fl assms(2)] by (simp add: find_op_def Let_def)
  qed
qed

lemma computeSize_tree: "tree_at (nodeH st) t \<Longrightarrow> computeSize (adr t) st = Some (int (length (leaves t)))"
proof (induction t)
  case (Lf a k v w)
  then show ?case by (subst computeSize.simps) simp
next
  case (Nd a k v w l r)
  have "nleft st a \<noteq> NULL" using Nd.prems tree_at_adr by auto
  then show ?case using Nd by (subst computeSize.simps) simp
qed

lemma size_op_spec:
  assumes "bat st T"
  shows "size_op st = Some (int (length (contents T)))"
proof -
  note h = hwfD(2,3)[of st T]
  have hw: "hwf st T" using assms by (auto simp: bat_def bat_at_def)
  show ?thesis
  proof (cases T)
    case (Lf a k v w)
    then show ?thesis using h[OF hw] by (simp add: size_op_def computeSize.simps)
  next
    case (Nd a k v w l r)
    then show ?thesis using h[OF hw] computeSize_tree[of st l] by (simp add: size_op_def)
  qed
qed

lemma debugKeySum_tree:
  "tree_at (nodeH st) t \<Longrightarrow>
     debugKeySum (adr t) st = Some (\<Sum>k\<leftarrow>lkeys t. if k = NO_KEY st then 0 else k)"
proof (induction t)
  case (Lf a k v w)
  then show ?case by (subst debugKeySum.simps) simp
next
  case (Nd a k v w l r)
  have "nleft st a \<noteq> NULL" using Nd.prems tree_at_adr by auto
  then show ?case using Nd by (subst debugKeySum.simps) simp
qed

section \<open>Queries on the versions\<close>

text \<open>The leaf of a version tree that mirrors \<open>t\<close> has the key of the leaf a search of \<open>t\<close> ends at.\<close>

lemma vtree_Nd:
  assumes "vtree_at st z u (Nd a k v w l r)"
  shows "vtree_at st z (vleft (versionH st u)) l" "vtree_at st z (vright (versionH st u)) r"
    "vkey (versionH st u) = k" "vleft (versionH st u) \<noteq> NULL"
    "vsum (versionH st (vleft (versionH st u))) = tsum (NO_KEY st) z l"
proof -
  show v: "vtree_at st z (vleft (versionH st u)) l" "vtree_at st z (vright (versionH st u)) r"
    "vkey (versionH st u) = k"
    using assms by simp_all
  show "vleft (versionH st u) \<noteq> NULL" by (rule live_version_nonnull[OF vtree_at_live[OF v(1)]])
  show "vsum (versionH st (vleft (versionH st u))) = tsum (NO_KEY st) z l" by (rule vtree_at_sum[OF v(1)])
qed

lemma containsLoop_zdown:
  assumes "vtree_at st z p t" and "zdown x C t = (D, u)" and "NO_KEY st \<notin> ikeys t"
  shows "\<exists>l. containsLoop x p st = Some l \<and> vkey (versionH st l) = tkey u"
  using assms
proof (induction x C t arbitrary: p rule: zdown.induct)
  case (1 x C a k v w)
  then show ?case by (subst containsLoop.simps) (auto simp: leaf_version_def)
next
  case (2 x C a k v w l r)
  note f = vtree_Nd[OF "2.prems"(1)]
  have k: "k \<noteq> NO_KEY st" "NO_KEY st \<notin> ikeys l" "NO_KEY st \<notin> ikeys r" using "2.prems"(3) by auto
  have step: "containsLoop x p st =
      containsLoop x (if x < k then vleft (versionH st p) else vright (versionH st p)) st"
    using f(3,4) k(1) by (subst containsLoop.simps) (simp add: Let_def)
  show ?case
    unfolding step using "2.IH"(1)[OF _ f(1)] "2.IH"(2)[OF _ f(2)] "2.prems"(2) k(2,3)
    by (cases "x < k") simp_all
qed

lemma containsLoop_left:
  assumes "vleft (versionH st p) \<noteq> NULL" and "vkey (versionH st p) = NO_KEY st"
  shows "containsLoop x p st = containsLoop x (vleft (versionH st p)) st"
  using assms by (subst containsLoop.simps) (simp add: Let_def)

lemma contains_op_spec:
  assumes "bat st T" and "x \<noteq> NO_KEY st"
  shows "contains_op x st = Some (map_of (contents T) x \<noteq> None)"
proof -
  obtain z where h: "hwf st T" "chrom (NO_KEY st) T" "vroot st z T"
    using assms(1) by (auto simp: bat_def bat_at_def vsync_def)
  let ?u = "versionH st (nversion st (root st))"
  have u: "vkey ?u = NO_KEY st" "vtree_at st z (vleft ?u) T"
    using h(3) by (simp_all add: vroot_def Let_def)
  have "vleft ?u \<noteq> NULL" using u(2) vtree_at_live live_version_nonnull by blast
  then have r: "containsLoop x (nversion st (root st)) st = containsLoop x (vleft ?u) st"
    using u(1) by (rule containsLoop_left)
  obtain D w where fl: "found_leaf x T = (D, w)" by (meson surj_pair)
  have "\<exists>l. containsLoop x (vleft ?u) st = Some l \<and> vkey (versionH st l) = tkey w"
  proof (cases T)
    case (Lf a k v wt)
    have "zdown x [] T = ([], w)" "ikeys T = {}" using fl by (auto simp: Lf)
    then show ?thesis using containsLoop_zdown[OF u(2), of x "[]"] by simp
  next
    case (Nd a k v wt l r)
    note f = vtree_Nd[OF u(2)[unfolded Nd]]
    have k: "k = NO_KEY st" "NO_KEY st \<notin> ikeys l" using h(2) by (auto simp: Nd chrom_inner_def)
    have "containsLoop x (vleft ?u) st = containsLoop x (vleft (versionH st (vleft ?u))) st"
      by (rule containsLoop_left) (use f k in simp_all)
    then show ?thesis using containsLoop_zdown[OF f(1) _ k(2)] fl by (simp add: Nd)
  qed
  then show ?thesis
    using r found_leaf_lookup[OF h(2) fl assms(2)] by (auto simp: contains_op_def)
qed

text \<open>The keys between two bounds; the sentinel key as a bound stands for no bound.\<close>

definition in_range :: "'k::linorder \<Rightarrow> 'k \<Rightarrow> 'k \<Rightarrow> 'k \<Rightarrow> bool" where
  "in_range nk lo hi k \<longleftrightarrow> (lo = nk \<or> lo \<le> k) \<and> (hi = nk \<or> k \<le> hi)"

lemma compareKeys_range:
  assumes "k \<noteq> nk"
  shows "compareKeys nk k False lo True \<longleftrightarrow> lo \<noteq> nk \<and> k < lo"
    "compareKeys nk hi False k False \<longleftrightarrow> hi \<noteq> nk \<and> hi < k"
  using assms by (auto simp: compareKeys_def)

lemma filter_none: "(\<And>x. x \<in> set xs \<Longrightarrow> \<not> P x) \<Longrightarrow> filter P xs = []"
  by (simp add: filter_empty_conv)

lemma tsum_length: "nk \<notin> set (lkeys t) \<Longrightarrow> tsum nk z t = int (length (leaves t))"
  by (induction t) auto

lemma doRangeQuery_inner:
  assumes "vtree_at st z u t" and "bst t" and "NO_KEY st \<notin> set (lkeys t)" and "NO_KEY st \<notin> ikeys t"
  shows "doRangeQuery lo hi u st = Some (int (length (filter (in_range (NO_KEY st) lo hi) (lkeys t))))"
  using assms
proof (induction t arbitrary: u lo hi)
  case (Lf a k v w)
  then show ?case
    by (subst doRangeQuery.simps) (auto simp: leaf_version_def leaf_sum_def compareKeys_range in_range_def Let_def)
next
  case (Nd a k v w l r)
  let ?nk = "NO_KEY st" and ?R = "in_range (NO_KEY st) lo hi"
  note f = vtree_Nd[OF Nd.prems(1)]
  have k: "k \<noteq> ?nk" "?nk \<notin> set (lkeys l)" "?nk \<notin> set (lkeys r)" "?nk \<notin> ikeys l" "?nk \<notin> ikeys r"
    and b: "bst l" "bst r" "\<forall>y\<in>set (lkeys l). y < k" "\<forall>y\<in>set (lkeys r). k \<le> y"
    using Nd.prems(2-4) by auto
  note IH = Nd.IH(1)[OF f(1) b(1) k(2,4)] Nd.IH(2)[OF f(2) b(2) k(3,5)]
  consider (all) "lo = ?nk" "hi = ?nk" | (left) "hi \<noteq> ?nk" "hi < k"
    | (right) "\<not> (hi \<noteq> ?nk \<and> hi < k)" "lo \<noteq> ?nk" "k < lo"
    | (both) "\<not> (hi \<noteq> ?nk \<and> hi < k)" "\<not> (lo \<noteq> ?nk \<and> k < lo)" "\<not> (lo = ?nk \<and> hi = ?nk)"
    by blast
  then show ?case
  proof cases
    case all
    have "filter ?R ks = ks" for ks using all by (induction ks) (auto simp: in_range_def)
    moreover have "vsum (versionH st u) = int (length (leaves (Nd a k v w l r)))"
      using vtree_at_sum[OF Nd.prems(1)] tsum_length[OF Nd.prems(3)] by simp
    ultimately show ?thesis using all by (subst doRangeQuery.simps) (simp add: Let_def)
  next
    case left
    have "filter ?R (lkeys r) = []"
      by (rule filter_none) (use left b(4) in \<open>auto simp: in_range_def dest: order.strict_trans1\<close>)
    then show ?thesis
      using left IH(1) f k(1) by (subst doRangeQuery.simps) (simp add: Let_def compareKeys_range)
  next
    case right
    have "filter ?R (lkeys l) = []"
      by (rule filter_none) (use right b(3) in \<open>auto simp: in_range_def\<close>)
    then show ?thesis
      using right IH(2) f k(1) by (subst doRangeQuery.simps) (auto simp: Let_def compareKeys_range)
  next
    case both
    have "filter ?R (lkeys l) = filter (in_range ?nk lo ?nk) (lkeys l)"
      "filter ?R (lkeys r) = filter (in_range ?nk ?nk hi) (lkeys r)"
      using both b(3,4) by (intro filter_cong[OF refl]; fastforce simp: in_range_def)+
    moreover have "doRangeQuery lo hi u st = do {
        m \<leftarrow> doRangeQuery lo ?nk (vleft (versionH st u)) st;
        n \<leftarrow> doRangeQuery ?nk hi (vright (versionH st u)) st;
        Some (m + n) }"
      using both f(3,4) k(1) by (subst doRangeQuery.simps) (auto simp: Let_def compareKeys_range)
    ultimately show ?thesis using IH by simp
  qed
qed

lemma doRangeQuery_left:
  assumes "vleft (versionH st p) \<noteq> NULL" and "vkey (versionH st p) = NO_KEY st"
    and "\<not> (lo = NO_KEY st \<and> hi = NO_KEY st)"
  shows "doRangeQuery lo hi p st = doRangeQuery lo hi (vleft (versionH st p)) st"
  using assms by (subst doRangeQuery.simps) (auto simp: Let_def)

lemma contents_inner:
  assumes "chrom nk T" and "T = Nd a k v w l r"
  shows "contents T = leaves l" "bst l" "nk \<notin> set (lkeys l)" "nk \<notin> ikeys l" "k = nk"
  using assms by (simp_all add: chrom_inner_def)

lemma contents_distinct: "chrom nk T \<Longrightarrow> distinct (map fst (contents T))"
  using bst_sorted by (cases T) (auto simp: chrom_inner_def strict_sorted_iff)

lemma contents_card:
  assumes "chrom nk T"
  shows "int (length (filter P (map fst (contents T)))) = int (card {k \<in> dom (map_of (contents T)). P k})"
proof -
  have "length (filter P (map fst (contents T))) = card (set (filter P (map fst (contents T))))"
    using distinct_card[OF distinct_filter[OF contents_distinct[OF assms]]] by metis
  moreover have "set (filter P (map fst (contents T))) = {k \<in> dom (map_of (contents T)). P k}"
    by (auto simp: dom_map_of_conv_image_fst)
  ultimately show ?thesis by simp
qed

lemma rangeQuery_spec:
  assumes b: "bat st T" and lh: "\<not> (lo = NO_KEY st \<and> hi = NO_KEY st)"
  shows "rangeQuery lo hi st = Some (int (card {k \<in> dom (map_of (contents T)). in_range (NO_KEY st) lo hi k}))"
proof -
  obtain z where h: "chrom (NO_KEY st) T" "vroot st z T" using b by (auto simp: bat_def bat_at_def vsync_def)
  let ?u = "versionH st (nversion st (root st))"
  have u: "vkey ?u = NO_KEY st" "vtree_at st z (vleft ?u) T" using h(2) by (simp_all add: vroot_def Let_def)
  have "vleft ?u \<noteq> NULL" using u(2) vtree_at_live live_version_nonnull by blast
  note r = doRangeQuery_left[OF this u(1) lh]
  have "doRangeQuery lo hi (vleft ?u) st =
      Some (int (length (filter (in_range (NO_KEY st) lo hi) (map fst (contents T)))))"
  proof (cases T)
    case (Lf a k v w)
    then show ?thesis
      using u(2) h(1) lh by (subst doRangeQuery.simps) (auto simp: leaf_version_def Let_def)
  next
    case (Nd a k v w l r)
    note f = vtree_Nd[OF u(2)[unfolded Nd]] and c = contents_inner[OF h(1) Nd]
    have "doRangeQuery lo hi (vleft ?u) st = doRangeQuery lo hi (vleft (versionH st (vleft ?u))) st"
      by (rule doRangeQuery_left) (use f c lh in simp_all)
    then show ?thesis using doRangeQuery_inner[OF f(1) c(2-4)] c(1) by simp
  qed
  then show ?thesis using r contents_card[OF h(1)] by (simp add: rangeQuery_def)
qed

text \<open>
  Without bounds the sum stored in the root's version is returned.  It is the number of keys, plus
  what the sentinel leaf counts in an empty tree.
\<close>

lemma rangeQuery_all:
  assumes "bat_at st z T"
  shows "rangeQuery (NO_KEY st) (NO_KEY st) st =
    Some (int (card (dom (map_of (contents T)))) + (if is_leaf T then z else 0))"
proof -
  have h: "chrom (NO_KEY st) T" "vroot st z T" and z: "z = 0 \<or> is_leaf T"
    using assms by (auto simp: bat_at_def vsync_def)
  let ?u = "versionH st (nversion st (root st))"
  have u: "vsum ?u = vsum (versionH st (vleft ?u))" "vtree_at st z (vleft ?u) T"
    using h(2) by (simp_all add: vroot_def Let_def)
  have "rangeQuery (NO_KEY st) (NO_KEY st) st = Some (tsum (NO_KEY st) z T)"
    unfolding rangeQuery_def using u vtree_at_sum[OF u(2)] by (subst doRangeQuery.simps) (simp add: Let_def)
  moreover have "tsum (NO_KEY st) z T = int (card (dom (map_of (contents T)))) + (if is_leaf T then z else 0)"
  proof (cases T)
    case (Nd a k v w l r)
    then have "z = 0" using z by simp
    then show ?thesis
      using h(1) contents_card[OF h(1), of "\<lambda>_. True"] tsum_length[of "NO_KEY st" l z]
      by (auto simp: Nd chrom_inner_def)
  qed (use h(1) in simp)
  ultimately show ?thesis by simp
qed

section \<open>getRank\<close>

text \<open>The value of \<open>doGetRank\<close> on a mirrored tree: only the leftmost path is ever visited.\<close>

fun spine_rank :: "'k::linorder \<Rightarrow> int \<Rightarrow> 'k \<Rightarrow> ('k, 'v) ct \<Rightarrow> int" where
  "spine_rank nk z x (Lf a k v w) = (if k = x then 1 else - 1)"
| "spine_rank nk z x (Nd a k v w l r) =
    (if k = nk \<or> x < k then spine_rank nk z x l else tsum nk z l + spine_rank nk z x l)"

lemma doGetRank_spine: "vtree_at st z u t \<Longrightarrow> doGetRank x u st = Some (spine_rank (NO_KEY st) z x t)"
proof (induction t arbitrary: u)
  case (Lf a k v w)
  then show ?case by (subst doGetRank.simps) (auto simp: leaf_version_def Let_def)
next
  case (Nd a k v w l r)
  note f = vtree_Nd[OF Nd.prems]
  show ?case using Nd.IH(1)[OF f(1)] f by (subst doGetRank.simps) (simp add: Let_def)
qed

lemma getRank_spine:
  assumes "bat_at st z T"
  shows "getRank x st = Some (spine_rank (NO_KEY st) z x T)"
proof -
  let ?u = "versionH st (nversion st (root st))"
  have u: "vkey ?u = NO_KEY st" "vtree_at st z (vleft ?u) T"
    using assms by (simp_all add: bat_at_def vsync_def vroot_def Let_def)
  have "vleft ?u \<noteq> NULL" using u(2) vtree_at_live live_version_nonnull by blast
  then show ?thesis
    unfolding getRank_def using u doGetRank_spine[OF u(2), of x] by (subst doGetRank.simps) (simp add: Let_def)
qed

section \<open>The constructor and the registration of threads\<close>

lemma init_pools_eq:
  "init_pools n tid st = st\<lparr>
     allocatedNodes := (allocatedNodes st)(tid := \<lambda>i. if i < n then nextNode st + i else allocatedNodes st tid i),
     allocatedVersions := (allocatedVersions st)(tid :=
       \<lambda>i. if i < n then nextVersion st + i else allocatedVersions st tid i),
     nextNode := nextNode st + n, nextVersion := nextVersion st + n\<rparr>"
proof (induction n)
  case (Suc n)
  then show ?case
    by (auto simp: REPLACE_ALLOCATED_VERSION_def REPLACE_ALLOCATED_NODE_def fun_eq_iff less_Suc_eq
        intro!: Chromatic.equality)
qed simp

lemma spare_ok_new:
  assumes ok: "spare_ok R f m" and R: "\<And>t. R' t \<longleftrightarrow> R t \<or> t = tid"
  shows "spare_ok R' (f(tid := \<lambda>i. if i < 5 then m + i else f tid i)) (m + 5)"
proof -
  define g where "g = f(tid := \<lambda>i. if i < 5 then m + i else f tid i)"
  have f: "2 \<le> f t i" "f t i < m" if "R t" "i < 5" for t i
    using ok that unfolding spare_ok_def by blast+
  have inj: "t = u \<and> i = j" if "R t" "R u" "i < 5" "j < 5" "f t i = f u j" for t i u j
    using ok that unfolding spare_ok_def by blast
  have m: "2 \<le> m" using ok unfolding spare_ok_def by blast
  have "2 \<le> g t i \<and> g t i < m + 5" if "R' t \<and> i < 5" for t i
    using f[of t i] that m R by (auto simp: g_def)
  moreover have "t = u \<and> i = j" if "R' t \<and> R' u \<and> i < 5 \<and> j < 5 \<and> g t i = g u j" for t i u j
    using that R f(2)[of t i] f(2)[of u j] inj[of t u i j] by (auto simp: g_def split: if_splits)
  ultimately show ?thesis using m unfolding g_def[symmetric] spare_ok_def
    by (intro conjI allI impI) (simp, blast+)
qed

lemma spare_scx_ok_new:
  assumes ok: "spare_scx_ok R f d m" and R: "\<And>t. R' t \<longleftrightarrow> R t \<or> t = tid"
  shows "spare_scx_ok R' (f(tid := m)) d (Suc m)"
proof -
  define g where "g = f(tid := m)"
  have f: "2 \<le> f t" "f t < m" "f t \<noteq> d" if "R t" for t
    using ok that unfolding spare_scx_ok_def by blast+
  have d: "2 \<le> d" "d < m" using ok unfolding spare_scx_ok_def by blast+
  have inj: "t = u" if "R t" "R u" "f t = f u" for t u
    using ok that unfolding spare_scx_ok_def by blast
  have "2 \<le> g t \<and> g t < Suc m \<and> g t \<noteq> d" if "R' t" for t
    using f[of t] that d R by (auto simp: g_def)
  moreover have "t = u" if "R' t \<and> R' u \<and> g t = g u" for t u
    using that R[of t] R[of u] f(2)[of t] f(2)[of u] inj[of t u]
    by (cases "t = tid"; cases "u = tid") (simp_all add: g_def)
  ultimately show ?thesis
    using d unfolding g_def[symmetric] spare_scx_ok_def by (intro conjI allI impI) (simp, simp, blast+)
qed

lemma vtree_at_kept:
  assumes "vtree_at st z u t" and "NO_KEY st' = NO_KEY st" and "versionH st' = versionH st"
    and "\<And>v. live_version st v \<Longrightarrow> live_version st' v"
  shows "vtree_at st' z u t"
  using assms(1)
  by (induction t arbitrary: u) (auto simp: leaf_version_def leaf_sum_def assms(2-4))

lemma vfull_kept:
  assumes "vfull st z t" and "NO_KEY st' = NO_KEY st" and "versionH st' = versionH st"
    and "nodeH st' = nodeH st" and "\<And>v. live_version st v \<Longrightarrow> live_version st' v"
  shows "vfull st' z t"
  using assms(1) vtree_at_kept[OF _ assms(2,3,5)]
  by (induction t) (auto simp: assms(4) simp del: vtree_at.simps)

text \<open>A registered thread keeps its spare records when it deregisters.\<close>

lemma initThread_bat:
  fixes st :: "('k::linorder, 'v) Chromatic"
  assumes b: "bat_at st z T" and reg: "thread_init st tid \<Longrightarrow> ready st tid"
  shows "bat_at (initThread tid st) z T" "ready (initThread tid st) tid"
    "NO_KEY (initThread tid st) = NO_KEY st" "NO_VALUE (initThread tid st) = NO_VALUE st"
    "ready st t \<Longrightarrow> ready (initThread tid st) t"
proof -
  define st' where "st' = initThread tid st"
  have hw: "hwf st T" and ch: "chrom (NO_KEY st) T" and vs: "vsync st z T" using b by (simp_all add: bat_at_def)
  note h = hwfD[OF hw]
  have same: "NO_KEY st' = NO_KEY st" "NO_VALUE st' = NO_VALUE st" "root st' = root st" "nodeH st' = nodeH st"
    "versionH st' = versionH st" "scxH st' = scxH st" "dummy st' = dummy st"
    by (simp_all add: st'_def initThread_def init_pools_eq REPLACE_ALLOCATED_SCXRECORD_def Let_def)
  have rdy: "ready st' t \<longleftrightarrow> ready st t \<or> t = tid" for t
    using reg pools_ok_dummy(2)[OF h(1)]
    by (auto simp: st'_def initThread_def init_pools_eq REPLACE_ALLOCATED_SCXRECORD_def Let_def ready_def)
  have "pools_ok st' \<and> (\<forall>v. live_version st v \<longrightarrow> live_version st' v) \<and> (\<forall>a. live_node st a \<longrightarrow> live_node st' a)"
  proof (cases "ready st tid")
    case True
    have e: "allocatedSCXRecord st' = allocatedSCXRecord st" "allocatedNodes st' = allocatedNodes st"
      "allocatedVersions st' = allocatedVersions st" "nextNode st' = nextNode st" "nextVersion st' = nextVersion st"
      "nextSCX st' = nextSCX st"
      using True by (simp_all add: st'_def initThread_def Let_def ready_def)
    have r: "ready st' = ready st" using True rdy by (auto simp: fun_eq_iff)
    show ?thesis using h(1) unfolding pools_ok_def live_version_def live_node_def e r same by blast
  next
    case False
    then have n: "allocatedSCXRecord st tid = NULL" "\<not> thread_init st tid" using reg by (auto simp: ready_def)
    have e: "allocatedSCXRecord st' = (allocatedSCXRecord st)(tid := nextSCX st)" "nextSCX st' = Suc (nextSCX st)"
      "allocatedNodes st' = (allocatedNodes st)(tid :=
         \<lambda>i. if i < 5 then nextNode st + i else allocatedNodes st tid i)" "nextNode st' = nextNode st + 5"
      "allocatedVersions st' = (allocatedVersions st)(tid :=
         \<lambda>i. if i < 5 then nextVersion st + i else allocatedVersions st tid i)" "nextVersion st' = nextVersion st + 5"
      using n by (simp_all add: st'_def initThread_def init_pools_eq REPLACE_ALLOCATED_SCXRECORD_def Let_def
          cong: if_cong)
    have "pools_ok st'"
      using h(1) unfolding pools_ok_def e same
      by (simp add: spare_ok_new[OF _ rdy] spare_scx_ok_new[OF _ rdy])
    moreover have "live_version st' v" if "live_version st v" for v
      using that rdy by (auto simp: live_version_def e)
    moreover have "live_node st' a" if "live_node st a" for a
      using that rdy by (auto simp: live_node_def e same)
    ultimately show ?thesis by blast
  qed
  then have ok: "pools_ok st'" and lv: "\<And>v. live_version st v \<Longrightarrow> live_version st' v"
    and ln: "\<And>a. live_node st a \<Longrightarrow> live_node st' a" by blast+
  have "hwf st' T" using hw ok ln unfolding hwf_def same by blast
  moreover have "vsync st' z T"
    using vs vfull_kept[of st z T st'] vtree_at_kept[of st z _ T st'] lv same
    by (auto simp: vsync_def vroot_def Let_def)
  ultimately show "bat_at (initThread tid st) z T" using ch same(1) by (simp add: bat_at_def st'_def)
  show "ready (initThread tid st) tid" "NO_KEY (initThread tid st) = NO_KEY st"
    "NO_VALUE (initThread tid st) = NO_VALUE st" "ready st t \<Longrightarrow> ready (initThread tid st) t"
    using rdy same by (simp_all add: st'_def)
qed

lemma Chromatic_new_eq:
  assumes "st = Chromatic_new nk nv n"
  shows "NO_KEY st = nk" "NO_VALUE st = nv" "root st = 8" "dummy st = 3" "nextSCX st = 4" "nextNode st = 9"
    "nextVersion st = 9" "allocatedSCXRecord st t = (if t = 0 then 2 else NULL)"
    "allocatedNodes st 0 i = (if i < 5 then 2 + i else NULL)"
    "allocatedVersions st 0 i = (if i < 5 then 2 + i else NULL)"
    "nodeH st 7 = \<lparr>key = nk, left = NULL, right = NULL, weight = 1, val = nv, marked = False, version = 7, scxRecord = 3\<rparr>"
    "nodeH st 8 = \<lparr>key = nk, left = 7, right = NULL, weight = 1, val = nv, marked = False, version = 8, scxRecord = 3\<rparr>"
    "scx_state (scxH st 3) = STATE_ABORTED" "vkey (versionH st 7) = nk" "vsum (versionH st 7) = 0"
    "vleft (versionH st 7) = NULL" "vright (versionH st 7) = NULL" "vkey (versionH st 8) = nk" "vsum (versionH st 8) = 0"
    "vleft (versionH st 8) = 7" "vright (versionH st 8) = NULL" "thread_init st t = (t = 0)"
  by (simp_all add: assms Chromatic_new_def blank_def initThread_def init_pools_eq REPLACE_ALLOCATED_SCXRECORD_def
      initializeVersion_def initializeNodeWithVersion_def Let_def)

lemma Chromatic_new_bat:
  "bat_at (Chromatic_new nk nv n) 0 (Lf 7 nk nv 1)" "ready (Chromatic_new nk nv n) 0"
proof -
  define st where "st = Chromatic_new nk nv n"
  note e = Chromatic_new_eq[OF st_def]
  have r: "ready st t \<longleftrightarrow> t = 0" for t by (simp add: ready_def e)
  have ok: "pools_ok st"
    by (auto simp: pools_ok_def spare_ok_def spare_scx_ok_def r e finished_def)
  have ln: "live_node st a" if "a = 7 \<or> a = 8" for a
    using that by (auto simp: live_node_def r e finished_def)
  have lv: "live_version st v" if "v = 7 \<or> v = 8" for v
    using that by (auto simp: live_version_def r e)
  have "hwf st (Lf 7 nk nv 1)" using ok ln by (simp add: hwf_def e)
  moreover have "vsync st 0 (Lf 7 nk nv 1)"
    using lv by (simp add: vsync_def vroot_def e leaf_version_def leaf_sum_def)
  ultimately show "bat_at (Chromatic_new nk nv n) 0 (Lf 7 nk nv 1)" "ready (Chromatic_new nk nv n) 0"
    using r by (simp_all add: bat_at_def e st_def[symmetric])
qed

section \<open>Full versions, and trees with two keys\<close>

lemma vfull_offpath: "vfull st z t \<Longrightarrow> offpath st z x t"
proof (induction t)
  case (Nd a k v w l r)
  then show ?case by (auto intro: vfull_vpart)
qed simp

lemma two_leaves:
  assumes "bst l" and "map_of (leaves l) = [k1 \<mapsto> v1, k2 \<mapsto> v2]" and "k1 < (k2::'k::linorder)"
  obtains a c v w a1 w1 a2 w2 where "l = Nd a c v w (Lf a1 k1 v1 w1) (Lf a2 k2 v2 w2)" "k1 < c" "c \<le> k2"
proof -
  have s: "sorted_wrt (<) (lkeys l)" using bst_sorted[OF assms(1)] .
  then have d: "distinct (lkeys l)" by (simp add: strict_sorted_iff)
  have "set (lkeys l) = dom (map_of (leaves l))" by (simp add: dom_map_of_conv_image_fst)
  then have "set (lkeys l) = {k1, k2}" using assms(2,3) by (auto split: if_splits)
  then have "lkeys l = [k1, k2]"
    using s assms(3) strict_sorted_equal[of "lkeys l" "[k1, k2]"] by simp
  then obtain w1 w2 where lv: "leaves l = [(k1, w1), (k2, w2)]" by (auto simp: map_eq_Cons_conv)
  have "map_of (leaves l) k1 = Some v1" "map_of (leaves l) k2 = Some v2" using assms(2,3) by auto
  then have w: "w1 = v1" "w2 = v2" using lv assms(3) by (auto split: if_splits)
  obtain a c v w p q where l: "l = Nd a c v w p q" using lv by (cases l) auto
  have "leaves p \<noteq> []" "leaves q \<noteq> []" by simp_all
  then have "leaves p = [(k1, v1)]" "leaves q = [(k2, v2)]"
    using lv w l by (auto simp: append_eq_Cons_conv)
  moreover have one: "\<exists>b u. t = Lf b k x u" if "leaves t = [(k, x)]" for t :: "('k, 'a) ct" and k x
  proof (cases t)
    case (Nd b k' x' u t1 t2)
    have "leaves t1 \<noteq> []" "leaves t2 \<noteq> []" by simp_all
    then show ?thesis using that Nd by (auto simp: append_eq_Cons_conv)
  qed (use that in auto)
  ultimately obtain a1 u1 a2 u2 where "p = Lf a1 k1 v1 u1" "q = Lf a2 k2 v2 u2" by blast
  then show ?thesis using that[of a c v w a1 u1 a2 u2] l assms(1) by simp
qed

end
