(* ===== verification/Ordered_Map.thy ===== *)
theory Ordered_Map
  imports CBAT_Prelude
begin

text \<open>
  The contract of the data structures: a finite map from keys to values with the operations of the
  benchmark interface, an interface (locale) that an implementation has to fulfil, and the theorem
  that every sequence of operations on an implementation returns what the map prescribes.
\<close>

section \<open>The abstract map\<close>

datatype ('k, 'v) mop =
    Insert 'k 'v | InsertIfAbsent 'k 'v | Erase 'k | Find 'k | Contains 'k | RangeQuery 'k 'k

datatype 'v mres = Value 'v | ValueFound 'v bool | Flag bool | Count int

fun op_keys :: "('k, 'v) mop \<Rightarrow> 'k set" where
  "op_keys (Insert k v) = {k}"
| "op_keys (InsertIfAbsent k v) = {k}"
| "op_keys (Erase k) = {k}"
| "op_keys (Find k) = {k}"
| "op_keys (Contains k) = {k}"
| "op_keys (RangeQuery lo hi) = {lo, hi}"

definition stored :: "'v \<Rightarrow> ('k \<rightharpoonup> 'v) \<Rightarrow> 'k \<Rightarrow> 'v" where
  "stored nv m k = (case m k of None \<Rightarrow> nv | Some v \<Rightarrow> v)"

fun spec_step :: "'v \<Rightarrow> ('k::linorder, 'v) mop \<Rightarrow> ('k \<rightharpoonup> 'v) \<Rightarrow> 'v mres \<times> ('k \<rightharpoonup> 'v)" where
  "spec_step nv (Insert k v) m = (Value (stored nv m k), m(k \<mapsto> v))"
| "spec_step nv (InsertIfAbsent k v) m = (Value (stored nv m k), if m k = None then m(k \<mapsto> v) else m)"
| "spec_step nv (Erase k) m = (ValueFound (stored nv m k) (stored nv m k \<noteq> nv), m(k := None))"
| "spec_step nv (Find k) m = (ValueFound (stored nv m k) (m k \<noteq> None), m)"
| "spec_step nv (Contains k) m = (Flag (m k \<noteq> None), m)"
| "spec_step nv (RangeQuery lo hi) m = (Count (int (card {k \<in> dom m. lo \<le> k \<and> k \<le> hi})), m)"

fun spec_run :: "'v \<Rightarrow> (nat \<times> ('k::linorder, 'v) mop) list \<Rightarrow> ('k \<rightharpoonup> 'v) \<Rightarrow> 'v mres list \<times> ('k \<rightharpoonup> 'v)" where
  "spec_run nv [] m = ([], m)"
| "spec_run nv ((tid, a) # as) m =
    (let (r, m1) = spec_step nv a m; (rs, m2) = spec_run nv as m1 in (r # rs, m2))"

section \<open>Implementations\<close>

text \<open>
  The operations of an implementation with states \<open>'s\<close>, called by thread \<open>tid\<close>; \<open>None\<close> stands for a
  call that does not return.
\<close>

record ('k, 'v, 's) map_ops =
  m_insert :: "nat \<Rightarrow> 'k \<Rightarrow> 'v \<Rightarrow> 's \<Rightarrow> ('v \<times> 's) option"
  m_insertIfAbsent :: "nat \<Rightarrow> 'k \<Rightarrow> 'v \<Rightarrow> 's \<Rightarrow> ('v \<times> 's) option"
  m_erase :: "nat \<Rightarrow> 'k \<Rightarrow> 's \<Rightarrow> (('v \<times> bool) \<times> 's) option"
  m_find :: "nat \<Rightarrow> 'k \<Rightarrow> 's \<Rightarrow> ('v \<times> bool) option"
  m_contains :: "nat \<Rightarrow> 'k \<Rightarrow> 's \<Rightarrow> bool option"
  m_rangeQuery :: "nat \<Rightarrow> 'k \<Rightarrow> 'k \<Rightarrow> 's \<Rightarrow> int option"

fun impl_step :: "('k, 'v, 's) map_ops \<Rightarrow> nat \<Rightarrow> ('k, 'v) mop \<Rightarrow> 's \<Rightarrow> ('v mres \<times> 's) option" where
  "impl_step M tid (Insert k v) s = map_option (\<lambda>(r, s). (Value r, s)) (m_insert M tid k v s)"
| "impl_step M tid (InsertIfAbsent k v) s =
     map_option (\<lambda>(r, s). (Value r, s)) (m_insertIfAbsent M tid k v s)"
| "impl_step M tid (Erase k) s = map_option (\<lambda>((r, b), s). (ValueFound r b, s)) (m_erase M tid k s)"
| "impl_step M tid (Find k) s = map_option (\<lambda>(r, b). (ValueFound r b, s)) (m_find M tid k s)"
| "impl_step M tid (Contains k) s = map_option (\<lambda>b. (Flag b, s)) (m_contains M tid k s)"
| "impl_step M tid (RangeQuery lo hi) s = map_option (\<lambda>n. (Count n, s)) (m_rangeQuery M tid lo hi s)"

fun impl_run :: "('k, 'v, 's) map_ops \<Rightarrow> (nat \<times> ('k, 'v) mop) list \<Rightarrow> 's \<Rightarrow> ('v mres list \<times> 's) option" where
  "impl_run M [] s = Some ([], s)"
| "impl_run M ((tid, a) # as) s =
    do { (r, s1) \<leftarrow> impl_step M tid a s; (rs, s2) \<leftarrow> impl_run M as s1; Some (r # rs, s2) }"

text \<open>
  The interface: \<open>rep Th s m\<close> says that the state \<open>s\<close> represents the map \<open>m\<close> and that the threads
  \<open>Th\<close> are registered; \<open>nk\<close> is the key that is never stored.
\<close>

locale ordered_map =
  fixes M :: "('k::linorder, 'v, 's) map_ops"
    and rep :: "nat set \<Rightarrow> 's \<Rightarrow> ('k \<rightharpoonup> 'v) \<Rightarrow> bool"
    and nk :: 'k and nv :: 'v
  assumes insert_law: "rep Th s m \<Longrightarrow> tid \<in> Th \<Longrightarrow> k \<noteq> nk \<Longrightarrow>
      \<exists>s'. m_insert M tid k v s = Some (stored nv m k, s') \<and> rep Th s' (m(k \<mapsto> v))"
    and insertIfAbsent_law: "rep Th s m \<Longrightarrow> tid \<in> Th \<Longrightarrow> k \<noteq> nk \<Longrightarrow>
      \<exists>s'. m_insertIfAbsent M tid k v s = Some (stored nv m k, s') \<and>
        rep Th s' (if m k = None then m(k \<mapsto> v) else m)"
    and erase_law: "rep Th s m \<Longrightarrow> tid \<in> Th \<Longrightarrow> k \<noteq> nk \<Longrightarrow>
      \<exists>s'. m_erase M tid k s = Some ((stored nv m k, stored nv m k \<noteq> nv), s') \<and> rep Th s' (m(k := None))"
    and find_law: "rep Th s m \<Longrightarrow> tid \<in> Th \<Longrightarrow> k \<noteq> nk \<Longrightarrow>
      m_find M tid k s = Some (stored nv m k, m k \<noteq> None)"
    and contains_law: "rep Th s m \<Longrightarrow> tid \<in> Th \<Longrightarrow> k \<noteq> nk \<Longrightarrow>
      m_contains M tid k s = Some (m k \<noteq> None)"
    and rangeQuery_law: "rep Th s m \<Longrightarrow> tid \<in> Th \<Longrightarrow> lo \<noteq> nk \<Longrightarrow> hi \<noteq> nk \<Longrightarrow>
      m_rangeQuery M tid lo hi s = Some (int (card {k \<in> dom m. lo \<le> k \<and> k \<le> hi}))"
begin

lemma step_refines:
  assumes "rep Th s m" and "tid \<in> Th" and "nk \<notin> op_keys a"
  shows "\<exists>s'. impl_step M tid a s = Some (fst (spec_step nv a m), s') \<and> rep Th s' (snd (spec_step nv a m))"
proof (cases a)
  case (Insert k v)
  then show ?thesis using insert_law[OF assms(1,2), of k v] assms(3) by auto
next
  case (InsertIfAbsent k v)
  then show ?thesis using insertIfAbsent_law[OF assms(1,2), of k v] assms(3) by auto
next
  case (Erase k)
  then show ?thesis using erase_law[OF assms(1,2), of k] assms(3) by auto
next
  case (Find k)
  then show ?thesis using find_law[OF assms(1,2), of k] assms by auto
next
  case (Contains k)
  then show ?thesis using contains_law[OF assms(1,2), of k] assms by auto
next
  case (RangeQuery lo hi)
  then show ?thesis using rangeQuery_law[OF assms(1,2), of lo hi] assms by auto
qed

lemma run_refines:
  assumes "rep Th s m" and "\<forall>(tid, a)\<in>set as. tid \<in> Th \<and> nk \<notin> op_keys a"
  shows "\<exists>s'. impl_run M as s = Some (fst (spec_run nv as m), s') \<and> rep Th s' (snd (spec_run nv as m))"
  using assms
proof (induction as arbitrary: s m)
  case (Cons c as)
  obtain tid a where c: "c = (tid, a)" by (cases c)
  obtain s1 where s1: "impl_step M tid a s = Some (fst (spec_step nv a m), s1)"
      "rep Th s1 (snd (spec_step nv a m))"
    using step_refines[OF Cons.prems(1), of tid a] Cons.prems(2) by (auto simp: c)
  then show ?case using Cons.IH[OF s1(2)] Cons.prems(2) by (auto simp: c split: prod.splits)
qed simp

text \<open>Two laws that a client of the map uses most: what a lookup returns after an update.\<close>

lemma find_after_insert:
  assumes "rep Th s m" and "tid \<in> Th" and "t \<in> Th" and "k \<noteq> nk" and "j \<noteq> nk"
    and "m_insert M tid k v s = Some (r, s')"
  shows "m_find M t j s' = (if j = k then Some (v, True) else m_find M t j s)"
proof -
  have "rep Th s' (m(k \<mapsto> v))" using insert_law[OF assms(1,2,4), of v] assms(6) by auto
  from find_law[OF this assms(3,5)] show ?thesis
    using find_law[OF assms(1,3,5)] by (simp add: stored_def)
qed

lemma find_after_erase:
  assumes "rep Th s m" and "tid \<in> Th" and "t \<in> Th" and "k \<noteq> nk" and "j \<noteq> nk"
    and "m_erase M tid k s = Some (r, s')"
  shows "m_find M t j s' = (if j = k then Some (nv, False) else m_find M t j s)"
proof -
  have "rep Th s' (m(k := None))" using erase_law[OF assms(1,2,4)] assms(6) by auto
  from find_law[OF this assms(3,5)] show ?thesis
    using find_law[OF assms(1,3,5)] by (simp add: stored_def)
qed

end

section \<open>The benchmark adapter\<close>

text \<open>
  The part of the contract that every structure of the benchmark offers through its
  \<open>ds_adapter\<close>: no insertion that replaces, and results without the success flag.  Values equal to
  \<open>NO_VALUE\<close> are not inserted, because the adapter reports an absent key by that value.
\<close>

datatype ('k, 'v) dop = DInsert 'k 'v | DErase 'k | DFind 'k | DContains 'k | DRange 'k 'k

datatype 'v dres = DValue 'v | DFlag bool | DCount int

fun dop_keys :: "('k, 'v) dop \<Rightarrow> 'k set" where
  "dop_keys (DInsert k v) = {k}"
| "dop_keys (DErase k) = {k}"
| "dop_keys (DFind k) = {k}"
| "dop_keys (DContains k) = {k}"
| "dop_keys (DRange lo hi) = {lo, hi}"

fun dop_vals :: "('k, 'v) dop \<Rightarrow> 'v set" where
  "dop_vals (DInsert k v) = {v}"
| "dop_vals _ = {}"

fun dspec_step :: "'v \<Rightarrow> ('k::linorder, 'v) dop \<Rightarrow> ('k \<rightharpoonup> 'v) \<Rightarrow> 'v dres \<times> ('k \<rightharpoonup> 'v)" where
  "dspec_step nv (DInsert k v) m = (DValue (stored nv m k), if m k = None then m(k \<mapsto> v) else m)"
| "dspec_step nv (DErase k) m = (DValue (stored nv m k), m(k := None))"
| "dspec_step nv (DFind k) m = (DValue (stored nv m k), m)"
| "dspec_step nv (DContains k) m = (DFlag (m k \<noteq> None), m)"
| "dspec_step nv (DRange lo hi) m = (DCount (int (card {k \<in> dom m. lo \<le> k \<and> k \<le> hi})), m)"

fun dspec_run :: "'v \<Rightarrow> (nat \<times> ('k::linorder, 'v) dop) list \<Rightarrow> ('k \<rightharpoonup> 'v) \<Rightarrow> 'v dres list \<times> ('k \<rightharpoonup> 'v)" where
  "dspec_run nv [] m = ([], m)"
| "dspec_run nv ((tid, a) # as) m =
    (let (r, m1) = dspec_step nv a m; (rs, m2) = dspec_run nv as m1 in (r # rs, m2))"

record ('k, 'v, 's) ds_adapter =
  a_insertIfAbsent :: "nat \<Rightarrow> 'k \<Rightarrow> 'v \<Rightarrow> 's \<Rightarrow> ('v \<times> 's) option"
  a_erase :: "nat \<Rightarrow> 'k \<Rightarrow> 's \<Rightarrow> ('v \<times> 's) option"
  a_find :: "nat \<Rightarrow> 'k \<Rightarrow> 's \<Rightarrow> 'v option"
  a_contains :: "nat \<Rightarrow> 'k \<Rightarrow> 's \<Rightarrow> bool option"
  a_rangeQuery :: "nat \<Rightarrow> 'k \<Rightarrow> 'k \<Rightarrow> 's \<Rightarrow> int option"

fun adapter_step :: "('k, 'v, 's) ds_adapter \<Rightarrow> nat \<Rightarrow> ('k, 'v) dop \<Rightarrow> 's \<Rightarrow> ('v dres \<times> 's) option" where
  "adapter_step X tid (DInsert k v) s = map_option (\<lambda>(r, s). (DValue r, s)) (a_insertIfAbsent X tid k v s)"
| "adapter_step X tid (DErase k) s = map_option (\<lambda>(r, s). (DValue r, s)) (a_erase X tid k s)"
| "adapter_step X tid (DFind k) s = map_option (\<lambda>r. (DValue r, s)) (a_find X tid k s)"
| "adapter_step X tid (DContains k) s = map_option (\<lambda>b. (DFlag b, s)) (a_contains X tid k s)"
| "adapter_step X tid (DRange lo hi) s = map_option (\<lambda>n. (DCount n, s)) (a_rangeQuery X tid lo hi s)"

fun adapter_run :: "('k, 'v, 's) ds_adapter \<Rightarrow> (nat \<times> ('k, 'v) dop) list \<Rightarrow> 's \<Rightarrow> ('v dres list \<times> 's) option" where
  "adapter_run X [] s = Some ([], s)"
| "adapter_run X ((tid, a) # as) s =
    do { (r, s1) \<leftarrow> adapter_step X tid a s; (rs, s2) \<leftarrow> adapter_run X as s1; Some (r # rs, s2) }"

locale ordered_dict =
  fixes X :: "('k::linorder, 'v, 's) ds_adapter"
    and drep :: "nat set \<Rightarrow> 's \<Rightarrow> ('k \<rightharpoonup> 'v) \<Rightarrow> bool"
    and ok :: "'k \<Rightarrow> bool" and nv :: 'v
  assumes dinsert_law: "drep Th s m \<Longrightarrow> tid \<in> Th \<Longrightarrow> ok k \<Longrightarrow> v \<noteq> nv \<Longrightarrow>
      \<exists>s'. a_insertIfAbsent X tid k v s = Some (stored nv m k, s') \<and>
        drep Th s' (if m k = None then m(k \<mapsto> v) else m)"
    and derase_law: "drep Th s m \<Longrightarrow> tid \<in> Th \<Longrightarrow> ok k \<Longrightarrow>
      \<exists>s'. a_erase X tid k s = Some (stored nv m k, s') \<and> drep Th s' (m(k := None))"
    and dfind_law: "drep Th s m \<Longrightarrow> tid \<in> Th \<Longrightarrow> ok k \<Longrightarrow> a_find X tid k s = Some (stored nv m k)"
    and dcontains_law: "drep Th s m \<Longrightarrow> tid \<in> Th \<Longrightarrow> ok k \<Longrightarrow> a_contains X tid k s = Some (m k \<noteq> None)"
    and drange_law: "drep Th s m \<Longrightarrow> tid \<in> Th \<Longrightarrow> ok lo \<Longrightarrow> ok hi \<Longrightarrow>
      a_rangeQuery X tid lo hi s = Some (int (card {k \<in> dom m. lo \<le> k \<and> k \<le> hi}))"
begin

lemma dstep_refines:
  assumes "drep Th s m" and "tid \<in> Th" and "\<forall>k\<in>dop_keys a. ok k" and "nv \<notin> dop_vals a"
  shows "\<exists>s'. adapter_step X tid a s = Some (fst (dspec_step nv a m), s') \<and> drep Th s' (snd (dspec_step nv a m))"
proof (cases a)
  case (DInsert k v)
  then show ?thesis using dinsert_law[OF assms(1,2), of k v] assms(3,4) by auto
next
  case (DErase k)
  then show ?thesis using derase_law[OF assms(1,2), of k] assms(3) by auto
next
  case (DFind k)
  then show ?thesis using dfind_law[OF assms(1,2), of k] assms by auto
next
  case (DContains k)
  then show ?thesis using dcontains_law[OF assms(1,2), of k] assms by auto
next
  case (DRange lo hi)
  then show ?thesis using drange_law[OF assms(1,2), of lo hi] assms by auto
qed

lemma drun_refines:
  assumes "drep Th s m" and "\<forall>(tid, a)\<in>set as. tid \<in> Th \<and> (\<forall>k\<in>dop_keys a. ok k) \<and> nv \<notin> dop_vals a"
  shows "\<exists>s'. adapter_run X as s = Some (fst (dspec_run nv as m), s') \<and> drep Th s' (snd (dspec_run nv as m))"
  using assms
proof (induction as arbitrary: s m)
  case (Cons c as)
  obtain tid a where c: "c = (tid, a)" by (cases c)
  obtain s1 where s1: "adapter_step X tid a s = Some (fst (dspec_step nv a m), s1)"
      "drep Th s1 (snd (dspec_step nv a m))"
    using dstep_refines[OF Cons.prems(1), of tid a] Cons.prems(2) by (auto simp: c)
  then show ?case using Cons.IH[OF s1(2)] Cons.prems(2) by (auto simp: c split: prod.splits)
qed simp

end

text \<open>An ordered map gives the adapter by forgetting the flags of \<open>erase\<close> and \<open>find\<close>.\<close>

definition adapter_of :: "('k, 'v, 's) map_ops \<Rightarrow> ('k, 'v, 's) ds_adapter" where
  "adapter_of M = \<lparr>a_insertIfAbsent = m_insertIfAbsent M,
     a_erase = (\<lambda>tid k s. map_option (\<lambda>((v, b), s). (v, s)) (m_erase M tid k s)),
     a_find = (\<lambda>tid k s. map_option fst (m_find M tid k s)),
     a_contains = m_contains M, a_rangeQuery = m_rangeQuery M\<rparr>"

sublocale ordered_map \<subseteq> dict: ordered_dict "adapter_of M" "\<lambda>Th s m. rep Th s m \<and> nv \<notin> ran m" "\<lambda>k. k \<noteq> nk" nv
proof
  fix Th s m tid k v
  assume a: "rep Th s m \<and> nv \<notin> ran m" "tid \<in> Th" "k \<noteq> nk"
  show "\<exists>s'. a_insertIfAbsent (adapter_of M) tid k v s = Some (stored nv m k, s') \<and>
      rep Th s' (if m k = None then m(k \<mapsto> v) else m) \<and> nv \<notin> ran (if m k = None then m(k \<mapsto> v) else m)"
    if "v \<noteq> nv"
    using insertIfAbsent_law[of Th s m tid k v] a that by (auto simp: adapter_of_def)
  show "\<exists>s'. a_erase (adapter_of M) tid k s = Some (stored nv m k, s') \<and> rep Th s' (m(k := None)) \<and>
      nv \<notin> ran (m(k := None))"
    using erase_law[of Th s m tid k] a by (auto simp: adapter_of_def ran_def)
  show "a_find (adapter_of M) tid k s = Some (stored nv m k)"
    using find_law[of Th s m tid k] a by (simp add: adapter_of_def)
  show "a_contains (adapter_of M) tid k s = Some (m k \<noteq> None)"
    using contains_law[of Th s m tid k] a by (simp add: adapter_of_def)
next
  fix Th s m tid lo hi
  assume "rep Th s m \<and> nv \<notin> ran m" "tid \<in> Th" "lo \<noteq> nk" "hi \<noteq> nk"
  then show "a_rangeQuery (adapter_of M) tid lo hi s = Some (int (card {k \<in> dom m. lo \<le> k \<and> k \<le> hi}))"
    using rangeQuery_law[of Th s m tid lo hi] by (simp add: adapter_of_def)
qed

end
