(* ===== verification/BAT_Map.thy ===== *)
theory BAT_Map
  imports BAT_Operations Ordered_Map
begin

text \<open>
  The balanced augmented tree fulfils the contract of \<open>Ordered_Map\<close>: the interpretation of the
  interface on the operations of \<open>BAT_Operations\<close>, from the constructor on and for any set of
  registered threads.
\<close>

definition bat_ops :: "('k::linorder, 'v, ('k, 'v) Chromatic) map_ops" where
  "bat_ops = \<lparr>m_insert = insert_op, m_insertIfAbsent = insertIfAbsent, m_erase = erase,
     m_find = (\<lambda>tid. find_op), m_contains = (\<lambda>tid. contains_op), m_rangeQuery = (\<lambda>tid. rangeQuery)\<rparr>"

definition bat_rep :: "'k::linorder \<Rightarrow> 'v \<Rightarrow> nat set \<Rightarrow> ('k, 'v) Chromatic \<Rightarrow> ('k \<rightharpoonup> 'v) \<Rightarrow> bool" where
  "bat_rep nk nv Th st m \<longleftrightarrow> NO_KEY st = nk \<and> NO_VALUE st = nv \<and> (\<forall>t\<in>Th. ready st t) \<and>
     (\<exists>T. bat st T \<and> m = map_of (contents T))"

lemma bat_rep_framed:
  assumes "bat_rep nk nv Th st m" and "framed st st'" and "bat st' T'" and "map_of (contents T') = m'"
  shows "bat_rep nk nv Th st' m'"
  using assms by (auto simp: bat_rep_def framed_def)

interpretation batm: ordered_map bat_ops "bat_rep nk nv" nk nv for nk :: "'k::linorder" and nv :: 'v
proof
  fix Th st and m :: "'k \<rightharpoonup> 'v" and tid k v
  assume r: "bat_rep nk nv Th st m" and t: "tid \<in> Th" and k: "k \<noteq> nk"
  obtain T where T: "bat st T" "m = map_of (contents T)" using r by (auto simp: bat_rep_def)
  have e: "ready st tid" "k \<noteq> NO_KEY st" "NO_VALUE st = nv" using r t k by (auto simp: bat_rep_def)
  show "\<exists>s'. m_insert bat_ops tid k v st = Some (stored nv m k, s') \<and> bat_rep nk nv Th s' (m(k \<mapsto> v))"
  proof -
    obtain st' T' where "insert_op tid k v st = Some (stored nv m k, st')"
        "bat st' T'" "framed st st'" "map_of (contents T') = m(k \<mapsto> v)"
      using insert_op_spec[OF T(1) e(1,2), of v] unfolding e(3) stored_def T(2) by blast
    then show ?thesis using bat_rep_framed[OF r, of st' T'] by (auto simp: bat_ops_def)
  qed
  show "\<exists>s'. m_insertIfAbsent bat_ops tid k v st = Some (stored nv m k, s') \<and>
      bat_rep nk nv Th s' (if m k = None then m(k \<mapsto> v) else m)"
  proof -
    obtain st' T' where "insertIfAbsent tid k v st = Some (stored nv m k, st')"
        "bat st' T'" "framed st st'" "map_of (contents T') = (if m k = None then m(k \<mapsto> v) else m)"
      using insertIfAbsent_spec[OF T(1) e(1,2), of v] unfolding e(3) stored_def T(2) by blast
    then show ?thesis using bat_rep_framed[OF r, of st' T'] by (auto simp: bat_ops_def)
  qed
  show "\<exists>s'. m_erase bat_ops tid k st = Some ((stored nv m k, stored nv m k \<noteq> nv), s') \<and>
      bat_rep nk nv Th s' (m(k := None))"
  proof -
    obtain st' z T' where "erase tid k st = Some ((stored nv m k, stored nv m k \<noteq> nv), st')"
        "bat_at st' z T'" "framed st st'" "map_of (contents T') = m(k := None)"
      using erase_spec[OF T(1) e(1,2) refl] unfolding e(3) stored_def T(2) by blast
    then show ?thesis using bat_rep_framed[OF r, of st' T'] by (auto simp: bat_ops_def bat_def)
  qed
  show "m_find bat_ops tid k st = Some (stored nv m k, m k \<noteq> None)"
    using find_op_spec[OF T(1) e(2)] by (simp add: bat_ops_def stored_def T(2) e(3) split: option.splits)
  show "m_contains bat_ops tid k st = Some (m k \<noteq> None)"
    using contains_op_spec[OF T(1) e(2)] by (simp add: bat_ops_def T(2))
next
  fix Th st and m :: "'k \<rightharpoonup> 'v" and tid lo hi
  assume r: "bat_rep nk nv Th st m" and "tid \<in> Th" and k: "lo \<noteq> nk" "hi \<noteq> nk"
  obtain T where T: "bat st T" "m = map_of (contents T)" "NO_KEY st = nk" using r by (auto simp: bat_rep_def)
  have "in_range (NO_KEY st) lo hi = (\<lambda>k. lo \<le> k \<and> k \<le> hi)" using k T(3) by (auto simp: in_range_def)
  then show "m_rangeQuery bat_ops tid lo hi st = Some (int (card {k \<in> dom m. lo \<le> k \<and> k \<le> hi}))"
    using rangeQuery_spec[OF T(1), of lo hi] k T(2,3) by (simp add: bat_ops_def)
qed

section \<open>From the constructor on\<close>

definition registered :: "('k, 'v) Chromatic \<Rightarrow> bool" where
  "registered st \<longleftrightarrow> (\<forall>t. thread_init st t \<longrightarrow> ready st t)"

lemma initThread_rep:
  assumes "bat_rep nk nv Th st m" and "registered st"
  shows "bat_rep nk nv (insert tid Th) (initThread tid st) m" "registered (initThread tid st)"
proof -
  obtain z T where T: "bat_at st z T" "m = map_of (contents T)"
    using assms(1) by (auto simp: bat_rep_def bat_def)
  have reg: "thread_init st tid \<Longrightarrow> ready st tid" using assms(2) by (simp add: registered_def)
  note i = initThread_bat[OF T(1) reg]
  show "bat_rep nk nv (insert tid Th) (initThread tid st) m"
    using assms(1) i T(2) by (auto simp: bat_rep_def bat_def)
  have "thread_init (initThread tid st) t \<longleftrightarrow> thread_init st t \<or> t = tid" for t
    by (auto simp: initThread_def init_pools_eq REPLACE_ALLOCATED_SCXRECORD_def Let_def)
  then show "registered (initThread tid st)"
    using assms(2) i(2,5) by (auto simp: registered_def)
qed

lemma start_rep:
  "bat_rep nk nv (insert 0 (set ts)) (fold initThread ts (Chromatic_new nk nv n)) Map.empty"
proof -
  have "bat_rep nk nv (Th \<union> set ts) (fold initThread ts st) m"
    if "bat_rep nk nv Th st m" "registered st" for Th st and m :: "'a \<rightharpoonup> 'b"
    using that
  proof (induction ts arbitrary: Th st)
    case (Cons t ts)
    from Cons.IH[OF initThread_rep[OF Cons.prems]] show ?case by simp
  qed simp
  moreover have "bat_rep nk nv {0} (Chromatic_new nk nv n) Map.empty"
    using Chromatic_new_bat[of nk nv n] Chromatic_new_eq(1,2)[OF refl, of nk nv n]
    by (auto simp: bat_rep_def bat_def intro!: exI[of _ "Lf 7 nk nv 1"])
  moreover have "registered (Chromatic_new nk nv n)"
    using Chromatic_new_bat(2)[of nk nv n] Chromatic_new_eq(22)[OF refl, of nk nv n] by (simp add: registered_def)
  ultimately show ?thesis by fastforce
qed

section \<open>The adapter\<close>

definition bat_adapter :: "('k::linorder, 'v, ('k, 'v) Chromatic) ds_adapter" where
  "bat_adapter = \<lparr>a_insertIfAbsent = insertIfAbsent,
     a_erase = (\<lambda>tid k st. map_option (\<lambda>((v, b), st). (v, st)) (erase tid k st)),
     a_find = (\<lambda>tid k st. map_option fst (find_op k st)), a_contains = (\<lambda>tid. contains_op),
     a_rangeQuery = (\<lambda>tid. rangeQuery)\<rparr>"

lemma bat_adapter_run:
  fixes nk :: "'k::linorder"
  assumes "\<forall>(tid, a)\<in>set as. tid \<in> insert 0 (set ts) \<and> (\<forall>k\<in>dop_keys a. k \<noteq> nk) \<and> nv \<notin> dop_vals a"
  shows "\<exists>st'. adapter_run bat_adapter as (fold initThread ts (Chromatic_new nk nv n)) =
    Some (fst (dspec_run nv as Map.empty), st')"
proof -
  have e: "bat_adapter = adapter_of bat_ops" by (simp add: bat_adapter_def adapter_of_def bat_ops_def)
  have r: "bat_rep nk nv (insert 0 (set ts)) (fold initThread ts (Chromatic_new nk nv n)) Map.empty \<and>
      nv \<notin> ran Map.empty" using start_rep[of nk nv ts n] by simp
  show ?thesis using batm.dict.drun_refines[OF r assms] unfolding e by blast
qed

end
