(* ===== verification/SCX_Outcomes.thy ===== *)
theory SCX_Outcomes
  imports Subtree_Replacement
begin

unbundle bit_operations_syntax

text \<open>
  What \<open>llx\<close> and \<open>scx\<close> do to an arbitrary memory, with no assumption that the SCX is undisturbed:
  an SCX that fails changes nothing but the record pointers of nodes, one that commits swings one
  child pointer and marks the frozen nodes it removes, and an LLX that succeeds is a snapshot.
\<close>

section \<open>SCX\<close>

lemma abort_not_committed: "ABORT_STATE_INIT i flags \<noteq> STATE_COMMITTED"
proof -
  have "even (ABORT_STATE_INIT i flags)" by (simp add: ABORT_STATE_INIT_def even_or_iff)
  then show ?thesis by auto
qed

text \<open>Two memories that differ in the SCX record pointers of nodes only, as far as nodes go.\<close>

definition scx_only :: "('k, 'v) Chromatic \<Rightarrow> ('k, 'v) Chromatic \<Rightarrow> bool" where
  "scx_only st st' \<longleftrightarrow> (\<forall>a. nodeH st' a = (nodeH st a)\<lparr>scxRecord := scxRecord (nodeH st' a)\<rparr>)"

lemma scx_only_trans: "scx_only st st' \<Longrightarrow> scx_only st' st'' \<Longrightarrow> scx_only st st''"
  unfolding scx_only_def
proof
  fix a assume h: "\<forall>a. nodeH st' a = (nodeH st a)\<lparr>scxRecord := scxRecord (nodeH st' a)\<rparr>"
    "\<forall>a. nodeH st'' a = (nodeH st' a)\<lparr>scxRecord := scxRecord (nodeH st'' a)\<rparr>"
  have "nodeH st'' a = (nodeH st' a)\<lparr>scxRecord := scxRecord (nodeH st'' a)\<rparr>" using h(2) by blast
  also have "\<dots> = ((nodeH st a)\<lparr>scxRecord := scxRecord (nodeH st' a)\<rparr>)\<lparr>scxRecord := scxRecord (nodeH st'' a)\<rparr>"
    using h(1) by metis
  finally show "nodeH st'' a = (nodeH st a)\<lparr>scxRecord := scxRecord (nodeH st'' a)\<rparr>" by simp
qed

lemma scx_only_same: "nodeH st' = nodeH st \<Longrightarrow> scx_only st st'"
  by (simp add: scx_only_def)

lemma scx_onlyD:
  assumes "scx_only st st'"
  shows "same_fields (nodeH st' a) (nodeH st a)" "marked (nodeH st' a) = marked (nodeH st a)"
    "version (nodeH st' a) = version (nodeH st a)"
proof -
  have e: "nodeH st' a = (nodeH st a)\<lparr>scxRecord := scxRecord (nodeH st' a)\<rparr>"
    using assms unfolding scx_only_def by blast
  show "same_fields (nodeH st' a) (nodeH st a)" "marked (nodeH st' a) = marked (nodeH st a)"
    "version (nodeH st' a) = version (nodeH st a)"
    by (subst e, simp add: same_fields_def)+
qed

lemma freeze_loop_own:
  assumes "freeze_loop i n s flags st = (res, st')" and "\<not> allFrozen (scxH st s)"
    and "scx_state (scxH st s) = STATE_INPROGRESS" and "0 \<le> flags"
  shows "scx_only st st' \<and> (res = None \<longrightarrow> scxH st' = scxH st) \<and>
    (\<forall>x. res = Some x \<longrightarrow> x \<noteq> STATE_COMMITTED)"
  using assms
proof (induction i n s flags st rule: freeze_loop.induct)
  case (1 i n s flags st)
  have or: "0 \<le> flags OR push_bit i 1" using 1 by simp
  consider (fin) "\<not> i < n" | (leaf) "i < n" "scxRecordsSeen (scxH st s) i = LLX_RETURN_IS_LEAF" | (new) "i < n"
      "scxRecordsSeen (scxH st s) i \<noteq> LLX_RETURN_IS_LEAF"
      "scxRecord (nodeH st (scx_nodes (scxH st s) i)) = scxRecordsSeen (scxH st s) i"
    | (mine) "i < n" "scxRecordsSeen (scxH st s) i \<noteq> LLX_RETURN_IS_LEAF"
      "scxRecord (nodeH st (scx_nodes (scxH st s) i)) \<noteq> scxRecordsSeen (scxH st s) i"
      "scxRecord (nodeH st (scx_nodes (scxH st s) i)) = s"
    | (fail) "i < n" "scxRecordsSeen (scxH st s) i \<noteq> LLX_RETURN_IS_LEAF"
      "scxRecord (nodeH st (scx_nodes (scxH st s) i)) \<noteq> scxRecordsSeen (scxH st s) i"
      "scxRecord (nodeH st (scx_nodes (scxH st s) i)) \<noteq> s" by blast
  then show ?case
  proof cases
    case fin
    then show ?thesis using 1(4,5) by (simp add: freeze_loop.simps scx_only_same)
  next
    case leaf
    then show ?thesis using 1(1)[OF leaf] 1(4-7) by (simp add: freeze_loop.simps)
  next
    case new
    let ?st = "set_scxRecord (scx_nodes (scxH st s) i) s st"
    have h: "scxH ?st = scxH st" "scx_only st ?st" by (simp_all add: set_scxRecord_def scx_only_def)
    have "freeze_loop (Suc i) n s (flags OR push_bit i 1) ?st = (res, st')"
      using new 1(4) by (simp add: freeze_loop.simps)
    from 1(2)[OF new this] show ?thesis using 1(5,6) or h scx_only_trans[of st ?st st'] by simp
  next
    case mine
    then show ?thesis using 1(3)[OF mine] 1(4-7) or by (simp add: freeze_loop.simps)
  next
    case fail
    have n: "ABORT_STATE_INIT i flags \<noteq> STATE_COMMITTED" "ABORT_STATE_INIT 0 0 \<noteq> STATE_COMMITTED"
      by (rule abort_not_committed)+
    show ?thesis using fail 1(4-6) n
      by (auto simp: freeze_loop.simps set_state_def scx_only_same split: if_splits)
  qed
qed


text \<open>The tables bound the arrays of an SCX record and the spare nodes of a thread.\<close>

lemma table_sizes:
  assumes "ty < 32"
  shows "0 < NUM_TO_FREEZE ! ty" "NUM_TO_FREEZE ! ty \<le> NUM_OF_NODES ! ty" "NUM_OF_NODES ! ty \<le> MAX_NODES"
    "NUM_INSERTED ! ty \<le> MAX_NODES - 1" "1 < NUM_OF_NODES ! ty"
proof -
  have "list_all (\<lambda>ty. 0 < NUM_TO_FREEZE ! ty \<and> NUM_TO_FREEZE ! ty \<le> NUM_OF_NODES ! ty \<and>
     NUM_OF_NODES ! ty \<le> MAX_NODES \<and> NUM_INSERTED ! ty \<le> MAX_NODES - 1 \<and> 1 < NUM_OF_NODES ! ty) [0..<32]"
    by code_simp
  then show "0 < NUM_TO_FREEZE ! ty" "NUM_TO_FREEZE ! ty \<le> NUM_OF_NODES ! ty" "NUM_OF_NODES ! ty \<le> MAX_NODES"
    "NUM_INSERTED ! ty \<le> MAX_NODES - 1" "1 < NUM_OF_NODES ! ty"
    using assms by (auto simp: list_all_iff)
qed

lemma replace_pools_nodeH: "nodeH (replace_pools n tid st) = nodeH st"
  by (simp add: replace_pools_eq)

lemma reclaim_nodeH:
  assumes "reclaimMemoryAfterSCX tid ty nodes seen state st = (ok, st')" and "0 < NUM_TO_FREEZE ! ty"
  shows "nodeH st' = nodeH st" "ok \<longleftrightarrow> state = STATE_COMMITTED"
proof -
  have "nodeH (retire_seen n nodes seen st1) = nodeH st1" for n and st1 :: "('a, 'b) Chromatic"
    using scxs_updated_frame(9)[OF retire_seen_updated] .
  then show "nodeH st' = nodeH st" "ok \<longleftrightarrow> state = STATE_COMMITTED"
    using assms by (auto simp: reclaimMemoryAfterSCX_def Let_def retire_nodes_eq replace_pools_nodeH
      REPLACE_ALLOCATED_SCXRECORD_def split: if_splits)
qed

text \<open>The nodes that a committed SCX marks: the internal nodes it freezes, except the first.\<close>

definition finalized :: "nat \<Rightarrow> addr list \<Rightarrow> addr list \<Rightarrow> addr set" where
  "finalized ty nodes seen = {nodes ! i |i. 1 \<le> i \<and> i < NUM_TO_FREEZE ! ty \<and> seen ! i \<noteq> LLX_RETURN_IS_LEAF}"

lemma scx_outcome:
  assumes ty: "ty < 32" and scx: "scx tid ty nodes seen fld new st = (ok, st')"
  shows "\<not> ok \<Longrightarrow> scx_only st st'"
    "ok \<Longrightarrow> \<exists>st1. scx_only st st1 \<and>
       nodeH st' = put_field fld (if get_field st fld = nodes ! 1 then new else get_field st fld)
         (\<lambda>a. if a \<in> finalized ty nodes seen then (nodeH st1 a)\<lparr>marked := True\<rparr> else nodeH st1 a)"
proof -
  note t = table_sizes[OF ty]
  let ?s = "allocatedSCXRecord st tid" and ?n = "NUM_TO_FREEZE ! ty"
  let ?st = "initializeSCXRecord ?s ty nodes seen fld new st"
  let ?r = "scxH ?st ?s"
  have r: "\<not> allFrozen ?r" "scx_state ?r = STATE_INPROGRESS" "scx_type ?r = ty" "scx_field ?r = fld" "newNode ?r = new"
    "scx_nodes ?r 1 = nodes ! 1" "i < ?n \<Longrightarrow> scx_nodes ?r i = nodes ! i" "i < ?n \<Longrightarrow> scxRecordsSeen ?r i = seen ! i"
    "nodeH ?st = nodeH st" for i
    using t by (auto simp: initializeSCXRecord_def Let_def)
  obtain res st1 where fz: "freeze_loop 0 ?n ?s 1 ?st = (res, st1)" by (meson surj_pair)
  note own = freeze_loop_own[OF fz r(1,2), simplified]
  have so: "scx_only st st1" using own scx_only_trans[OF scx_only_same[OF r(9)]] by blast
  let ?st2 = "mark_loop 1 ?n ?s (set_allFrozen ?s st1)"
  let ?st3 = "if get_field ?st2 fld = nodes ! 1 then set_field fld new ?st2 else ?st2"
  have committed: "reclaimMemoryAfterSCX tid ty nodes seen STATE_COMMITTED (set_state ?s STATE_COMMITTED ?st3) = (ok, st')"
    if "res = None" using that scx fz r(2-6) by (simp add: scx_def help_SCX_def Let_def split: if_splits)
  have aborted: "reclaimMemoryAfterSCX tid ty nodes seen x st1 = (ok, st')" if "res = Some x" for x
    using that scx fz r(2-6) by (simp add: scx_def help_SCX_def Let_def)
  show "scx_only st st'" if nok: "\<not> ok"
  proof (cases res)
    case None
    from reclaim_nodeH(2)[OF committed[OF this] t(1)] show ?thesis using nok by simp
  next
    case (Some x)
    from reclaim_nodeH(1)[OF aborted[OF this] t(1)] show "scx_only st st'"
      using so scx_only_trans[OF _ scx_only_same[of st' st1]] by blast
  qed
  show "\<exists>st1. scx_only st st1 \<and>
       nodeH st' = put_field fld (if get_field st fld = nodes ! 1 then new else get_field st fld)
         (\<lambda>a. if a \<in> finalized ty nodes seen then (nodeH st1 a)\<lparr>marked := True\<rparr> else nodeH st1 a)" if ok
  proof (cases res)
    case None
    then have sc: "scxH st1 = scxH ?st" using own by blast
    from reclaim_nodeH(1)[OF committed[OF None] t(1)] have n: "nodeH st' = nodeH ?st3" by (simp add: set_state_def)
    have "frozen_set (scxH (set_allFrozen ?s st1) ?s) 1 ?n = finalized ty nodes seen"
      using r(7,8) unfolding frozen_set_def finalized_def
      by (intro Collect_cong ex_cong1) (auto simp: set_allFrozen_def sc)
    then have n2: "nodeH ?st2 = (\<lambda>a. if a \<in> finalized ty nodes seen then (nodeH st1 a)\<lparr>marked := True\<rparr> else nodeH st1 a)"
      by (simp add: mark_loop_all set_allFrozen_def fun_eq_iff)
    have g: "get_field ?st2 fld = get_field st fld"
      using scx_onlyD(1)[OF so, of "fst fld"] unfolding get_field_def n2 by (simp add: same_fields_def)
    have p: "put_field fld (get_field ?st2 fld) (nodeH ?st2) = nodeH ?st2"
      by (auto simp: put_field_def get_field_def fun_eq_iff)
    have q: "nodeH (set_field fld new ?st2) = put_field fld new (nodeH ?st2)"
      by (simp add: put_field_def set_field_def Let_def)
    have f: "nodeH ?st3 = put_field fld (if get_field st fld = nodes ! 1 then new else get_field st fld) (nodeH ?st2)"
      using p q unfolding g by (cases "get_field st fld = nodes ! 1") (simp_all only: if_True if_False simp_thms)
    show ?thesis by (rule exI[of _ st1], rule conjI[OF so], rule trans[OF n f[unfolded n2]])
  next
    case (Some x)
    from reclaim_nodeH(2)[OF aborted[OF this] t(1)] show ?thesis using own Some that by simp
  qed
qed

section \<open>LLX\<close>

lemma llx_result:
  assumes "llx node st = ((r, l, rt), st')" and "r \<noteq> NULL"
  shows "st' = st" "l = nleft st node" "rt = nright st node"
    "r = (if nleft st node = NULL then LLX_RETURN_IS_LEAF else scxRecord (nodeH st node))"
    "STATE_ABORTED \<le> scx_state (scxH st (scxRecord (nodeH st node))) \<or>
     scx_state (scxH st (scxRecord (nodeH st node))) = STATE_COMMITTED \<and> \<not> marked (nodeH st node)"
  using assms by (auto simp: llx_def Let_def split: if_splits)

lemma llx_finalized:
  assumes "marked (nodeH st node)" and "scx_state (scxH st (scxRecord (nodeH st node))) = STATE_COMMITTED"
  shows "llx node st = ((NULL, NULL, NULL), st)"
  using assms by (simp add: llx_def Let_def help_SCX_def shouldHelp_def)

end
