(* ===== verification/Sample_States.thy ===== *)
theory Sample_States
  imports BAT_Map SCX_Outcomes
begin

text \<open>
  Concrete states: trees reached from the constructor by a few operations, and the state that holds
  a given tree (with any weights) in memory.  They show that the hypotheses of the theorems about
  operations, rebalancing steps and searches are met by actual memories.
\<close>

section \<open>States reached by operations\<close>

definition after :: "(nat \<times> (nat, nat) mop) list \<Rightarrow> (nat, nat) Chromatic" where
  "after as = snd (the (impl_run bat_ops as (Chromatic_new 0 0 0)))"

lemma after_rep:
  assumes "\<forall>(tid, a)\<in>set as. tid = 0 \<and> 0 \<notin> op_keys a"
  shows "bat_rep 0 0 {0} (after as) (snd (spec_run 0 as Map.empty))"
proof -
  have "bat_rep 0 0 {0} (Chromatic_new 0 (0::nat) 0) Map.empty" using start_rep[of 0 0 "[]" 0] by simp
  moreover have "\<forall>(tid, a)\<in>set as. tid \<in> {0} \<and> 0 \<notin> op_keys a" using assms by auto
  ultimately show ?thesis using batm.run_refines by (fastforce simp: after_def)
qed

definition two_keys :: "(nat, nat) Chromatic" where
  "two_keys = after [(0, Insert 5 50), (0, Insert 8 80)]"

lemma two_keys_rep: "bat_rep 0 0 {0} two_keys [5 \<mapsto> 50, 8 \<mapsto> 80]"
  using after_rep[of "[(0, Insert 5 50), (0, Insert 8 80)]"] by (simp add: two_keys_def)

definition one_key :: "(nat, nat) Chromatic" where
  "one_key = after [(0, Insert 5 50)]"

section \<open>A given tree in memory\<close>

fun store :: "('k, 'v) ct \<Rightarrow> (addr \<Rightarrow> ('k, 'v) Node) \<Rightarrow> addr \<Rightarrow> ('k, 'v) Node" where
  "store (Lf a k v w) h = h(a := \<lparr>key = k, left = NULL, right = NULL, weight = w, val = v,
     marked = False, version = NULL, scxRecord = 3\<rparr>)"
| "store (Nd a k v w l r) h = (store r (store l h))(a := \<lparr>key = k, left = adr l, right = adr r,
     weight = w, val = v, marked = False, version = NULL, scxRecord = 3\<rparr>)"

definition load :: "(nat, nat) ct \<Rightarrow> (nat, nat) Chromatic" where
  "load T = (let st = Chromatic_new 0 0 0 in
     st\<lparr>nodeH := store T ((nodeH st)(8 := (nodeH st 8)\<lparr>left := adr T\<rparr>)), nextNode := 100\<rparr>)"

lemma store_other: "a \<notin> set (addrs t) \<Longrightarrow> store t h a = h a"
  by (induction t arbitrary: h) auto

lemma store_new: "a \<in> set (addrs t) \<Longrightarrow> marked (store t h a) = False \<and> scxRecord (store t h a) = 3"
proof (induction t arbitrary: h)
  case (Nd b k v w l r)
  then show ?case by (cases "a \<in> set (addrs r)") (auto simp: store_other)
qed auto

lemma tree_at_upd: "a \<notin> set (addrs t) \<Longrightarrow> tree_at (\<lambda>b. if b = a then n else h b) t = tree_at h t"
  by (rule tree_at_cong) (auto simp: same_fields_def)

lemma store_tree:
  assumes "distinct (addrs t)" and "NULL \<notin> set (addrs t)"
  shows "tree_at (store t h) t"
  using assms
proof (induction t arbitrary: h)
  case (Nd a k v w l r)
  have "tree_at (store r (store l h)) l"
    using Nd.IH(1)[of h] Nd.prems tree_at_cong[of l "store r (store l h)" "store l h"] store_other
    by (fastforce simp: disjoint_iff same_fields_def)
  moreover have "tree_at (store r (store l h)) r" using Nd by auto
  ultimately show ?case using Nd.prems by (simp add: tree_at_upd fun_upd_def)
qed auto

lemma load_fields [simp]:
  "NO_KEY (load T) = 0" "NO_VALUE (load T) = 0" "root (load T) = 8" "dummy (load T) = 3"
  "allocatedSCXRecord (load T) t = (if t = 0 then 2 else NULL)"
  "allocatedNodes (load T) 0 i = (if i < 5 then 2 + i else NULL)"
  "ready (load T) t \<longleftrightarrow> t = 0"
  using Chromatic_new_eq[OF refl, of "0::nat" "0::nat" 0]
  by (simp_all add: load_def Let_def ready_def)

lemma load_hwf:
  assumes d: "distinct (addrs T)" and a: "\<forall>a\<in>set (addrs T). 9 \<le> a \<and> a < 100"
  shows "hwf (load T) T"
proof -
  note n = Chromatic_new_eq[OF refl, of "0::nat" "0::nat" 0]
  note b = Chromatic_new_bat[of "0::nat" "0::nat" 0]
  have hw: "hwf (Chromatic_new (0::nat) (0::nat) 0) (Lf 7 0 0 1)" using b(1) by (simp add: bat_at_def)
  note h = hwfD[OF hw]
  have 8: "8 \<notin> set (addrs T)" "NULL \<notin> set (addrs T)" using a by force+
  have r8: "nodeH (load T) 8 = (nodeH (Chromatic_new 0 0 0) 8)\<lparr>left := adr T\<rparr>"
    using 8 by (simp add: load_def Let_def store_other)
  let ?c = "Chromatic_new (0::nat) (0::nat) 0"
  have e: "allocatedNodes (load T) = allocatedNodes ?c" "allocatedVersions (load T) = allocatedVersions ?c"
    "ready (load T) = ready ?c" "scxH (load T) = scxH ?c" "nextSCX (load T) = 4" "dummy (load T) = dummy ?c"
    "allocatedSCXRecord (load T) = allocatedSCXRecord ?c" "nextVersion (load T) = nextVersion ?c" "nextNode (load T) = 100"
    using n(5) by (simp_all add: load_def Let_def ready_def fun_eq_iff)
  have "pools_ok (load T)"
    using h(1) spare_ok_mono[of "ready ?c" "allocatedNodes ?c" 9 100]
    unfolding pools_ok_def e n(5,6) by simp
  moreover have "tree_at (nodeH (load T)) T"
    using store_tree[OF d 8(2)] by (simp add: load_def Let_def)
  moreover have "live_node (load T) 8"
    using h(9) r8 unfolding live_node_def e n(3,5,6) by simp
  moreover have "live_node (load T) c" if c: "c \<in> set (addrs T)" for c
  proof -
    have "marked (nodeH (load T) c) = False" "scxRecord (nodeH (load T) c) = 3"
      using store_new[OF c] by (auto simp: load_def Let_def)
    moreover have "2 \<le> c" "c < 100" "c \<noteq> 2" "\<forall>i. 2 + i = c \<longrightarrow> \<not> i < 5" using a c by fastforce+
    ultimately show ?thesis using n(13) e(4,5,9) by (auto simp: live_node_def finished_def)
  qed
  ultimately show ?thesis using d 8 r8 n(12) by (simp add: hwf_def)
qed

definition red_red :: "(nat, nat) ct" where
  "red_red = Nd 10 0 0 1 (Nd 11 6 0 1 (Nd 12 4 0 0 (Nd 13 2 0 0 (Lf 14 1 10 1) (Lf 15 2 20 1))
     (Lf 16 4 40 1)) (Lf 17 6 60 1)) (Lf 18 0 0 1)"

lemma red_red_hwf: "hwf (load red_red) red_red"
  by (rule load_hwf) (simp_all add: red_red_def)

lemma red_red_chrom: "chrom 0 red_red"
proof -
  have "pathw (lft red_red) 2" by (simp add: red_red_def)
  then show ?thesis by (auto simp: red_red_def chrom_inner_def)
qed

definition red_children :: "(nat, nat) ct" where
  "red_children = Nd 10 0 0 1 (Nd 11 8 0 1 (Nd 12 4 0 1 (Nd 13 2 0 0 (Lf 14 1 10 1) (Lf 15 2 20 1))
     (Nd 16 6 0 0 (Lf 19 4 40 1) (Lf 20 6 60 1))) (Lf 17 8 80 2)) (Lf 18 0 0 1)"

lemma red_children_hwf: "hwf (load red_children) red_children"
  by (rule load_hwf) (simp_all add: red_children_def)

definition red_zigzag :: "(nat, nat) ct" where
  "red_zigzag = Nd 10 0 0 1 (Nd 11 8 0 1 (Nd 12 2 0 0 (Lf 13 1 10 1) (Nd 14 4 0 0 (Lf 15 2 20 1) (Lf 16 4 40 1)))
     (Lf 17 8 80 1)) (Lf 18 0 0 1)"

definition overweight :: "(nat, nat) ct" where
  "overweight = Nd 10 0 0 1 (Nd 11 2 0 1 (Lf 12 1 10 2) (Nd 13 9 0 0 (Nd 14 6 0 1 (Nd 15 4 0 0 (Lf 16 2 20 1)
     (Lf 17 4 40 1)) (Lf 18 6 60 1)) (Lf 19 9 90 2))) (Lf 20 0 0 1)"

definition finalized_state :: "(nat, nat) Chromatic" where
  "finalized_state = (let st = Chromatic_new 0 0 0 in
     set_state 3 STATE_COMMITTED (set_marked 7 st))"

end
