(* ===== verification/Ellen_BST.thy ===== *)
theory Ellen_BST
  imports Chromatic_Trees
begin

unbundle bit_operations_syntax

text \<open>
  The augmented external binary search tree of Ellen et al.
  (\<open>ds/ellen_augmented_ext_bst_lf/ellen_impl.h\<close>), as one thread executes it from an arbitrary memory:
  nodes with an update word that points to an operation descriptor and carries a two-bit state in its
  low bits, versions that hold the sums, and the routines that help a pending operation.
\<close>

section \<open>Update words\<close>

abbreviation (input) STATE_CLEAN :: nat where "STATE_CLEAN \<equiv> 0"
abbreviation (input) STATE_DFLAG :: nat where "STATE_DFLAG \<equiv> 1"
abbreviation (input) STATE_IFLAG :: nat where "STATE_IFLAG \<equiv> 2"
abbreviation (input) STATE_MARK :: nat where "STATE_MARK \<equiv> 3"

definition GETFLAG :: "addr \<Rightarrow> nat" where
  "GETFLAG ptr = ptr AND 3"

definition UNFLAG :: "addr \<Rightarrow> addr" where
  "UNFLAG ptr = push_bit 2 (drop_bit 2 ptr)"

definition FLAG :: "addr \<Rightarrow> nat \<Rightarrow> addr" where
  "FLAG ptr flag = (push_bit 2 (drop_bit 2 ptr) OR flag)"

section \<open>Data\<close>

text \<open>
  \<open>info_t\<close> is a union; the flag of the update word that points to a descriptor says which member is
  live, and the other one is never read, so the two members are separate fields here.
\<close>

record iinfo_t =
  ii_p :: addr
  ii_new_internal :: addr
  ii_l :: addr

record dinfo_t =
  di_gp :: addr
  di_p :: addr
  di_l :: addr
  di_pupdate :: addr

record info_t =
  iinfo :: iinfo_t
  dinfo :: dinfo_t

record ('k, 'v) node_t =
  nd_key :: 'k
  nd_value :: 'v
  nd_update :: addr
  nd_version :: addr
  nd_left :: addr
  nd_right :: addr

record 'k version_t =
  vt_left :: addr
  vt_right :: addr
  vt_key :: 'k
  vt_sum :: int

text \<open>
  The object: its constants and root, the memory, and the records passed to \<open>recmgr->retire\<close> and
  \<open>recmgr->deallocate\<close>.  Descriptors are aligned, so their addresses are multiples of 4.
\<close>

record ('k, 'v) ellen =
  e_root :: addr
  KEY_MIN :: 'k
  KEY_MAX :: 'k
  e_NO_VALUE :: 'v
  e_init :: "nat \<Rightarrow> bool"
  nodeE :: "addr \<Rightarrow> ('k, 'v) node_t"
  versionE :: "addr \<Rightarrow> 'k version_t"
  infoE :: "addr \<Rightarrow> info_t"
  nextNodeE :: addr
  nextVersionE :: addr
  nextInfoE :: nat
  retiredNodesE :: "addr list"
  retiredVersionsE :: "addr list"
  retiredInfosE :: "addr list"
  freedNodesE :: "addr list"
  freedVersionsE :: "addr list"
  freedInfosE :: "addr list"

abbreviation e_left :: "('k, 'v) ellen \<Rightarrow> addr \<Rightarrow> addr" where "e_left st a \<equiv> nd_left (nodeE st a)"
abbreviation e_right :: "('k, 'v) ellen \<Rightarrow> addr \<Rightarrow> addr" where "e_right st a \<equiv> nd_right (nodeE st a)"
abbreviation e_key :: "('k, 'v) ellen \<Rightarrow> addr \<Rightarrow> 'k" where "e_key st a \<equiv> nd_key (nodeE st a)"
abbreviation e_value :: "('k, 'v) ellen \<Rightarrow> addr \<Rightarrow> 'v" where "e_value st a \<equiv> nd_value (nodeE st a)"
abbreviation e_update :: "('k, 'v) ellen \<Rightarrow> addr \<Rightarrow> addr" where "e_update st a \<equiv> nd_update (nodeE st a)"
abbreviation e_version :: "('k, 'v) ellen \<Rightarrow> addr \<Rightarrow> addr" where "e_version st a \<equiv> nd_version (nodeE st a)"

definition set_update :: "addr \<Rightarrow> addr \<Rightarrow> ('k, 'v) ellen \<Rightarrow> ('k, 'v) ellen" where
  "set_update n u st = st\<lparr>nodeE := (nodeE st)(n := (nodeE st n)\<lparr>nd_update := u\<rparr>)\<rparr>"

section \<open>Creation\<close>

definition create_node ::
    "'k \<Rightarrow> 'v \<Rightarrow> addr \<Rightarrow> addr \<Rightarrow> addr \<Rightarrow> ('k, 'v) ellen \<Rightarrow> addr \<times> ('k, 'v) ellen" where
  "create_node k v l r ver st =
    (let result = nextNodeE st in
     (result, st\<lparr>nextNodeE := Suc result,
        nodeE := (nodeE st)(result := \<lparr>nd_key = k, nd_value = v, nd_update = NULL, nd_version = ver,
          nd_left = l, nd_right = r\<rparr>)\<rparr>))"

definition create_version ::
    "'k \<Rightarrow> addr \<Rightarrow> addr \<Rightarrow> int \<Rightarrow> ('k, 'v) ellen \<Rightarrow> addr \<times> ('k, 'v) ellen" where
  "create_version k l r s st =
    (let result = nextVersionE st in
     (result, st\<lparr>nextVersionE := Suc result,
        versionE := (versionE st)(result := \<lparr>vt_left = l, vt_right = r, vt_key = k, vt_sum = s\<rparr>)\<rparr>))"

definition create_iinfo_t ::
    "addr \<Rightarrow> addr \<Rightarrow> addr \<Rightarrow> ('k, 'v) ellen \<Rightarrow> addr \<times> ('k, 'v) ellen" where
  "create_iinfo_t p ni l st =
    (let result = 4 * nextInfoE st in
     (result, st\<lparr>nextInfoE := Suc (nextInfoE st),
        infoE := (infoE st)(result := (infoE st result)\<lparr>iinfo := \<lparr>ii_p = p, ii_new_internal = ni, ii_l = l\<rparr>\<rparr>)\<rparr>))"

definition create_dinfo_t ::
    "addr \<Rightarrow> addr \<Rightarrow> addr \<Rightarrow> addr \<Rightarrow> ('k, 'v) ellen \<Rightarrow> addr \<times> ('k, 'v) ellen" where
  "create_dinfo_t gp p l u st =
    (let result = 4 * nextInfoE st in
     (result, st\<lparr>nextInfoE := Suc (nextInfoE st),
        infoE := (infoE st)(result := (infoE st result)\<lparr>dinfo := \<lparr>di_gp = gp, di_p = p, di_l = l, di_pupdate = u\<rparr>\<rparr>)\<rparr>))"

definition e_initThread :: "nat \<Rightarrow> ('k, 'v) ellen \<Rightarrow> ('k, 'v) ellen" where
  "e_initThread tid st = (if e_init st tid then st else st\<lparr>e_init := (e_init st)(tid := True)\<rparr>)"

definition e_deinitThread :: "nat \<Rightarrow> ('k, 'v) ellen \<Rightarrow> ('k, 'v) ellen" where
  "e_deinitThread tid st = (if \<not> e_init st tid then st else st\<lparr>e_init := (e_init st)(tid := False)\<rparr>)"

definition e_blank :: "'k \<Rightarrow> 'k \<Rightarrow> 'v \<Rightarrow> ('k, 'v) ellen" where
  "e_blank kmin kmax noValue =
    \<lparr>e_root = NULL, KEY_MIN = kmin, KEY_MAX = kmax, e_NO_VALUE = noValue, e_init = (\<lambda>_. False),
     nodeE = (\<lambda>_. \<lparr>nd_key = kmax, nd_value = noValue, nd_update = NULL, nd_version = NULL,
                     nd_left = NULL, nd_right = NULL\<rparr>),
     versionE = (\<lambda>_. \<lparr>vt_left = NULL, vt_right = NULL, vt_key = kmax, vt_sum = 0\<rparr>),
     infoE = (\<lambda>_. \<lparr>iinfo = \<lparr>ii_p = NULL, ii_new_internal = NULL, ii_l = NULL\<rparr>,
                     dinfo = \<lparr>di_gp = NULL, di_p = NULL, di_l = NULL, di_pupdate = NULL\<rparr>\<rparr>),
     nextNodeE = 1, nextVersionE = 1, nextInfoE = 1, retiredNodesE = [], retiredVersionsE = [],
     retiredInfosE = [], freedNodesE = [], freedVersionsE = [], freedInfosE = []\<rparr>"

definition ellen_new :: "'k \<Rightarrow> 'k \<Rightarrow> 'v \<Rightarrow> ('k, 'v) ellen" where
  "ellen_new kmin kmax noValue =
    (let st = e_initThread 0 (e_blank kmin kmax noValue);
         (v1, st) = create_version kmax NULL NULL 0 st;
         (v2, st) = create_version kmax NULL NULL 0 st;
         (i1, st) = create_node kmax noValue NULL NULL v1 st;
         (i2, st) = create_node kmax noValue NULL NULL v2 st;
         (vr, st) = create_version kmax v1 v2 0 st;
         (r, st) = create_node kmax noValue i1 i2 vr st
     in st\<lparr>e_root := r\<rparr>)"

section \<open>Helping\<close>

definition bst_cas_child :: "addr \<Rightarrow> addr \<Rightarrow> addr \<Rightarrow> ('k, 'v) ellen \<Rightarrow> bool \<times> ('k, 'v) ellen" where
  "bst_cas_child parent old nnode st =
    (if old = e_left st parent
     then (True, st\<lparr>nodeE := (nodeE st)(parent := (nodeE st parent)\<lparr>nd_left := nnode\<rparr>)\<rparr>)
     else if old = e_right st parent
     then (True, st\<lparr>nodeE := (nodeE st)(parent := (nodeE st parent)\<lparr>nd_right := nnode\<rparr>)\<rparr>)
     else (False, st))"

text \<open>The compare-and-swap on an update word and the retirement of the descriptor that follows it.\<close>

definition unflag_update :: "addr \<Rightarrow> addr \<Rightarrow> nat \<Rightarrow> ('k, 'v) ellen \<Rightarrow> ('k, 'v) ellen" where
  "unflag_update n op flag st =
    (if e_update st n = FLAG op flag
     then let st = set_update n (FLAG op STATE_CLEAN) st in st\<lparr>retiredInfosE := op # retiredInfosE st\<rparr>
     else st)"

definition bst_help_insert :: "addr \<Rightarrow> ('k, 'v) ellen \<Rightarrow> ('k, 'v) ellen" where
  "bst_help_insert op st =
    (let i = iinfo (infoE st op);
         (done', st) = bst_cas_child (ii_p i) (ii_l i) (ii_new_internal i) st;
         st = (if done' then st\<lparr>retiredNodesE := ii_l i # retiredNodesE st\<rparr> else st)
     in unflag_update (ii_p i) op STATE_IFLAG st)"

definition bst_help_marked :: "addr \<Rightarrow> ('k, 'v) ellen \<Rightarrow> ('k, 'v) ellen" where
  "bst_help_marked op st =
    (let d = dinfo (infoE st op);
         other = (if e_right st (di_p d) = di_l d then e_left st (di_p d) else e_right st (di_p d));
         (done', st) = bst_cas_child (di_gp d) (di_p d) other st;
         st = (if done' then st\<lparr>retiredNodesE := di_p d # di_l d # retiredNodesE st\<rparr> else st)
     in unflag_update (di_gp d) op STATE_DFLAG st)"

text \<open>
  \<open>bst_help\<close> and \<open>bst_help_delete\<close> call each other; one function runs both, on a value that names the
  call.  Its result is what \<open>bst_help_delete\<close> returns.
\<close>

datatype help_call = Help addr | HelpDelete addr

partial_function (option) help_run ::
    "help_call \<Rightarrow> ('k, 'v) ellen \<Rightarrow> (bool \<times> ('k, 'v) ellen) option" where
  "help_run c st =
    (case c of
       HelpDelete op \<Rightarrow>
         let d = dinfo (infoE st op); result = e_update st (di_p d);
             st1 = (if result = di_pupdate d then set_update (di_p d) (FLAG op STATE_MARK) st else st)
         in if result = di_pupdate d \<or> result = FLAG op STATE_MARK
            then Some (True, bst_help_marked op st1)
            else do {
              (_, st2) \<leftarrow> help_run (Help result) st1;
              Some (False, unflag_update (di_gp d) op STATE_DFLAG st2)
            }
     | Help u \<Rightarrow>
         if GETFLAG u = STATE_DFLAG then help_run (HelpDelete (UNFLAG u)) st
         else if GETFLAG u = STATE_IFLAG then Some (True, bst_help_insert (UNFLAG u) st)
         else if GETFLAG u = STATE_MARK then Some (True, bst_help_marked (UNFLAG u) st)
         else Some (True, st))"

definition bst_help :: "addr \<Rightarrow> ('k, 'v) ellen \<Rightarrow> ('k, 'v) ellen option" where
  "bst_help u st = map_option snd (help_run (Help u) st)"

definition bst_help_delete :: "addr \<Rightarrow> ('k, 'v) ellen \<Rightarrow> (bool \<times> ('k, 'v) ellen) option" where
  "bst_help_delete op st = help_run (HelpDelete op) st"

section \<open>Versions\<close>

definition e_refresh ::
    "addr \<Rightarrow> addr list \<Rightarrow> ('k, 'v) ellen \<Rightarrow> bool \<times> addr list \<times> ('k, 'v) ellen" where
  "e_refresh node toRetire st =
    (let old = e_version st node;
         left_version = e_version st (e_left st node);
         right_version = e_version st (e_right st node);
         (new_version, st) = create_version (e_key st node) left_version right_version
           (vt_sum (versionE st left_version) + vt_sum (versionE st right_version)) st
     in if e_version st node = old
        then (True, toRetire @ [old],
              st\<lparr>nodeE := (nodeE st)(node := (nodeE st node)\<lparr>nd_version := new_version\<rparr>)\<rparr>)
        else (False, toRetire, st\<lparr>freedVersionsE := new_version # freedVersionsE st\<rparr>))"

fun e_propagateLoop :: "addr list \<Rightarrow> addr list \<Rightarrow> ('k, 'v) ellen \<Rightarrow> addr list \<times> ('k, 'v) ellen" where
  "e_propagateLoop [] toRetire st = (toRetire, st)"
| "e_propagateLoop (n # stack) toRetire st =
    (case e_refresh n toRetire st of
       (True, toRetire, st) \<Rightarrow> e_propagateLoop stack toRetire st
     | (False, toRetire, st) \<Rightarrow>
         (case e_refresh n toRetire st of (_, toRetire, st) \<Rightarrow> e_propagateLoop stack toRetire st))"

definition e_propagate :: "addr list \<Rightarrow> ('k, 'v) ellen \<Rightarrow> ('k, 'v) ellen" where
  "e_propagate stack st =
    (case e_propagateLoop stack [] st of (toRetire, st) \<Rightarrow>
       st\<lparr>retiredVersionsE := rev toRetire @ retiredVersionsE st\<rparr>)"

section \<open>Operations\<close>

partial_function (option) e_findLoop :: "'k::linorder \<Rightarrow> addr \<Rightarrow> ('k, 'v) ellen \<Rightarrow> addr option" where
  "e_findLoop key l st =
    (if e_left st l \<noteq> NULL
     then e_findLoop key (if key < e_key st l then e_left st l else e_right st l) st
     else Some l)"

definition bst_find :: "'k::linorder \<Rightarrow> ('k, 'v) ellen \<Rightarrow> 'v option" where
  "bst_find key st =
    do {
      l \<leftarrow> e_findLoop key (e_left st (e_root st)) st;
      Some (if e_key st l = key then e_value st l else e_NO_VALUE st)
    }"

definition e_compareKeys :: "'k::linorder \<Rightarrow> 'k \<Rightarrow> bool \<Rightarrow> 'k \<Rightarrow> bool \<Rightarrow> bool" where
  "e_compareKeys kmax a aIsLo b bIsLo =
    (if a = kmax then aIsLo else if b = kmax then \<not> bIsLo else a < b)"

partial_function (option) do_bst_rangequery ::
    "'k::linorder \<Rightarrow> 'k \<Rightarrow> addr \<Rightarrow> ('k, 'v) ellen \<Rightarrow> int option" where
  "do_bst_rangequery lo hi c st =
    (let v = versionE st c; cmp = e_compareKeys (KEY_MAX st) in
     if lo = KEY_MAX st \<and> hi = KEY_MAX st then Some (vt_sum v)
     else if vt_left v = NULL
     then Some (if vt_key v \<noteq> KEY_MAX st \<and> \<not> cmp (vt_key v) False lo True \<and> \<not> cmp hi False (vt_key v) False
                then 1 else 0)
     else if vt_key v = KEY_MAX st \<or> cmp hi False (vt_key v) False
     then do_bst_rangequery lo hi (vt_left v) st
     else if cmp (vt_key v) False lo True then do_bst_rangequery lo hi (vt_right v) st
     else do {
       x \<leftarrow> do_bst_rangequery lo (KEY_MAX st) (vt_left v) st;
       y \<leftarrow> do_bst_rangequery (KEY_MAX st) hi (vt_right v) st;
       Some (x + y)
     })"

definition bst_rangequery :: "'k::linorder \<Rightarrow> 'k \<Rightarrow> ('k, 'v) ellen \<Rightarrow> int option" where
  "bst_rangequery lo hi st = do_bst_rangequery lo hi (e_version st (e_root st)) st"

text \<open>
  One round of the retry loop of \<open>bst_insert\<close>: \<open>Some v\<close> when the routine returns \<open>v\<close>, \<open>None\<close> when it
  starts over.
\<close>

partial_function (option) e_searchInsert ::
    "'k::linorder \<Rightarrow> addr list \<Rightarrow> addr \<Rightarrow> addr \<Rightarrow> addr \<Rightarrow> ('k, 'v) ellen \<Rightarrow>
     (addr list \<times> addr \<times> addr \<times> addr) option" where
  "e_searchInsert key stack p pupdate l st =
    (if e_left st l \<noteq> NULL
     then e_searchInsert key (l # stack) l (e_update st l)
            (if key < e_key st l then e_left st l else e_right st l) st
     else Some (stack, p, pupdate, l))"

definition e_insertNew ::
    "'k::linorder \<Rightarrow> 'v \<Rightarrow> addr list \<Rightarrow> addr \<Rightarrow> addr \<Rightarrow> addr \<Rightarrow> ('k, 'v) ellen \<Rightarrow>
     ('v option \<times> ('k, 'v) ellen) option" where
  "e_insertNew key value stack p pupdate l st =
    (let lkey = e_key st l; lvalue = e_value st l;
         (node_ver, st) = create_version key NULL NULL 1 st;
         (sibling_ver, st) = create_version lkey NULL NULL (if lkey = KEY_MAX st then 0 else 1) st;
         s = vt_sum (versionE st node_ver) + vt_sum (versionE st sibling_ver);
         (internal_ver, st) =
           (if key < lkey then create_version lkey node_ver sibling_ver s st
            else create_version key sibling_ver node_ver s st);
         (new_node, st) = create_node key value NULL NULL node_ver st;
         (new_sibling, st) = create_node lkey lvalue NULL NULL sibling_ver st;
         (new_internal, st) =
           (if key < lkey then create_node lkey (e_NO_VALUE st) new_node new_sibling internal_ver st
            else create_node key (e_NO_VALUE st) new_sibling new_node internal_ver st);
         (op, st) = create_iinfo_t p new_internal l st;
         result = e_update st p
     in if result = pupdate
        then let st = bst_help_insert op (set_update p (FLAG op STATE_IFLAG) st)
             in Some (Some (e_NO_VALUE st), e_propagate stack st)
        else let st = st\<lparr>freedNodesE := new_internal # new_sibling # new_node # freedNodesE st,
                          freedInfosE := op # freedInfosE st\<rparr>
             in do { st \<leftarrow> bst_help result st; Some (None, st) })"

definition e_insertAttempt ::
    "'k::linorder \<Rightarrow> 'v \<Rightarrow> ('k, 'v) ellen \<Rightarrow> ('v option \<times> ('k, 'v) ellen) option" where
  "e_insertAttempt key value st =
    do {
      (stack, p, pupdate, l) \<leftarrow> e_searchInsert key [e_root st] (e_root st) (e_update st (e_root st))
         (e_left st (e_root st)) st;
      if e_key st l = key then Some (Some (e_value st l), e_propagate stack st)
      else if GETFLAG pupdate \<noteq> STATE_CLEAN then do { st \<leftarrow> bst_help pupdate st; Some (None, st) }
      else e_insertNew key value stack p pupdate l st
    }"

partial_function (option) bst_insert ::
    "'k::linorder \<Rightarrow> 'v \<Rightarrow> ('k, 'v) ellen \<Rightarrow> ('v \<times> ('k, 'v) ellen) option" where
  "bst_insert key value st =
    do {
      (r, st) \<leftarrow> e_insertAttempt key value st;
      case r of Some v \<Rightarrow> Some (v, st) | None \<Rightarrow> bst_insert key value st
    }"

text \<open>The search of \<open>bst_delete\<close> also remembers the grandparent, and pushes the parent.\<close>

partial_function (option) e_searchDelete ::
    "'k::linorder \<Rightarrow> addr list \<Rightarrow> addr \<Rightarrow> addr \<Rightarrow> addr \<Rightarrow> addr \<Rightarrow> addr \<Rightarrow> ('k, 'v) ellen \<Rightarrow>
     (addr list \<times> addr \<times> addr \<times> addr \<times> addr \<times> addr) option" where
  "e_searchDelete key stack gp gpupdate p pupdate l st =
    (if e_left st l \<noteq> NULL
     then e_searchDelete key (p # stack) p pupdate l (e_update st l)
            (if key < e_key st l then e_left st l else e_right st l) st
     else Some (stack, gp, gpupdate, p, pupdate, l))"

definition e_deleteLeaf ::
    "addr list \<Rightarrow> addr \<Rightarrow> addr \<Rightarrow> addr \<Rightarrow> addr \<Rightarrow> addr \<Rightarrow> ('k, 'v) ellen \<Rightarrow>
     ('v option \<times> ('k, 'v) ellen) option" where
  "e_deleteLeaf stack gp gpupdate p pupdate l st =
    (let found_value = e_value st l;
         (op, st) = create_dinfo_t gp p l pupdate st;
         result = e_update st gp
     in if result = gpupdate
        then do {
          (b, st) \<leftarrow> bst_help_delete op (set_update gp (FLAG op STATE_DFLAG) st);
          Some (if b then (Some found_value, e_propagate stack st) else (None, st))
        }
        else do { st \<leftarrow> bst_help result (st\<lparr>freedInfosE := op # freedInfosE st\<rparr>); Some (None, st) })"

definition e_deleteAttempt ::
    "'k::linorder \<Rightarrow> ('k, 'v) ellen \<Rightarrow> ('v option \<times> ('k, 'v) ellen) option" where
  "e_deleteAttempt key st =
    do {
      (stack, gp, gpupdate, p, pupdate, l) \<leftarrow> e_searchDelete key [e_root st] NULL NULL (e_root st)
         (e_update st (e_root st)) (e_left st (e_root st)) st;
      if e_key st l \<noteq> key then Some (Some (e_NO_VALUE st), e_propagate stack st)
      else if GETFLAG gpupdate \<noteq> STATE_CLEAN then do { st \<leftarrow> bst_help gpupdate st; Some (None, st) }
      else if GETFLAG pupdate \<noteq> STATE_CLEAN then do { st \<leftarrow> bst_help pupdate st; Some (None, st) }
      else e_deleteLeaf stack gp gpupdate p pupdate l st
    }"

partial_function (option) bst_delete ::
    "'k::linorder \<Rightarrow> ('k, 'v) ellen \<Rightarrow> ('v \<times> ('k, 'v) ellen) option" where
  "bst_delete key st =
    do {
      (r, st) \<leftarrow> e_deleteAttempt key st;
      case r of Some v \<Rightarrow> Some (v, st) | None \<Rightarrow> bst_delete key st
    }"

end
