(* ===== verification/Ellen_Trees.thy ===== *)
theory Ellen_Trees
  imports BAT_Map Ellen_BST
begin

unbundle bit_operations_syntax

text \<open>
  The Ellen et al. tree without interference: trees in memory, the versions that mirror them, the
  effect of a helped operation, and the correctness of search, insertion, deletion and propagation.
\<close>

section \<open>Update words\<close>

lemma and_3: "(n::nat) AND 3 = n mod 4"
  using take_bit_eq_mask[of 2 n] by (simp add: take_bit_eq_mod mask_eq_exp_minus_1 and.commute)

lemma flag_sum: "f < 4 \<Longrightarrow> FLAG p f = 4 * (p div 4) + f"
proof -
  assume f: "f < 4"
  have "push_bit 2 (drop_bit 2 p) OR f = push_bit 2 (drop_bit 2 p) + f"
  proof (rule disjunctive_add[symmetric])
    fix n
    have "\<not> bit f n" if "2 \<le> n"
    proof -
      have "take_bit 2 f = f" using f by (simp add: take_bit_eq_mod)
      then show ?thesis using that by (metis bit_take_bit_iff leD)
    qed
    then show "\<not> bit (push_bit 2 (drop_bit 2 p)) n \<or> \<not> bit f n"
      by (cases "2 \<le> n") (auto simp: bit_simps)
  qed
  then show ?thesis by (simp add: FLAG_def push_bit_eq_mult drop_bit_eq_div)
qed

lemma flag_fields:
  assumes "f < 4"
  shows "GETFLAG (FLAG p f) = f" "UNFLAG (FLAG p f) = UNFLAG p" "p mod 4 = 0 \<Longrightarrow> UNFLAG (FLAG p f) = p"
  using assms div_mult_mod_eq[of p 4]
  by (simp_all add: GETFLAG_def and_3 flag_sum UNFLAG_def push_bit_eq_mult drop_bit_eq_div)

lemma getflag_null [simp]: "GETFLAG NULL = STATE_CLEAN"
  by (simp add: GETFLAG_def)

section \<open>Trees in memory\<close>

text \<open>The nodes, seen as nodes of weight 0, so that the facts on trees in memory apply.\<close>

definition as_node :: "('k, 'v) node_t \<Rightarrow> ('k, 'v) Node" where
  "as_node n = \<lparr>key = nd_key n, left = nd_left n, right = nd_right n, weight = 0, val = nd_value n,
     marked = False, version = nd_version n, scxRecord = nd_update n\<rparr>"

definition shapeE :: "('k, 'v) ellen \<Rightarrow> addr \<Rightarrow> ('k, 'v) Node" where
  "shapeE st a = as_node (nodeE st a)"

lemma shapeE_sel [simp]:
  "key (shapeE st a) = e_key st a" "val (shapeE st a) = e_value st a" "left (shapeE st a) = e_left st a"
  "right (shapeE st a) = e_right st a" "weight (shapeE st a) = 0"
  by (simp_all add: shapeE_def as_node_def)

definition ewf :: "('k, 'v) ellen \<Rightarrow> ('k, 'v) ct \<Rightarrow> bool" where
  "ewf st W \<longleftrightarrow> tree_at (shapeE st) W \<and> distinct (addrs W) \<and>
     (\<forall>a\<in>set (addrs W). a < nextNodeE st \<and> GETFLAG (e_update st a) = STATE_CLEAN)"

definition set_child :: "addr \<Rightarrow> bool \<Rightarrow> addr \<Rightarrow> ('k, 'v) ellen \<Rightarrow> ('k, 'v) ellen" where
  "set_child n onleft c st = st\<lparr>nodeE := (nodeE st)(n :=
     if onleft then (nodeE st n)\<lparr>nd_left := c\<rparr> else (nodeE st n)\<lparr>nd_right := c\<rparr>)\<rparr>"

lemma shape_set_child: "shapeE (set_child n onleft c st) = put_field (n, onleft) c (shapeE st)"
  by (auto simp: set_child_def put_field_def fun_eq_iff shapeE_def as_node_def)

lemma cas_child_hole:
  assumes "tree_at (shapeE st) (plug C u)" and "distinct (addrs (plug C u))" and C: "C \<noteq> []"
  shows "bst_cas_child (fadr (hd C)) (adr u) c st = (True, set_child (fadr (hd C)) (is_FL (hd C)) c st)"
proof -
  obtain f D where f: "C = f # D" using C by (cases C) auto
  show ?thesis
  proof (cases f)
    case (FL a k v w s)
    then show ?thesis using assms by (simp add: tree_at_plug bst_cas_child_def set_child_def f)
  next
    case (FR a k v w s)
    have "distinct (addrs (fill f u))" using assms(2) by (simp add: f distinct_addrs_plug)
    then have "adr s \<noteq> adr u"
      using adr_in_addrs[of s] adr_in_addrs[of u] by (auto simp: FR disjoint_iff simp del: adr_in_addrs)
    then show ?thesis using assms by (simp add: tree_at_plug bst_cas_child_def set_child_def FR f)
  qed
qed

lemma tree_at_nonnull: "tree_at h t \<Longrightarrow> a \<in> set (addrs t) \<Longrightarrow> a \<noteq> NULL"
  by (induction t) auto

lemma ewf_replace:
  assumes wf: "ewf st (plug C u)" and C: "C \<noteq> []" and S: "tree_at (shapeE st) S" "distinct (addrs S)"
      "set (addrs S) \<inter> set (caddrs C) = {}"
      "\<forall>a\<in>set (addrs S). a < nextNodeE st \<and> GETFLAG (e_update st a) = STATE_CLEAN"
  shows "ewf (set_child (fadr (hd C)) (is_FL (hd C)) (adr S) st) (plug C S)"
proof -
  let ?st = "set_child (fadr (hd C)) (is_FL (hd C)) (adr S) st"
  have h: "hole NULL C = (fadr (hd C), is_FL (hd C))" "fadr (hd C) \<in> set (caddrs C)" using C by (cases C; simp)+
  have t: "ctx_at (shapeE st) C (adr u)" and d: "distinct (caddrs C)" "NULL \<notin> set (caddrs C)"
    using wf tree_at_nonnull[of "shapeE st" "plug C u" NULL]
    by (auto simp: ewf_def tree_at_plug distinct_addrs_plug set_addrs_plug)
  have c: "ctx_at (shapeE ?st) C (adr S)"
    unfolding shape_set_child using ctx_at_put[OF t d, of "adr S"] h by simp
  have "same_fields (shapeE ?st a) (shapeE st a)" if "a \<in> set (addrs S)" for a
    using that S(3) h(2) unfolding shape_set_child by (auto simp: put_field_def)
  then have "tree_at (shapeE ?st) S"
    using S(1) tree_at_cong[of S "shapeE ?st" "shapeE st"] by blast
  moreover have "e_update ?st a = e_update st a" "nextNodeE ?st = nextNodeE st" for a by (simp_all add: set_child_def)
  ultimately show ?thesis
    using c d(1) S(2-4) wf by (auto simp: ewf_def tree_at_plug distinct_addrs_plug set_addrs_plug)
qed

section \<open>Versions\<close>

fun subtrees :: "('k, 'v) ct \<Rightarrow> ('k, 'v) ct set" where
  "subtrees (Lf a k v w) = {Lf a k v w}"
| "subtrees (Nd a k v w l r) = insert (Nd a k v w l r) (subtrees l \<union> subtrees r)"

fun evt :: "('k, 'v) ellen \<Rightarrow> addr \<Rightarrow> ('k, 'v) ct \<Rightarrow> bool" where
  "evt st u (Lf a k v w) \<longleftrightarrow> 1 \<le> u \<and> u < nextVersionE st \<and> vt_key (versionE st u) = k \<and>
     vt_left (versionE st u) = NULL \<and> vt_sum (versionE st u) = (if k = KEY_MAX st then 0 else 1)"
| "evt st u (Nd a k v w l r) \<longleftrightarrow> 1 \<le> u \<and> u < nextVersionE st \<and> vt_key (versionE st u) = k \<and>
     evt st (vt_left (versionE st u)) l \<and> evt st (vt_right (versionE st u)) r \<and>
     vt_sum (versionE st u) = vt_sum (versionE st (vt_left (versionE st u))) + vt_sum (versionE st (vt_right (versionE st u)))"

definition evok :: "('k, 'v) ellen \<Rightarrow> addr set \<Rightarrow> ('k, 'v) ct \<Rightarrow> bool" where
  "evok st A W \<longleftrightarrow> (\<forall>t\<in>subtrees W. adr t \<notin> A \<longrightarrow> evt st (e_version st (adr t)) t)"

definition eframe :: "('k, 'v) ellen \<Rightarrow> ('k, 'v) ellen \<Rightarrow> bool" where
  "eframe st st' \<longleftrightarrow> e_root st' = e_root st \<and> KEY_MAX st' = KEY_MAX st \<and> e_NO_VALUE st' = e_NO_VALUE st \<and>
     nextVersionE st \<le> nextVersionE st' \<and> (\<forall>u<nextVersionE st. versionE st' u = versionE st u)"

lemma eframe_refl [simp]: "eframe st st"
  by (simp add: eframe_def)

lemma eframe_trans: "eframe st st' \<Longrightarrow> eframe st' st'' \<Longrightarrow> eframe st st''"
  by (auto simp: eframe_def)

lemma evt_frame: "evt st u t \<Longrightarrow> eframe st st' \<Longrightarrow> evt st' u t"
proof (induction t arbitrary: u)
  case (Lf a k v w)
  then show ?case by (auto simp: eframe_def)
next
  case (Nd a k v w l r)
  have b: "evt st x t \<Longrightarrow> x < nextVersionE st" for x t by (cases t) auto
  have "versionE st' u = versionE st u" using Nd.prems by (auto simp: eframe_def)
  moreover have "versionE st' (vt_left (versionE st u)) = versionE st (vt_left (versionE st u))"
    "versionE st' (vt_right (versionE st u)) = versionE st (vt_right (versionE st u))"
    using Nd.prems b by (auto simp: eframe_def)
  ultimately show ?case using Nd by (auto simp: eframe_def)
qed

lemma evt_bounds: "evt st u t \<Longrightarrow> 1 \<le> u \<and> u < nextVersionE st"
  by (cases t) auto

lemma subtree_in: "t \<in> subtrees W \<Longrightarrow> set (addrs t) \<subseteq> set (addrs W)"
  by (induction W) auto

lemma self_subtree [simp]: "t \<in> subtrees t"
  by (cases t) auto

lemma node_subtree_at: "t \<in> subtrees W \<Longrightarrow> tree_at h W \<Longrightarrow> tree_at h t"
  by (induction W) auto

lemma subtrees_trans: "t \<in> subtrees s \<Longrightarrow> s \<in> subtrees W \<Longrightarrow> t \<in> subtrees W"
  by (induction W) auto

lemma subtree_unique:
  assumes "distinct (addrs W)" and "t \<in> subtrees W" and "s \<in> subtrees W" and "adr t = adr s"
  shows "t = s"
  using assms
proof (induction W)
  case (Nd a k v w l r)
  have "adr x \<in> set (addrs l)" if "x \<in> subtrees l" for x using subtree_in[OF that] by auto
  moreover have "adr x \<in> set (addrs r)" if "x \<in> subtrees r" for x using subtree_in[OF that] by auto
  ultimately show ?case using Nd by (auto simp: disjoint_iff) metis+
qed auto

text \<open>Refreshing an internal node whose children have right versions.\<close>

lemma refresh_evok:
  assumes wf: "ewf st W" and t: "Nd n k v w l r \<in> subtrees W" and ok: "evok st A W"
    and A: "adr l \<notin> A" "adr r \<notin> A"
  shows "\<exists>st' rs. e_refresh n toRetire st = (True, rs, st') \<and> ewf st' W \<and> eframe st st' \<and> evok st' (A - {n}) W"
proof -
  let ?v = "nextVersionE st" and ?lv = "e_version st (adr l)" and ?rv = "e_version st (adr r)"
  define st1 where "st1 = snd (create_version (e_key st n) ?lv ?rv (vt_sum (versionE st ?lv) + vt_sum (versionE st ?rv)) st)"
  define st' where "st' = st1\<lparr>nodeE := (nodeE st)(n := (nodeE st n)\<lparr>nd_version := ?v\<rparr>)\<rparr>"
  have tn: "tree_at (shapeE st) (Nd n k v w l r)" 
    by (rule node_subtree_at[OF t]) (use wf in \<open>simp add: ewf_def\<close>)
  then have c: "e_left st n = adr l" "e_right st n = adr r" "e_key st n = k" by auto
  have lr: "l \<in> subtrees W" "r \<in> subtrees W"
    using subtrees_trans[OF _ t, of l] subtrees_trans[OF _ t, of r] by auto
  have ev: "evt st ?lv l" "evt st ?rv r" using ok A lr by (auto simp: evok_def)
  have s1: "nodeE st1 = nodeE st" "nextVersionE st1 = Suc ?v" "versionE st1 = (versionE st)(?v :=
     \<lparr>vt_left = ?lv, vt_right = ?rv, vt_key = k, vt_sum = vt_sum (versionE st ?lv) + vt_sum (versionE st ?rv)\<rparr>)"
    by (simp_all add: st1_def create_version_def Let_def c)
  have fr: "eframe st st'" by (simp add: eframe_def st'_def s1) (simp add: st1_def create_version_def Let_def)
  have eq: "e_refresh n toRetire st = (True, toRetire @ [e_version st n], st')"
    by (simp add: e_refresh_def Let_def c create_version_def Let_def st'_def st1_def)
  have sh: "shapeE st' a = (shapeE st a)\<lparr>version := e_version st' a\<rparr>" for a
    by (simp add: shapeE_def as_node_def st'_def)
  have "ewf st' W"
    using wf tree_at_cong[of W "shapeE st'" "shapeE st"]
    by (auto simp: ewf_def same_fields_def sh st'_def s1) (simp_all add: st1_def create_version_def Let_def)
  moreover have "evok st' (A - {n}) W"
    unfolding evok_def
  proof (intro ballI impI)
    fix t assume t2: "t \<in> subtrees W" "adr t \<notin> A - {n}"
    show "evt st' (e_version st' (adr t)) t"
    proof (cases "adr t = n")
      case True
      then have "t = Nd n k v w l r" using subtree_unique[of W t "Nd n k v w l r"] wf t t2(1) by (simp add: ewf_def)
      moreover have "versionE st' ?v = \<lparr>vt_left = ?lv, vt_right = ?rv, vt_key = k,
          vt_sum = vt_sum (versionE st ?lv) + vt_sum (versionE st ?rv)\<rparr>"
        "versionE st' ?lv = versionE st ?lv" "versionE st' ?rv = versionE st ?rv"
        "nextVersionE st' = Suc ?v" "e_version st' n = ?v" "1 \<le> ?v"
        using evt_bounds[OF ev(1)] evt_bounds[OF ev(2)] by (auto simp: st'_def s1)
      ultimately show ?thesis using evt_frame[OF ev(1) fr] evt_frame[OF ev(2) fr] by simp
    next
      case False
      then have "e_version st' (adr t) = e_version st (adr t)" by (simp add: st'_def)
      then show ?thesis using evt_frame[OF _ fr] ok t2 False by (auto simp: evok_def)
    qed
  qed
  ultimately show ?thesis using eq fr by blast
qed

fun up_ok :: "('k, 'v) ct \<Rightarrow> addr list \<Rightarrow> addr set \<Rightarrow> bool" where
  "up_ok W [] A = True"
| "up_ok W (n # ns) A \<longleftrightarrow> (\<exists>k v w l r. Nd n k v w l r \<in> subtrees W \<and> adr l \<notin> A \<and> adr r \<notin> A) \<and>
     up_ok W ns (A - {n})"

lemma up_ok_append: "up_ok W (xs @ ys) A \<longleftrightarrow> up_ok W xs A \<and> up_ok W ys (A - set xs)"
  by (induction xs arbitrary: A) (auto simp: Diff_insert2[symmetric] Diff_insert[symmetric])

lemma propagateLoop_evok:
  assumes "ewf st W" and "evok st A W" and "up_ok W ss A"
  shows "\<exists>rs st'. e_propagateLoop ss toRetire st = (rs, st') \<and> ewf st' W \<and> eframe st st' \<and> evok st' (A - set ss) W"
  using assms
proof (induction ss arbitrary: A toRetire st)
  case (Cons n ss)
  obtain k v w l r where n: "Nd n k v w l r \<in> subtrees W" "adr l \<notin> A" "adr r \<notin> A" "up_ok W ss (A - {n})"
    using Cons.prems(3) by auto
  obtain st1 rs where r: "e_refresh n toRetire st = (True, rs, st1)" "ewf st1 W" "eframe st st1" "evok st1 (A - {n}) W"
    using refresh_evok[OF Cons.prems(1) n(1) Cons.prems(2) n(2,3)] by blast
  from Cons.IH[OF r(2,4) n(4), of rs] show ?case
    using r(1) eframe_trans[OF r(3)] by (auto simp: Diff_insert2[symmetric] Diff_insert[symmetric])
qed auto

lemma propagate_evok:
  assumes "ewf st W" and "evok st A W" and "up_ok W ss A" and "A \<subseteq> set ss"
  shows "ewf (e_propagate ss st) W \<and> eframe st (e_propagate ss st) \<and> evok (e_propagate ss st) {} W"
proof -
  obtain rs st' where p: "e_propagateLoop ss [] st = (rs, st')" "ewf st' W" "eframe st st'" "evok st' (A - set ss) W"
    using propagateLoop_evok[OF assms(1-3)] by blast
  let ?st = "st'\<lparr>retiredVersionsE := rev rs @ retiredVersionsE st'\<rparr>"
  have f: "eframe st' ?st" by (simp add: eframe_def)
  have "A - set ss = {}" using assms(4) by auto
  then have "evok ?st {} W" using p(4) evt_frame[OF _ f] by (auto simp: evok_def)
  moreover have "shapeE ?st = shapeE st'" by (simp add: shapeE_def fun_eq_iff)
  moreover have "ewf ?st W" using p(2) calculation(2) by (simp add: ewf_def)
  ultimately show ?thesis using p(1) eframe_trans[OF p(3) f] by (simp add: e_propagate_def)
qed

section \<open>Paths\<close>

lemma hole_subtree: "s \<in> subtrees (plug C s)"
proof (induction C arbitrary: s)
  case (Cons f C)
  have "s \<in> subtrees (fill f s)" by (cases f) auto
  then show ?case using subtrees_trans[OF _ Cons[of "fill f s"]] by simp
qed simp

lemma frame_subtree:
  assumes "f \<in> set C"
  shows "\<exists>k v w l r. Nd (fadr f) k v w l r \<in> subtrees (plug C s)"
  using assms
proof (induction C arbitrary: s)
  case (Cons g C)
  show ?case
  proof (cases "f = g")
    case True
    obtain k v w l r where "fill f s = Nd (fadr f) k v w l r" by (cases f) auto
    then have "Nd (fadr f) k v w l r \<in> subtrees (plug C (fill f s))" using hole_subtree[of "fill f s" C] by simp
    then show ?thesis using True by (simp only: plug.simps) blast
  qed (use Cons in auto)
qed simp

lemma sib_subtree:
  assumes "f \<in> set C" and "t \<in> subtrees (fsib f)"
  shows "t \<in> subtrees (plug C s)"
  using assms
proof (induction C arbitrary: s)
  case (Cons g C)
  show ?case
  proof (cases "f = g")
    case True
    then have "t \<in> subtrees (fill f s)" using Cons.prems(2) by (cases f) auto
    then show ?thesis using subtrees_trans[OF _ hole_subtree[of "fill f s" C]] True by simp
  qed (use Cons in auto)
qed simp

lemma subtrees_plug_cases:
  assumes "t \<in> subtrees (plug C s)"
  shows "t \<in> subtrees s \<or> (\<exists>f\<in>set C. t \<in> subtrees (fsib f)) \<or> adr t \<in> fadr ` set C"
  using assms
proof (induction C arbitrary: s)
  case (Cons g C)
  have "t \<in> subtrees (fill g s) \<Longrightarrow> t \<in> subtrees s \<or> t \<in> subtrees (fsib g) \<or> adr t = fadr g" by (cases g) auto
  then show ?case using Cons.IH[of "fill g s"] Cons.prems by auto
qed simp

lemma evok_replace:
  assumes "evok st {} (plug C u)" and "eframe st st'" and "\<And>f t. f \<in> set C \<Longrightarrow> t \<in> subtrees (fsib f) \<Longrightarrow>
      e_version st' (adr t) = e_version st (adr t)" and "evok st' {} S"
  shows "evok st' (fadr ` set C) (plug C S)"
  unfolding evok_def
proof (intro ballI impI)
  fix t assume t: "t \<in> subtrees (plug C S)" "adr t \<notin> fadr ` set C"
  consider "t \<in> subtrees S" | f where "f \<in> set C" "t \<in> subtrees (fsib f)"
    using subtrees_plug_cases[OF t(1)] t(2) by blast
  then show "evt st' (e_version st' (adr t)) t"
  proof cases
    case 1
    then show ?thesis using assms(4) by (simp add: evok_def)
  next
    case 2
    then have "evt st (e_version st (adr t)) t" using assms(1) sib_subtree[OF 2] by (simp add: evok_def)
    then show ?thesis using evt_frame[OF _ assms(2)] assms(3)[OF 2] by simp
  qed
qed

lemma up_path:
  assumes "distinct (addrs (plug C s))"
  shows "up_ok (plug C s) (map fadr C) (fadr ` set C)"
  using assms
proof (induction C arbitrary: s)
  case (Cons f C)
  let ?W = "plug C (fill f s)"
  have d: "distinct (addrs (fill f s))" "set (addrs (fill f s)) \<inter> set (caddrs C) = {}" "distinct (caddrs C)"
    using Cons.prems by (simp_all add: distinct_addrs_plug)
  have C: "fadr ` set D \<subseteq> set (caddrs D)" for D :: "('a, 'b) ctx" by (induction D) auto
  have in': "fadr f \<in> set (addrs (fill f s))" "adr s \<in> set (addrs (fill f s))" "adr (fsib f) \<in> set (addrs (fill f s))"
    by (simp_all add: set_addrs_fill)
  have n: "adr s \<noteq> fadr f" "adr (fsib f) \<noteq> fadr f"
    using d(1) adr_in_addrs[of s] adr_in_addrs[of "fsib f"] by (auto simp: distinct_addrs_fill simp del: adr_in_addrs)
  have nA: "x \<notin> fadr ` set C" if "x \<in> set (addrs (fill f s))" for x using that C d(2) by blast
  have e: "insert (fadr f) (fadr ` set C) - {fadr f} = fadr ` set C" using nA[OF in'(1)] by simp
  obtain k v w l r where N: "fill f s = Nd (fadr f) k v w l r" "adr l = adr s \<or> adr l = adr (fsib f)"
      "adr r = adr s \<or> adr r = adr (fsib f)" by (cases f) auto
  have "adr l \<notin> insert (fadr f) (fadr ` set C)" "adr r \<notin> insert (fadr f) (fadr ` set C)"
    using N(2,3) nA[OF in'(2)] nA[OF in'(3)] n by (metis insert_iff)+
  then have "\<exists>k v w l r. Nd (fadr f) k v w l r \<in> subtrees ?W \<and> adr l \<notin> insert (fadr f) (fadr ` set C) \<and>
      adr r \<notin> insert (fadr f) (fadr ` set C)"
    using hole_subtree[of "fill f s" C] unfolding N(1) by blast
  then show ?case using Cons.IH[of "fill f s"] Cons.prems e by simp
qed simp

lemma up_all:
  assumes "set ns \<subseteq> fadr ` set C"
  shows "up_ok (plug C s) ns {}"
  using assms frame_subtree by (induction ns) fastforce+

section \<open>Searching\<close>

lemma e_findLoop_zdown:
  assumes "tree_at (shapeE st) t" and "zdown x C t = (D, u)"
  shows "e_findLoop x (adr t) st = Some (adr u)"
  using assms
proof (induction x C t rule: zdown.induct)
  case (1 x C a k v w)
  then show ?case by (subst e_findLoop.simps) auto
next
  case (2 x C a k v w l r)
  then show ?case using tree_at_adr[of "shapeE st" l] by (subst e_findLoop.simps) (auto split: if_splits)
qed

lemma e_searchInsert_zdown:
  assumes "tree_at (shapeE st) t" and "zdown x C t = (D, u)" and "pr = fst (hole rt C)"
  shows "e_searchInsert x (map fadr C @ base) pr (e_update st pr) (adr t) st =
    Some (map fadr D @ base, fst (hole rt D), e_update st (fst (hole rt D)), adr u)"
  using assms
proof (induction x C t arbitrary: pr rule: zdown.induct)
  case (1 x C a k v w)
  then show ?case by (subst e_searchInsert.simps) auto
next
  case (2 x C a k v w l r)
  have n: "adr l \<noteq> NULL" using 2(3) tree_at_adr[of "shapeE st" l] by simp
  show ?case
  proof (cases "x < k")
    case True
    then show ?thesis using 2(1)[OF True, of a] 2(3-5) n by (subst e_searchInsert.simps) auto
  next
    case False
    then show ?thesis using 2(2)[OF False, of a] 2(3-5) n by (subst e_searchInsert.simps) auto
  qed
qed

definition del_stack :: "addr \<Rightarrow> ('k, 'v) ctx \<Rightarrow> addr list" where
  "del_stack rt C = (if C = [] then [rt] else map fadr (tl C) @ [rt, rt])"

definition del_gp :: "addr \<Rightarrow> ('k, 'v) ctx \<Rightarrow> addr" where
  "del_gp rt C = (if C = [] then NULL else fst (hole rt (tl C)))"

lemma e_searchDelete_zdown:
  assumes "tree_at (shapeE st) t" and "zdown x C t = (D, u)" and "gp = del_gp rt C" and "pr = fst (hole rt C)"
    and "gpu = (if C = [] then NULL else e_update st gp)"
  shows "e_searchDelete x (del_stack rt C) gp gpu pr (e_update st pr) (adr t) st =
    Some (del_stack rt D, del_gp rt D, if D = [] then NULL else e_update st (del_gp rt D),
      fst (hole rt D), e_update st (fst (hole rt D)), adr u)"
  using assms
proof (induction x C t arbitrary: gp gpu pr rule: zdown.induct)
  case (1 x C a k v w)
  then show ?case by (subst e_searchDelete.simps) auto
next
  case (2 x C a k v w l r)
  have n: "adr l \<noteq> NULL" using 2(3) tree_at_adr[of "shapeE st" l] by simp
  have s: "del_stack rt (f # C) = pr # del_stack rt C" "del_gp rt (f # C) = pr" for f
    using 2(6) by (cases C; simp add: del_stack_def del_gp_def)+
  show ?case
  proof (cases "x < k")
    case True
    then show ?thesis
      using 2(1)[OF True _ _ s(2)[symmetric], of a] 2(3-7) n s by (subst e_searchDelete.simps) auto
  next
    case False
    then show ?thesis
      using 2(2)[OF False _ _ s(2)[symmetric], of a] 2(3-7) n s by (subst e_searchDelete.simps) auto
  qed
qed

section \<open>The invariant\<close>

definition ebst :: "'k::linorder \<Rightarrow> ('k, 'v) ct \<Rightarrow> bool" where
  "ebst nk T \<longleftrightarrow> bst T \<and> nk \<in> set (lkeys T) \<and> (\<forall>k\<in>set (lkeys T). k \<le> nk)"

definition emap :: "'k \<Rightarrow> ('k, 'v) ct \<Rightarrow> 'k \<rightharpoonup> 'v" where
  "emap nk T = (map_of (leaves T))(nk := None)"

definition top_frame :: "('k, 'v) ellen \<Rightarrow> ('k, 'v) frame \<Rightarrow> bool" where
  "top_frame st F \<longleftrightarrow> (\<exists>v b v'. F = FL (e_root st) (KEY_MAX st) v 0 (Lf b (KEY_MAX st) v' 0))"

definition ellen_inv :: "('k::linorder, 'v) ellen \<Rightarrow> ('k, 'v) ct \<Rightarrow> bool" where
  "ellen_inv st T \<longleftrightarrow> ebst (KEY_MAX st) T \<and>
     (\<exists>F. top_frame st F \<and> ewf st (plug [F] T) \<and> evok st {} (plug [F] T))"

lemma top_frame_sel:
  assumes "top_frame st F"
  shows "fadr F = e_root st" "is_FL F" "hd (D @ [F]) = (if D = [] then F else hd D)"
    "fadr (hd (D @ [F])) = fst (hole (e_root st) D)" "is_FL (hd (D @ [F])) = snd (hole (e_root st) D)"
  using assms by (cases D; auto simp: top_frame_def)+

lemma bst_find_spec:
  assumes "ellen_inv st T" and "x < KEY_MAX st"
  shows "bst_find x st = Some (case emap (KEY_MAX st) T x of None \<Rightarrow> e_NO_VALUE st | Some v \<Rightarrow> v)"
proof -
  obtain F where F: "top_frame st F" "ewf st (plug [F] T)" and b: "bst T"
    using assms(1) by (auto simp: ellen_inv_def ebst_def)
  obtain D u where z: "zdown x [] T = (D, u)" by (meson surj_pair)
  have t: "tree_at (shapeE st) T" "e_left st (e_root st) = adr T"
    using F by (auto simp: ewf_def top_frame_def)
  have "tree_at (shapeE st) u" using t(1) zdown_plug[OF z] by (metis plug.simps(1) tree_at_plug)
  then have u: "e_key st (adr u) = tkey u" "e_value st (adr u) = tval u" using tree_at_sel[of "shapeE st" u] by auto
  have "emap (KEY_MAX st) T x = (if tkey u = x then Some (tval u) else None)"
    using zdown_lookup[OF b z] assms(2) by (auto simp: emap_def)
  then show ?thesis using e_findLoop_zdown[OF t(1) z] t(2) u by (simp add: bst_find_def)
qed

section \<open>Insertion\<close>

definition efresh :: "('k, 'v) ellen \<Rightarrow> ('k, 'v) ellen \<Rightarrow> bool" where
  "efresh st st' \<longleftrightarrow> eframe st st' \<and> nextNodeE st \<le> nextNodeE st' \<and> (\<forall>a<nextNodeE st. nodeE st' a = nodeE st a)"

lemma efresh_ewf:
  assumes "efresh st st'" and "ewf st W"
  shows "ewf st' W"
proof -
  have "nodeE st' a = nodeE st a" if "a \<in> set (addrs W)" for a
    using assms that by (auto simp: efresh_def ewf_def)
  moreover have "tree_at (shapeE st') W = tree_at (shapeE st) W"
    by (rule tree_at_cong) (simp add: calculation shapeE_def)
  ultimately show ?thesis using assms by (auto simp: efresh_def ewf_def)
qed

text \<open>The tree of two leaves that an insertion builds from the spare addresses.\<close>

definition e_leaf_insert :: "'k::linorder \<Rightarrow> 'v \<Rightarrow> 'v \<Rightarrow> addr \<Rightarrow> ('k, 'v) ct \<Rightarrow> ('k, 'v) ct" where
  "e_leaf_insert x v nv a u =
    (if x < tkey u then Nd (a + 2) (tkey u) nv 0 (Lf a x v 0) (Lf (a + 1) (tkey u) (tval u) 0)
     else Nd (a + 2) x nv 0 (Lf (a + 1) (tkey u) (tval u) 0) (Lf a x v 0))"

lemma leaf_insert_tree:
  assumes b: "bst T" "nk \<in> set (lkeys T)" "\<forall>k\<in>set (lkeys T). k \<le> nk" and z: "zdown x [] T = (D, u)"
    and x: "x < nk" "tkey u \<noteq> x"
  shows "ebst nk (plug D (e_leaf_insert x v nv a u))"
    "emap nk (plug D (e_leaf_insert x v nv a u)) = (emap nk T)(x \<mapsto> v)"
proof -
  let ?S = "e_leaf_insert x v nv a u"
  have T: "plug D u = T" "is_leaf u" "on_path x D"
    using zdown_plug[OF z] zdown_leaf[OF z] zdown_on_path[OF z] by simp_all
  then obtain ua uw where u: "u = Lf ua (tkey u) (tval u) uw" by (cases u) auto
  have l: "leaves u = [(tkey u, tval u)]" by (subst u) simp
  have S: "bst ?S" "set (lkeys ?S) = insert x (set (lkeys u))"
    using x(2) by (auto simp: e_leaf_insert_def l)
  have "bst (plug D ?S)" using bst_plug_replace[of D u ?S x] b(1) T S by simp
  moreover have "set (lkeys (plug D ?S)) = insert x (set (lkeys T))"
    using S(2) T(1)[symmetric] by (auto simp: leaves_plug)
  ultimately show "ebst nk (plug D ?S)" using b x(1) by (auto simp: ebst_def)
  have "map_of (leaves ?S) = (map_of (leaves u))(x := Some v)"
    using x(2) by (auto simp: e_leaf_insert_def l fun_eq_iff)
  from map_of_context[of D u x, OF _ T(3) this] show "emap nk (plug D ?S) = (emap nk T)(x \<mapsto> v)"
    using b(1) T(1) x(1) by (auto simp: emap_def leaves_plug fun_eq_iff)
qed

text \<open>The descriptor's operation without interference: one child pointer swings.\<close>

lemma help_insert_eq:
  assumes t: "tree_at (shapeE st) (plug C u)" "distinct (addrs (plug C u))" "C \<noteq> []"
    and i: "iinfo (infoE st op) = \<lparr>ii_p = fadr (hd C), ii_new_internal = c, ii_l = adr u\<rparr>"
  shows "\<exists>st'. bst_help_insert op (set_update (fadr (hd C)) (FLAG op STATE_IFLAG) st) = st' \<and>
    nodeE st' = nodeE (set_child (fadr (hd C)) (is_FL (hd C)) c (set_update (fadr (hd C)) (FLAG op STATE_CLEAN) st)) \<and>
    versionE st' = versionE st \<and> nextNodeE st' = nextNodeE st \<and> nextVersionE st' = nextVersionE st \<and>
    e_root st' = e_root st \<and> KEY_MAX st' = KEY_MAX st \<and> e_NO_VALUE st' = e_NO_VALUE st"
proof -
  let ?p = "fadr (hd C)"
  let ?st = "set_update ?p (FLAG op STATE_IFLAG) st"
  have "same_fields (shapeE ?st a) (shapeE st a)" for a
    by (simp add: same_fields_def set_update_def)
  then have "tree_at (shapeE ?st) (plug C u)" using t(1) tree_at_cong[of "plug C u" "shapeE ?st" "shapeE st"] by blast
  note cc = cas_child_hole[OF this t(2,3), of c]
  have i': "iinfo (infoE ?st op) = \<lparr>ii_p = ?p, ii_new_internal = c, ii_l = adr u\<rparr>" using i by (simp add: set_update_def)
  show ?thesis
    using cc i' by (simp add: bst_help_insert_def unflag_update_def set_child_def set_update_def Let_def fun_eq_iff)
qed

lemma insert_creates:
  fixes st :: "('k::linorder, 'v) ellen"
  assumes u: "e_key st (adr u) = tkey u" "e_value st (adr u) = tval u" and x: "x \<noteq> KEY_MAX st"
    and n: "1 \<le> nextNodeE st" "1 \<le> nextVersionE st"
    and S: "S = e_leaf_insert x v (e_NO_VALUE st) (nextNodeE st) u"
  obtains st1 op where "e_insertNew x v stack p pu (adr u) st =
      (if e_update st1 p = pu
       then let st = bst_help_insert op (set_update p (FLAG op STATE_IFLAG) st1)
            in Some (Some (e_NO_VALUE st), e_propagate stack st)
       else do { st \<leftarrow> bst_help (e_update st1 p) (st1\<lparr>freedNodesE := (nextNodeE st + 2) # (nextNodeE st + 1) # nextNodeE st # freedNodesE st1,
                   freedInfosE := op # freedInfosE st1\<rparr>); Some (None, st) })"
    "efresh st st1" "tree_at (shapeE st1) S" "evok st1 {} S"
    "\<forall>a\<in>set (addrs S). nextNodeE st \<le> a \<and> a < nextNodeE st1 \<and> e_update st1 a = NULL"
    "iinfo (infoE st1 op) = \<lparr>ii_p = p, ii_new_internal = adr S, ii_l = adr u\<rparr>" "op = 4 * nextInfoE st"
proof -
  let ?n = "nextNodeE st" and ?m = "nextVersionE st" and ?op = "4 * nextInfoE st" and ?k = "tkey u"
  let ?ks = "if ?k = KEY_MAX st then 0 else 1 :: int"
  define nH where "nH = (nodeE st)(?n := \<lparr>nd_key = x, nd_value = v, nd_update = NULL, nd_version = ?m, nd_left = NULL, nd_right = NULL\<rparr>,
      ?n + 1 := \<lparr>nd_key = ?k, nd_value = tval u, nd_update = NULL, nd_version = ?m + 1, nd_left = NULL, nd_right = NULL\<rparr>,
      ?n + 2 := (if x < ?k then \<lparr>nd_key = ?k, nd_value = e_NO_VALUE st, nd_update = NULL, nd_version = ?m + 2, nd_left = ?n, nd_right = ?n + 1\<rparr>
        else \<lparr>nd_key = x, nd_value = e_NO_VALUE st, nd_update = NULL, nd_version = ?m + 2, nd_left = ?n + 1, nd_right = ?n\<rparr>))"
  define vH where "vH = (versionE st)(?m := \<lparr>vt_left = NULL, vt_right = NULL, vt_key = x, vt_sum = 1\<rparr>,
      ?m + 1 := \<lparr>vt_left = NULL, vt_right = NULL, vt_key = ?k, vt_sum = ?ks\<rparr>,
      ?m + 2 := (if x < ?k then \<lparr>vt_left = ?m, vt_right = ?m + 1, vt_key = ?k, vt_sum = 1 + ?ks\<rparr>
        else \<lparr>vt_left = ?m + 1, vt_right = ?m, vt_key = x, vt_sum = 1 + ?ks\<rparr>))"
  define st1 where "st1 = st\<lparr>nextVersionE := ?m + 3, versionE := vH, nextNodeE := ?n + 3, nodeE := nH, nextInfoE := Suc (nextInfoE st),
     infoE := (infoE st)(?op := (infoE st ?op)\<lparr>iinfo := \<lparr>ii_p = p, ii_new_internal = ?n + 2, ii_l = adr u\<rparr>\<rparr>)\<rparr>"
  have n3: "Suc (Suc (Suc k)) = k + 3" for k by simp
  have eq: "e_insertNew x v stack p pu (adr u) st =
      (if e_update st1 p = pu
       then let st = bst_help_insert ?op (set_update p (FLAG ?op STATE_IFLAG) st1)
            in Some (Some (e_NO_VALUE st), e_propagate stack st)
       else do { st \<leftarrow> bst_help (e_update st1 p) (st1\<lparr>freedNodesE := (?n + 2) # (?n + 1) # ?n # freedNodesE st1,
                   freedInfosE := ?op # freedInfosE st1\<rparr>); Some (None, st) })"
    by (cases "x < ?k") (simp_all add: e_insertNew_def create_version_def create_node_def create_iinfo_t_def u st1_def
       nH_def vH_def Let_def numeral_2_eq_2 numeral_3_eq_3)
  have fr: "efresh st st1" by (auto simp: efresh_def eframe_def st1_def nH_def vH_def)
  have t: "tree_at (shapeE st1) S"
    using n by (auto simp: S e_leaf_insert_def st1_def nH_def)
  have ev: "evok st1 {} S"
    using n x by (cases "x < ?k") (simp_all add: S e_leaf_insert_def st1_def nH_def vH_def evok_def)
  have al: "\<forall>a\<in>set (addrs S). ?n \<le> a \<and> a < nextNodeE st1 \<and> e_update st1 a = NULL"
    by (auto simp: S e_leaf_insert_def st1_def nH_def)
  have i: "iinfo (infoE st1 ?op) = \<lparr>ii_p = p, ii_new_internal = adr S, ii_l = adr u\<rparr>"
    by (simp add: S e_leaf_insert_def st1_def)
  show ?thesis by (rule that[OF eq fr t ev al i refl])
qed

lemma set_update_ewf:
  assumes "ewf st W" and "GETFLAG u = STATE_CLEAN"
  shows "ewf (set_update n u st) W"
proof -
  have "tree_at (shapeE (set_update n u st)) W = tree_at (shapeE st) W"
    by (rule tree_at_cong) (simp add: same_fields_def set_update_def)
  then show ?thesis using assms by (auto simp: ewf_def set_update_def)
qed

lemma ewf_nodeE:
  assumes "ewf st W" and "nodeE st' = nodeE st" and "nextNodeE st' = nextNodeE st"
  shows "ewf st' W"
proof -
  have "shapeE st' = shapeE st" using assms(2) by (simp add: shapeE_def fun_eq_iff)
  then show ?thesis using assms by (simp add: ewf_def)
qed

lemma ellen_invD:
  assumes "ellen_inv st T" and "zdown x [] T = (D, u)"
  obtains F where "top_frame st F" "ewf st (plug (D @ [F]) u)" "evok st {} (plug (D @ [F]) u)"
    "tree_at (shapeE st) T" "e_left st (e_root st) = adr T" "e_key st (adr u) = tkey u" "e_value st (adr u) = tval u"
proof -
  obtain F where F: "top_frame st F" "ewf st (plug [F] T)" "evok st {} (plug [F] T)"
    using assms(1) by (auto simp: ellen_inv_def)
  have T: "plug (D @ [F]) u = plug [F] T" using zdown_plug[OF assms(2)] by (simp add: plug_append)
  have t: "tree_at (shapeE st) T" "e_left st (e_root st) = adr T"
    using F(1,2) by (auto simp: ewf_def top_frame_def)
  moreover have "tree_at (shapeE st) u" using t(1) zdown_plug[OF assms(2)] tree_at_plug[of "shapeE st" D u] by simp
  ultimately show ?thesis using that[of F] F T tree_at_sel[of "shapeE st" u] by auto
qed

lemma hd_caddrs: "C \<noteq> [] \<Longrightarrow> fadr (hd C) \<in> set (caddrs C)"
  by (cases C) auto

lemma ewf_bounds: "ewf st W \<Longrightarrow> 1 \<le> nextNodeE st"
  using adr_in_addrs[of W] by (fastforce simp: ewf_def simp del: adr_in_addrs)

lemma evok_bounds: "evok st {} W \<Longrightarrow> 1 \<le> nextVersionE st"
  using evt_bounds[of st "e_version st (adr W)" W] by (fastforce simp: evok_def)

lemma e_insertNew_spec:
  fixes st :: "('k::linorder, 'v) ellen"
  assumes inv: "ellen_inv st T" and x: "x < KEY_MAX st" and z: "zdown x [] T = (D, u)" and u: "tkey u \<noteq> x"
    and p: "p = fst (hole (e_root st) D)" and S: "S = e_leaf_insert x v (e_NO_VALUE st) (nextNodeE st) u"
  shows "\<exists>st'. e_insertNew x v (map fadr D @ [e_root st]) p (e_update st p) (adr u) st =
      Some (Some (e_NO_VALUE st), st') \<and> ellen_inv st' (plug D S) \<and> eframe st st'"
proof -
  obtain F where F: "top_frame st F" "ewf st (plug (D @ [F]) u)" "evok st {} (plug (D @ [F]) u)"
    and uk: "e_key st (adr u) = tkey u" "e_value st (adr u) = tval u"
    using ellen_invD[OF inv z] by metis
  let ?C = "D @ [F]"
  have C: "?C \<noteq> []" "fadr (hd ?C) = p" "map fadr D @ [e_root st] = map fadr ?C"
    using top_frame_sel[OF F(1)] p by simp_all
  have x': "x \<noteq> KEY_MAX st" using x by simp
  obtain st1 op where i: "e_insertNew x v (map fadr D @ [e_root st]) p (e_update st p) (adr u) st =
      (if e_update st1 p = e_update st p
       then let s = bst_help_insert op (set_update p (FLAG op STATE_IFLAG) st1)
            in Some (Some (e_NO_VALUE s), e_propagate (map fadr D @ [e_root st]) s)
       else do { st \<leftarrow> bst_help (e_update st1 p) (st1\<lparr>freedNodesE := (nextNodeE st + 2) # (nextNodeE st + 1) # nextNodeE st # freedNodesE st1,
                   freedInfosE := op # freedInfosE st1\<rparr>); Some (None, st) })"
    "efresh st st1" "tree_at (shapeE st1) S" "evok st1 {} S"
    "\<forall>a\<in>set (addrs S). nextNodeE st \<le> a \<and> a < nextNodeE st1 \<and> e_update st1 a = NULL"
    "iinfo (infoE st1 op) = \<lparr>ii_p = p, ii_new_internal = adr S, ii_l = adr u\<rparr>" "op = 4 * nextInfoE st"
    by (rule insert_creates[OF uk x' ewf_bounds[OF F(2)] evok_bounds[OF F(3)] S,
      where stack = "map fadr D @ [e_root st]" and p = p and pu = "e_update st p"])
  have wf1: "ewf st1 (plug ?C u)" by (rule efresh_ewf[OF i(2) F(2)])
  have pW: "p \<in> set (addrs (plug ?C u))" "set (caddrs ?C) \<subseteq> set (addrs (plug ?C u))"
    using hd_caddrs[OF C(1)] unfolding C(2) set_addrs_plug by blast+
  have old: "a < nextNodeE st" if "a \<in> set (addrs (plug ?C u))" for a using F(2) that by (auto simp: ewf_def)
  have pu: "e_update st1 p = e_update st p" using i(2) old[OF pW(1)] by (auto simp: efresh_def)
  let ?st2 = "set_update p (FLAG op STATE_CLEAN) st1"
  have wf2: "ewf ?st2 (plug ?C u)" by (rule set_update_ewf[OF wf1]) (simp add: flag_fields)
  have ds: "distinct (addrs S)" by (auto simp: S e_leaf_insert_def)
  have sep: "set (addrs S) \<inter> set (caddrs ?C) = {}" using i(5) old pW(2) by fastforce
  have tS: "tree_at (shapeE ?st2) S"
    using i(3) tree_at_cong[of S "shapeE ?st2" "shapeE st1"] by (auto simp: same_fields_def set_update_def)
  have cl: "\<forall>a\<in>set (addrs S). a < nextNodeE ?st2 \<and> GETFLAG (e_update ?st2 a) = STATE_CLEAN"
    using i(5) by (auto simp: set_update_def flag_fields)
  define st3 where "st3 = bst_help_insert op (set_update p (FLAG op STATE_IFLAG) st1)"
  have st3: "nodeE st3 = nodeE (set_child p (is_FL (hd ?C)) (adr S) ?st2)"
    "versionE st3 = versionE st1" "nextNodeE st3 = nextNodeE st1" "nextVersionE st3 = nextVersionE st1"
    "e_root st3 = e_root st1" "KEY_MAX st3 = KEY_MAX st1" "e_NO_VALUE st3 = e_NO_VALUE st1"
    using help_insert_eq[of st1 ?C u op "adr S"] wf1 i(6) C(1) unfolding C(2) st3_def by (auto simp: ewf_def)
  have wf3: "ewf st3 (plug ?C S)"
    using ewf_nodeE[OF ewf_replace[OF wf2 C(1) tS ds sep cl], of st3] st3(1,3) unfolding C(2)
    by (simp add: set_child_def set_update_def)
  have fr: "eframe st st3" using i(2) st3 by (auto simp: efresh_def eframe_def)
  have ver: "e_version st3 a = e_version st1 a" for a by (simp add: st3(1) set_child_def set_update_def)
  have fr13: "eframe st1 st3" using st3 by (auto simp: eframe_def)
  have evS: "evok st3 {} S" using i(4) evt_frame[OF _ fr13] by (auto simp: evok_def ver)
  have "evok st3 (fadr ` set ?C) (plug ?C S)"
  proof (rule evok_replace[OF F(3) fr _ evS])
    fix f t assume ft: "f \<in> set ?C" "t \<in> subtrees (fsib f)"
    have "adr t \<in> set (addrs (plug ?C u))" using subtree_in[OF sib_subtree[OF ft, of u]] adr_in_addrs[of t] by blast
    then show "e_version st3 (adr t) = e_version st (adr t)" using old i(2) by (auto simp: ver efresh_def)
  qed
  moreover have "up_ok (plug ?C S) (map fadr ?C) (fadr ` set ?C)" using up_path[of ?C S] wf3 by (simp add: ewf_def)
  ultimately have pr: "ewf (e_propagate (map fadr ?C) st3) (plug ?C S)" "eframe st3 (e_propagate (map fadr ?C) st3)"
    "evok (e_propagate (map fadr ?C) st3) {} (plug ?C S)"
    using propagate_evok[OF wf3, of "fadr ` set ?C" "map fadr ?C"] by auto
  let ?st' = "e_propagate (map fadr ?C) st3"
  have fr': "eframe st ?st'" by (rule eframe_trans[OF fr pr(2)])
  have "ellen_inv ?st' (plug D S)"
    using leaf_insert_tree(1)[OF _ _ _ z x u, of v "e_NO_VALUE st" "nextNodeE st"] inv F(1) pr(1,3) fr'
    unfolding ellen_inv_def S[symmetric]
    by (auto simp: ebst_def eframe_def plug_append top_frame_def)
  moreover have "e_insertNew x v (map fadr D @ [e_root st]) p (e_update st p) (adr u) st = Some (Some (e_NO_VALUE st), ?st')"
    using i(1) pu fr unfolding st3_def[symmetric] C(3) by (simp add: Let_def eframe_def)
  ultimately show ?thesis using fr' by blast
qed

lemma propagate_inv:
  assumes inv: "ellen_inv st T" and z: "zdown x [] T = (D, u)" and ss: "set ss \<subseteq> insert (e_root st) (fadr ` set D)"
  shows "ellen_inv (e_propagate ss st) T" "eframe st (e_propagate ss st)"
proof -
  obtain F where F: "top_frame st F" "ewf st (plug (D @ [F]) u)" "evok st {} (plug (D @ [F]) u)"
    using ellen_invD[OF inv z] by metis
  have "up_ok (plug (D @ [F]) u) ss {}"
    using up_all[of ss "D @ [F]" u] ss top_frame_sel(1)[OF F(1)] by auto
  from propagate_evok[OF F(2,3) this] have p: "ewf (e_propagate ss st) (plug (D @ [F]) u)"
    "eframe st (e_propagate ss st)" "evok (e_propagate ss st) {} (plug (D @ [F]) u)" by auto
  have T: "plug (D @ [F]) u = plug [F] T" using zdown_plug[OF z] by (simp add: plug_append)
  show "ellen_inv (e_propagate ss st) T"
    using inv F(1) p unfolding ellen_inv_def T by (auto simp: top_frame_def eframe_def)
  show "eframe st (e_propagate ss st)" by (rule p(2))
qed

lemma bst_insert_spec:
  fixes st :: "('k::linorder, 'v) ellen"
  assumes inv: "ellen_inv st T" and x: "x < KEY_MAX st"
  shows "\<exists>st' T'. bst_insert x v st =
      Some (case emap (KEY_MAX st) T x of None \<Rightarrow> e_NO_VALUE st | Some b \<Rightarrow> b, st') \<and> ellen_inv st' T' \<and> eframe st st' \<and>
    emap (KEY_MAX st) T' = (if emap (KEY_MAX st) T x = None then (emap (KEY_MAX st) T)(x \<mapsto> v) else emap (KEY_MAX st) T)"
proof -
  obtain D u where z: "zdown x [] T = (D, u)" by (meson surj_pair)
  obtain F where F: "top_frame st F" "ewf st (plug (D @ [F]) u)" and t: "tree_at (shapeE st) T"
    "e_left st (e_root st) = adr T" and uk: "e_key st (adr u) = tkey u" "e_value st (adr u) = tval u"
    using ellen_invD[OF inv z] by metis
  let ?p = "fst (hole (e_root st) D)" and ?ss = "map fadr D @ [e_root st]"
  have b: "bst T" "KEY_MAX st \<in> set (lkeys T)" "\<forall>k\<in>set (lkeys T). k \<le> KEY_MAX st"
    using inv by (auto simp: ellen_inv_def ebst_def)
  have lk: "emap (KEY_MAX st) T x = (if tkey u = x then Some (tval u) else None)"
    using zdown_lookup[OF b(1) z] x by (auto simp: emap_def)
  have se: "e_searchInsert x [e_root st] (e_root st) (e_update st (e_root st)) (e_left st (e_root st)) st =
      Some (?ss, ?p, e_update st ?p, adr u)"
    using e_searchInsert_zdown[OF t(1) z, of "e_root st" "e_root st" "[e_root st]"] t(2) by simp
  have "fadr (hd (D @ [F])) \<in> set (addrs (plug (D @ [F]) u))"
    using hd_caddrs[of "D @ [F]"] unfolding set_addrs_plug by blast
  then have cl: "GETFLAG (e_update st ?p) = STATE_CLEAN"
    using F(2) top_frame_sel(4)[OF F(1), of D] by (auto simp: ewf_def)
  show ?thesis
  proof (cases "tkey u = x")
    case True
    have "e_insertAttempt x v st = Some (Some (tval u), e_propagate ?ss st)"
      using se True uk by (simp add: e_insertAttempt_def)
    moreover have "ellen_inv (e_propagate ?ss st) T" "eframe st (e_propagate ?ss st)"
      by (rule propagate_inv[OF inv z]; auto)+
    ultimately show ?thesis using lk True by (subst bst_insert.simps) auto
  next
    case False
    let ?S = "e_leaf_insert x v (e_NO_VALUE st) (nextNodeE st) u"
    obtain st' where st': "e_insertNew x v ?ss ?p (e_update st ?p) (adr u) st = Some (Some (e_NO_VALUE st), st')"
        "ellen_inv st' (plug D ?S)" "eframe st st'"
      using e_insertNew_spec[OF inv x z False refl refl] by blast
    have "e_insertAttempt x v st = Some (Some (e_NO_VALUE st), st')"
      using se False uk cl st'(1) by (simp add: e_insertAttempt_def)
    moreover have "emap (KEY_MAX st) (plug D ?S) = (emap (KEY_MAX st) T)(x \<mapsto> v)"
      by (rule leaf_insert_tree(2)[OF b z x False])
    ultimately show ?thesis using lk False st' by (subst bst_insert.simps) auto
  qed
qed

section \<open>Deletion\<close>

lemma set_update_other:
  assumes "ewf st W" and "n \<notin> set (addrs W)"
  shows "ewf (set_update n u st) W"
proof -
  have "tree_at (shapeE (set_update n u st)) W = tree_at (shapeE st) W"
    by (rule tree_at_cong) (simp add: same_fields_def set_update_def)
  then show ?thesis using assms by (auto simp: ewf_def set_update_def)
qed

lemma leaf_delete_tree:
  assumes b: "bst T" "nk \<in> set (lkeys T)" "\<forall>k\<in>set (lkeys T). k \<le> nk" and z: "zdown x [] T = (f # D, u)"
    and x: "x < nk" "tkey u = x"
  shows "ebst nk (plug D (fsib f))" "emap nk (plug D (fsib f)) = (emap nk T)(x := None)"
proof -
  have T: "plug D (fill f u) = T" "is_leaf u" "on_path x (f # D)"
    using zdown_plug[OF z] zdown_leaf[OF z] zdown_on_path[OF z] by simp_all
  have bf: "bst (fill f u)" using bst_plug_inner[of D "fill f u"] b(1) T(1) by simp
  have l: "leaves u = [(x, tval u)]" using T(2) x(2) by (cases u) auto
  have xs: "x \<notin> fst ` set (leaves (fsib f))" using bf T(3) l by (cases f) fastforce+
  have s: "bst (fsib f)" "set (lkeys (fill f u)) = insert x (set (lkeys (fsib f)))"
    using bf l by (cases f; simp; blast)+
  have "bst (plug D (fsib f))"
    using bst_plug_same_keys[of D "fill f u" "fsib f"] b(1) T(1) s by auto
  moreover have e: "set (lkeys T) = insert x (set (lkeys (plug D (fsib f))))"
    using s(2) T(1)[symmetric] by (auto simp: leaves_plug)
  have "set (lkeys (plug D (fsib f))) \<subseteq> set (lkeys T)" "nk \<in> set (lkeys (plug D (fsib f)))"
    using b(2) x(1) unfolding e by auto
  ultimately show "ebst nk (plug D (fsib f))" using b(3) unfolding ebst_def by blast
  have "map_of (leaves (fsib f)) = (map_of (leaves (fill f u)))(x := None)"
    using xs l by (cases f) (auto simp: fun_eq_iff map_add_def map_of_eq_None_iff split: option.splits)
  from map_of_context[of D "fill f u" x, OF _ _ this] T b(1)
  show "emap nk (plug D (fsib f)) = (emap nk T)(x := None)"
    by (auto simp: emap_def leaves_plug fun_eq_iff)
qed

text \<open>A deletion that marks the parent without interference: the grandparent's child pointer swings to the sibling.\<close>

lemma help_delete_eq:
  fixes st :: "('k, 'v) ellen"
  assumes t: "tree_at (shapeE st) (plug (f # C) u)" "distinct (addrs (plug (f # C) u))" "C \<noteq> []"
    and gp: "gp = fadr (hd C)"
    and i: "dinfo (infoE st op) = \<lparr>di_gp = gp, di_p = fadr f, di_l = adr u, di_pupdate = e_update st (fadr f)\<rparr>"
  shows "\<exists>st'. bst_help_delete op (set_update gp (FLAG op STATE_DFLAG) st) = Some (True, st') \<and>
    nodeE st' = nodeE (set_update (fadr f) (FLAG op STATE_MARK)
      (set_child gp (is_FL (hd C)) (adr (fsib f)) (set_update gp (FLAG op STATE_CLEAN) st))) \<and>
    versionE st' = versionE st \<and> nextNodeE st' = nextNodeE st \<and> nextVersionE st' = nextVersionE st \<and>
    e_root st' = e_root st \<and> KEY_MAX st' = KEY_MAX st \<and> e_NO_VALUE st' = e_NO_VALUE st"
proof -
  let ?p = "fadr f" and ?st = "set_update gp (FLAG op STATE_DFLAG) st"
  let ?st2 = "set_update ?p (FLAG op STATE_MARK) ?st"
  have tf: "tree_at (shapeE st) (plug C (fill f u))" "distinct (addrs (plug C (fill f u)))" using t by simp_all
  have pgp: "?p \<noteq> gp"
    using tf(2) hd_caddrs[OF t(3)] adr_in_addrs[of "fill f u"] unfolding gp by (auto simp: distinct_addrs_plug)
  have same: "same_fields (shapeE ?st2 a) (shapeE st a)" for a by (simp add: same_fields_def set_update_def)
  have t2: "tree_at (shapeE ?st2) (plug C (fill f u))"
    using tf(1) tree_at_cong[of "plug C (fill f u)" "shapeE ?st2" "shapeE st"] same by blast
  note cc = cas_child_hole[OF t2 tf(2) t(3), of "adr (fsib f)"]
  have oth: "(if e_right ?st2 ?p = adr u then e_left ?st2 ?p else e_right ?st2 ?p) = adr (fsib f)"
  proof -
    have "tree_at (shapeE ?st2) (fill f u)" using t2 by (simp add: tree_at_plug)
    moreover have "adr (fsib f) \<noteq> adr u"
      using tf(2) adr_in_addrs[of u] adr_in_addrs[of "fsib f"]
      by (auto simp: distinct_addrs_plug distinct_addrs_fill disjoint_iff simp del: adr_in_addrs)
    ultimately show ?thesis by (cases f) auto
  qed
  have up: "e_update ?st ?p = e_update st ?p" using pgp by (simp add: set_update_def)
  have d: "dinfo (infoE ?st op) = \<lparr>di_gp = gp, di_p = ?p, di_l = adr u, di_pupdate = e_update st ?p\<rparr>"
    "dinfo (infoE ?st2 op) = \<lparr>di_gp = gp, di_p = ?p, di_l = adr u, di_pupdate = e_update st ?p\<rparr>"
    using i by (simp_all add: set_update_def)
  have r: "bst_help_delete op ?st = Some (True, bst_help_marked op ?st2)"
    unfolding bst_help_delete_def using up d(1) by (subst help_run.simps) (simp add: Let_def)
  let ?st3 = "set_child gp (is_FL (hd C)) (adr (fsib f)) ?st2"
  have "bst_help_marked op ?st2 = unflag_update gp op STATE_DFLAG (?st3\<lparr>retiredNodesE := ?p # adr u # retiredNodesE ?st3\<rparr>)"
    unfolding bst_help_marked_def d(2) Let_def dinfo_t.select_convs oth using cc by (simp add: gp)
  then show ?thesis
    using r pgp by (simp add: unflag_update_def set_child_def set_update_def Let_def fun_eq_iff)
qed

lemma e_deleteLeaf_spec:
  fixes st :: "('k::linorder, 'v) ellen"
  assumes inv: "ellen_inv st T" and x: "x < KEY_MAX st" and z: "zdown x [] T = (f # D, u)" and u: "tkey u = x"
    and gp: "gp = fst (hole (e_root st) D)"
  shows "\<exists>st'. e_deleteLeaf (map fadr D @ [e_root st, e_root st]) gp (e_update st gp) (fadr f)
      (e_update st (fadr f)) (adr u) st = Some (Some (tval u), st') \<and>
    ellen_inv st' (plug D (fsib f)) \<and> eframe st st'"
proof -
  obtain F where F: "top_frame st F" "ewf st (plug ((f # D) @ [F]) u)" "evok st {} (plug ((f # D) @ [F]) u)"
    and uk: "e_value st (adr u) = tval u"
    using ellen_invD[OF inv z] by metis
  let ?C = "D @ [F]" and ?op = "4 * nextInfoE st" and ?s = "fsib f"
  have C: "?C \<noteq> []" "fadr (hd ?C) = gp" "map fadr D @ [e_root st, e_root st] = map fadr ?C @ [e_root st]"
    using top_frame_sel[OF F(1)] gp by simp_all
  have W: "plug ((f # D) @ [F]) u = plug ?C (fill f u)" by simp
  define st1 where "st1 = snd (create_dinfo_t gp (fadr f) (adr u) (e_update st (fadr f)) st)"
  have s1: "nodeE st1 = nodeE st" "nextNodeE st1 = nextNodeE st" "dinfo (infoE st1 ?op) = \<lparr>di_gp = gp, di_p = fadr f,
      di_l = adr u, di_pupdate = e_update st (fadr f)\<rparr>" "versionE st1 = versionE st" "nextVersionE st1 = nextVersionE st"
      "e_root st1 = e_root st" "KEY_MAX st1 = KEY_MAX st" "e_NO_VALUE st1 = e_NO_VALUE st"
    by (simp_all add: st1_def create_dinfo_t_def Let_def)
  have wf1: "ewf st1 (plug ?C (fill f u))" using ewf_nodeE[OF F(2) s1(1,2)] by simp
  have td: "tree_at (shapeE st1) (plug (f # ?C) u)" "distinct (addrs (plug (f # ?C) u))" using wf1 by (simp_all add: ewf_def)
  have "dinfo (infoE st1 ?op) = \<lparr>di_gp = gp, di_p = fadr f, di_l = adr u, di_pupdate = e_update st1 (fadr f)\<rparr>"
    using s1(1,3) by simp
  from help_delete_eq[OF td C(1) C(2)[symmetric] this] obtain st3 where
    h: "bst_help_delete ?op (set_update gp (FLAG ?op STATE_DFLAG) st1) = Some (True, st3)"
    and st3: "nodeE st3 = nodeE (set_update (fadr f) (FLAG ?op STATE_MARK)
      (set_child gp (is_FL (hd ?C)) (adr ?s) (set_update gp (FLAG ?op STATE_CLEAN) st1)))"
    "versionE st3 = versionE st1" "nextNodeE st3 = nextNodeE st1" "nextVersionE st3 = nextVersionE st1"
    "e_root st3 = e_root st1" "KEY_MAX st3 = KEY_MAX st1" "e_NO_VALUE st3 = e_NO_VALUE st1" by blast
  let ?st2 = "set_update gp (FLAG ?op STATE_CLEAN) st1"
  have wf2: "ewf ?st2 (plug ?C (fill f u))" by (rule set_update_ewf[OF wf1]) (simp add: flag_fields)
  have d: "distinct (addrs (fill f u))" "set (addrs (fill f u)) \<inter> set (caddrs ?C) = {}"
    using wf1 by (simp_all add: ewf_def distinct_addrs_plug)
  have sub: "set (addrs ?s) \<subseteq> set (addrs (fill f u))" "fadr f \<in> set (addrs (fill f u))" by (auto simp: set_addrs_fill)
  have "tree_at (shapeE ?st2) (fill f u)" using wf2 by (simp add: ewf_def tree_at_plug)
  then have tS: "tree_at (shapeE ?st2) ?s" by (cases f) auto
  have dS: "distinct (addrs ?s)" "set (addrs ?s) \<inter> set (caddrs ?C) = {}"
    using d sub by (auto simp: distinct_addrs_fill)
  have clS: "\<forall>a\<in>set (addrs ?s). a < nextNodeE ?st2 \<and> GETFLAG (e_update ?st2 a) = STATE_CLEAN"
    using wf2 sub by (auto simp: ewf_def set_addrs_plug)
  note wf4 = ewf_replace[OF wf2 C(1) tS dS clS, unfolded C(2)]
  have "fadr f \<notin> set (addrs (plug ?C ?s))"
    using d sub(2) by (auto simp: set_addrs_plug distinct_addrs_fill)
  from set_update_other[OF wf4 this] have wf3: "ewf st3 (plug ?C ?s)"
    by (rule ewf_nodeE) (simp_all add: st3 set_update_def set_child_def)
  have fr: "eframe st st3" using st3 s1 by (auto simp: eframe_def)
  have ver: "e_version st3 a = e_version st a" for a
    by (simp add: st3(1) set_child_def set_update_def s1)
  have evS: "evok st3 {} ?s"
    using F(3) sib_subtree[of f "(f # D) @ [F]"] evt_frame[OF _ fr] unfolding evok_def ver by (metis append_Cons list.set_intros(1))
  have "evok st3 (fadr ` set ?C) (plug ?C ?s)"
    using evok_replace[OF _ fr _ evS, of ?C "fill f u"] F(3) ver by simp
  moreover have "up_ok (plug ?C ?s) (map fadr ?C @ [e_root st]) (fadr ` set ?C)"
  proof -
    have e0: "fadr ` set ?C - set (map fadr ?C) = {}" by simp
    have dd: "distinct (addrs (plug ?C ?s))" using wf3 by (simp add: ewf_def)
    show ?thesis unfolding up_ok_append e0
      by (intro conjI up_path[OF dd] up_all) (use top_frame_sel(1)[OF F(1)] in simp)
  qed
  ultimately have pr: "ewf (e_propagate (map fadr ?C @ [e_root st]) st3) (plug ?C ?s)"
    "eframe st3 (e_propagate (map fadr ?C @ [e_root st]) st3)"
    "evok (e_propagate (map fadr ?C @ [e_root st]) st3) {} (plug ?C ?s)"
    using propagate_evok[OF wf3, of "fadr ` set ?C" "map fadr ?C @ [e_root st]"] by auto
  let ?st' = "e_propagate (map fadr ?C @ [e_root st]) st3"
  have fr': "eframe st ?st'" by (rule eframe_trans[OF fr pr(2)])
  have "ellen_inv ?st' (plug D ?s)"
    using leaf_delete_tree(1)[OF _ _ _ z x u] inv F(1) pr(1,3) fr'
    unfolding ellen_inv_def by (auto simp: ebst_def eframe_def plug_append top_frame_def)
  moreover have "e_deleteLeaf (map fadr D @ [e_root st, e_root st]) gp (e_update st gp) (fadr f)
      (e_update st (fadr f)) (adr u) st = Some (Some (tval u), ?st')"
    using h s1(1) uk unfolding e_deleteLeaf_def C(3) st1_def by (simp add: Let_def create_dinfo_t_def)
  ultimately show ?thesis using fr' by blast
qed

end
