(* ===== verification/Ellen_Map.thy ===== *)
theory Ellen_Map
  imports Ellen_Trees
begin

text \<open>
  The operations of the Ellen et al. tree against the map: deletion, range queries over the versions,
  the constructor, and the interpretation of the adapter's contract.
\<close>

section \<open>The operations\<close>

lemma bst_delete_spec:
  fixes st :: "('k::linorder, 'v) ellen"
  assumes inv: "ellen_inv st T" and x: "x < KEY_MAX st"
  shows "\<exists>st' T'. bst_delete x st =
      Some (case emap (KEY_MAX st) T x of None \<Rightarrow> e_NO_VALUE st | Some b \<Rightarrow> b, st') \<and> ellen_inv st' T' \<and> eframe st st' \<and>
    emap (KEY_MAX st) T' = (emap (KEY_MAX st) T)(x := None)"
proof -
  obtain D u where z: "zdown x [] T = (D, u)" by (meson surj_pair)
  obtain F where F: "top_frame st F" "ewf st (plug (D @ [F]) u)" and t: "tree_at (shapeE st) T"
    "e_left st (e_root st) = adr T" and uk: "e_key st (adr u) = tkey u" "e_value st (adr u) = tval u"
    using ellen_invD[OF inv z] by metis
  let ?p = "fst (hole (e_root st) D)" and ?ss = "del_stack (e_root st) D" and ?gp = "del_gp (e_root st) D"
  have b: "bst T" "KEY_MAX st \<in> set (lkeys T)" "\<forall>k\<in>set (lkeys T). k \<le> KEY_MAX st"
    using inv by (auto simp: ellen_inv_def ebst_def)
  have lk: "emap (KEY_MAX st) T x = (if tkey u = x then Some (tval u) else None)"
    using zdown_lookup[OF b(1) z] x by (auto simp: emap_def)
  have se: "e_searchDelete x [e_root st] NULL NULL (e_root st) (e_update st (e_root st)) (e_left st (e_root st)) st =
      Some (?ss, ?gp, if D = [] then NULL else e_update st ?gp, ?p, e_update st ?p, adr u)"
    using e_searchDelete_zdown[OF t(1) z, of NULL "e_root st" "e_root st" NULL] t(2) by (simp add: del_stack_def del_gp_def)
  show ?thesis
  proof (cases "tkey u = x")
    case False
    have "e_deleteAttempt x st = Some (Some (e_NO_VALUE st), e_propagate ?ss st)"
      using se False uk by (simp add: e_deleteAttempt_def)
    moreover have "set ?ss \<subseteq> insert (e_root st) (fadr ` set D)"
      by (cases D) (auto simp: del_stack_def)
    then have "ellen_inv (e_propagate ?ss st) T" "eframe st (e_propagate ?ss st)"
      using propagate_inv[OF inv z] by blast+
    moreover have "(emap (KEY_MAX st) T)(x := None) = emap (KEY_MAX st) T" using lk False by (auto simp: fun_eq_iff)
    ultimately show ?thesis using lk False by (subst bst_delete.simps) auto
  next
    case True
    have "D \<noteq> []"
    proof
      assume "D = []"
      then have "T = u" using zdown_plug[OF z] by simp
      then show False using b(2) True x zdown_leaf[OF z] by (cases u) auto
    qed
    then obtain f D' where D: "D = f # D'" by (cases D) auto
    have g: "?gp = fst (hole (e_root st) D')" "?ss = map fadr D' @ [e_root st, e_root st]" "?p = fadr f"
      by (simp_all add: D del_gp_def del_stack_def)
    have in': "fadr f \<in> set (addrs (plug (D @ [F]) u))" "?gp \<in> set (addrs (plug (D @ [F]) u))"
      using hd_caddrs[of "D' @ [F]"] top_frame_sel(4)[OF F(1), of D'] unfolding g(1) set_addrs_plug by (auto simp: D)
    then have cl: "GETFLAG (e_update st ?gp) = STATE_CLEAN" "GETFLAG (e_update st ?p) = STATE_CLEAN"
      using F(2) unfolding g(3) ewf_def by blast+
    obtain st' where st': "e_deleteLeaf ?ss ?gp (e_update st ?gp) ?p (e_update st ?p) (adr u) st = Some (Some (tval u), st')"
        "ellen_inv st' (plug D' (fsib f))" "eframe st st'"
      using e_deleteLeaf_spec[OF inv x z[unfolded D] True refl] unfolding g by blast
    have "e_deleteAttempt x st = Some (Some (tval u), st')"
      using se True uk cl st'(1) \<open>D \<noteq> []\<close> by (simp add: e_deleteAttempt_def)
    moreover have "emap (KEY_MAX st) (plug D' (fsib f)) = (emap (KEY_MAX st) T)(x := None)"
      by (rule leaf_delete_tree(2)[OF b z[unfolded D] x True])
    ultimately show ?thesis using lk True st' by (subst bst_delete.simps) auto
  qed
qed

lemma evt_sum: "evt st c t \<Longrightarrow> vt_sum (versionE st c) = int (length (filter (\<lambda>k. k \<noteq> KEY_MAX st) (lkeys t)))"
  by (induction t arbitrary: c) auto

lemma e_compareKeys_range:
  assumes "k \<noteq> nk"
  shows "e_compareKeys nk k False lo True \<longleftrightarrow> lo \<noteq> nk \<and> k < lo"
    "e_compareKeys nk hi False k False \<longleftrightarrow> hi \<noteq> nk \<and> hi < k"
  using assms by (auto simp: e_compareKeys_def)

lemma do_bst_rangequery_spec:
  assumes "evt st c t" and "bst t" and "\<forall>k\<in>set (lkeys t). k \<le> KEY_MAX st"
  shows "do_bst_rangequery lo hi c st =
    Some (int (length (filter (\<lambda>k. k \<noteq> KEY_MAX st \<and> in_range (KEY_MAX st) lo hi k) (lkeys t))))"
  using assms
proof (induction t arbitrary: c lo hi)
  case (Lf a k v w)
  then show ?case
    by (subst do_bst_rangequery.simps) (auto simp: Let_def in_range_def e_compareKeys_range)
next
  case (Nd a k v w l r)
  let ?nk = "KEY_MAX st" and ?v = "versionE st c"
  have v: "vt_key ?v = k" "evt st (vt_left ?v) l" "evt st (vt_right ?v) r" "vt_left ?v \<noteq> NULL"
    using Nd.prems(1) evt_bounds[of st "vt_left ?v" l] by auto
  have b: "bst l" "bst r" "\<forall>x\<in>set (lkeys l). x < k" "\<forall>x\<in>set (lkeys r). k \<le> x"
    "\<forall>k\<in>set (lkeys l). k \<le> ?nk" "\<forall>k\<in>set (lkeys r). k \<le> ?nk" using Nd.prems by auto
  note IH = Nd.IH(1)[OF v(2) b(1,5)] Nd.IH(2)[OF v(3) b(2,6)]
  consider (all) "lo = ?nk" "hi = ?nk" | (left) "\<not> (lo = ?nk \<and> hi = ?nk)" "k = ?nk \<or> hi \<noteq> ?nk \<and> hi < k"
    | (right) "\<not> (lo = ?nk \<and> hi = ?nk)" "k \<noteq> ?nk" "\<not> (hi \<noteq> ?nk \<and> hi < k)" "lo \<noteq> ?nk" "k < lo"
    | (both) "\<not> (lo = ?nk \<and> hi = ?nk)" "k \<noteq> ?nk" "\<not> (hi \<noteq> ?nk \<and> hi < k)" "\<not> (lo \<noteq> ?nk \<and> k < lo)" by blast
  then show ?case
  proof cases
    case all
    then show ?thesis
      using evt_sum[OF Nd.prems(1)] by (subst do_bst_rangequery.simps) (simp add: Let_def in_range_def)
  next
    case left
    have "filter (\<lambda>k. k \<noteq> ?nk \<and> in_range ?nk lo hi k) (lkeys r) = []"
      using left b(4,6) by (intro filter_none) (fastforce simp: in_range_def)
    moreover have "do_bst_rangequery lo hi c st = do_bst_rangequery lo hi (vt_left ?v) st"
      using left v by (subst do_bst_rangequery.simps) (auto simp: Let_def e_compareKeys_range)
    ultimately show ?thesis using IH(1) by simp
  next
    case right
    have "filter (\<lambda>k. k \<noteq> ?nk \<and> in_range ?nk lo hi k) (lkeys l) = []"
      using right b(3) by (intro filter_none) (fastforce simp: in_range_def)
    moreover have "do_bst_rangequery lo hi c st = do_bst_rangequery lo hi (vt_right ?v) st"
      using right v by (subst do_bst_rangequery.simps) (auto simp: Let_def e_compareKeys_range)
    ultimately show ?thesis using IH(2) by simp
  next
    case both
    have e: "filter (\<lambda>k. k \<noteq> ?nk \<and> in_range ?nk lo ?nk k) (lkeys l) = filter (\<lambda>k. k \<noteq> ?nk \<and> in_range ?nk lo hi k) (lkeys l)"
        "filter (\<lambda>k. k \<noteq> ?nk \<and> in_range ?nk ?nk hi k) (lkeys r) = filter (\<lambda>k. k \<noteq> ?nk \<and> in_range ?nk lo hi k) (lkeys r)"
      using both b(3,4) by (intro filter_cong refl; fastforce simp: in_range_def)+
    show ?thesis
      using both v IH(1)[of lo ?nk, unfolded e] IH(2)[of ?nk hi, unfolded e]
      by (subst do_bst_rangequery.simps) (auto simp: Let_def e_compareKeys_range)
  qed
qed

lemma emap_card:
  assumes "bst T"
  shows "int (length (filter (\<lambda>k. k \<noteq> nk \<and> P k) (lkeys T))) = int (card {k \<in> dom (emap nk T). P k})"
proof -
  have "sorted_wrt (<) (lkeys T)" by (rule bst_sorted[OF assms])
  then have "distinct (filter (\<lambda>k. k \<noteq> nk \<and> P k) (lkeys T))" by (simp add: strict_sorted_iff)
  then have "length (filter (\<lambda>k. k \<noteq> nk \<and> P k) (lkeys T)) = card (set (filter (\<lambda>k. k \<noteq> nk \<and> P k) (lkeys T)))"
    by (simp only: distinct_card)
  moreover have "set (filter (\<lambda>k. k \<noteq> nk \<and> P k) (lkeys T)) = {k \<in> dom (emap nk T). P k}"
    by (auto simp: emap_def dom_map_of_conv_image_fst)
  ultimately show ?thesis by simp
qed

lemma bst_rangequery_spec:
  assumes "ellen_inv st T"
  shows "bst_rangequery lo hi st =
    Some (int (card {k \<in> dom (emap (KEY_MAX st) T). in_range (KEY_MAX st) lo hi k}))"
proof -
  obtain F where F: "top_frame st F" "evok st {} (plug [F] T)" using assms by (auto simp: ellen_inv_def)
  let ?nk = "KEY_MAX st" and ?v = "versionE st (e_version st (e_root st))"
  have b: "bst T" "\<forall>k\<in>set (lkeys T). k \<le> ?nk" using assms by (auto simp: ellen_inv_def ebst_def)
  obtain v bb v' where W: "F = FL (e_root st) ?nk v 0 (Lf bb ?nk v' 0)" using F(1) by (auto simp: top_frame_def)
  have r: "evt st (e_version st (e_root st)) (Nd (e_root st) ?nk v 0 T (Lf bb ?nk v' 0))"
    using F(2) by (simp add: W evok_def)
  then have ev: "evt st (vt_left ?v) T" "vt_key ?v = ?nk" "vt_left ?v \<noteq> NULL" using evt_bounds[of st "vt_left ?v" T] by auto
  note q = do_bst_rangequery_spec[OF ev(1) b, of lo hi]
  have "do_bst_rangequery lo hi (e_version st (e_root st)) st =
      Some (int (length (filter (\<lambda>k. k \<noteq> ?nk \<and> in_range ?nk lo hi k) (lkeys T))))"
  proof (cases "lo = ?nk \<and> hi = ?nk")
    case True
    then show ?thesis using evt_sum[OF r] by (subst do_bst_rangequery.simps) (simp add: Let_def in_range_def)
  next
    case False
    then have "do_bst_rangequery lo hi (e_version st (e_root st)) st = do_bst_rangequery lo hi (vt_left ?v) st"
      using ev by (subst do_bst_rangequery.simps) (auto simp: Let_def)
    then show ?thesis using q by simp
  qed
  then show ?thesis unfolding bst_rangequery_def emap_card[OF b(1)] .
qed

section \<open>The constructor, and the contract\<close>

lemma ellen_new_inv:
  "ellen_inv (ellen_new kmin kmax nv) (Lf 1 kmax nv 0)" "KEY_MAX (ellen_new kmin kmax nv) = kmax"
  "e_NO_VALUE (ellen_new kmin kmax nv) = nv"
proof -
  let ?st = "ellen_new kmin kmax nv" and ?F = "FL 3 kmax nv 0 (Lf 2 kmax nv 0)"
  have e: "KEY_MAX ?st = kmax" "e_NO_VALUE ?st = nv" "e_root ?st = 3" "nextNodeE ?st = 4" "nextVersionE ?st = 4"
    "nodeE ?st 1 = \<lparr>nd_key = kmax, nd_value = nv, nd_update = NULL, nd_version = 1, nd_left = NULL, nd_right = NULL\<rparr>"
    "nodeE ?st 2 = \<lparr>nd_key = kmax, nd_value = nv, nd_update = NULL, nd_version = 2, nd_left = NULL, nd_right = NULL\<rparr>"
    "nodeE ?st 3 = \<lparr>nd_key = kmax, nd_value = nv, nd_update = NULL, nd_version = 3, nd_left = 1, nd_right = 2\<rparr>"
    "versionE ?st 1 = \<lparr>vt_left = NULL, vt_right = NULL, vt_key = kmax, vt_sum = 0\<rparr>"
    "versionE ?st 2 = \<lparr>vt_left = NULL, vt_right = NULL, vt_key = kmax, vt_sum = 0\<rparr>"
    "versionE ?st 3 = \<lparr>vt_left = 1, vt_right = 2, vt_key = kmax, vt_sum = 0\<rparr>"
    by (simp_all add: ellen_new_def e_blank_def e_initThread_def create_version_def create_node_def Let_def)
  have "top_frame ?st ?F" by (simp add: top_frame_def e)
  moreover have "ewf ?st (plug [?F] (Lf 1 kmax nv 0))" using e by (simp add: ewf_def)
  moreover have "evok ?st {} (plug [?F] (Lf 1 kmax nv 0))" using e by (simp add: evok_def)
  moreover have "ebst kmax (Lf 1 kmax nv 0)" by (simp add: ebst_def)
  ultimately show "ellen_inv ?st (Lf 1 kmax nv 0)" unfolding ellen_inv_def e(1) by blast
  show "KEY_MAX ?st = kmax" "e_NO_VALUE ?st = nv" by (rule e)+
qed

definition ellen_adapter :: "('k::linorder, 'v, ('k, 'v) ellen) ds_adapter" where
  "ellen_adapter = \<lparr>a_insertIfAbsent = (\<lambda>tid. bst_insert), a_erase = (\<lambda>tid. bst_delete),
     a_find = (\<lambda>tid. bst_find),
     a_contains = (\<lambda>tid k st. map_option (\<lambda>v. v \<noteq> e_NO_VALUE st) (bst_find k st)),
     a_rangeQuery = (\<lambda>tid. bst_rangequery)\<rparr>"

definition ellen_rep :: "'k::linorder \<Rightarrow> 'v \<Rightarrow> nat set \<Rightarrow> ('k, 'v) ellen \<Rightarrow> ('k \<rightharpoonup> 'v) \<Rightarrow> bool" where
  "ellen_rep nk nv Th st m \<longleftrightarrow> KEY_MAX st = nk \<and> e_NO_VALUE st = nv \<and> nv \<notin> ran m \<and>
     (\<exists>T. ellen_inv st T \<and> m = emap nk T)"

lemma ellen_rep_frame:
  assumes "ellen_rep nk nv Th st m" and "eframe st st'" and "ellen_inv st' T'" and "emap nk T' = m'" and "nv \<notin> ran m'"
  shows "ellen_rep nk nv Th st' m'"
  using assms by (auto simp: ellen_rep_def eframe_def)

interpretation elm: ordered_dict ellen_adapter "ellen_rep nk nv" "\<lambda>k. k < nk" nv for nk :: "'k::linorder" and nv :: 'v
proof
  fix Th st and m :: "'k \<rightharpoonup> 'v" and tid k v
  assume r: "ellen_rep nk nv Th st m" and k: "k < nk"
  obtain T where T: "ellen_inv st T" "m = emap nk T" and e: "KEY_MAX st = nk" "e_NO_VALUE st = nv" "nv \<notin> ran m"
    using r by (auto simp: ellen_rep_def)
  have x: "k < KEY_MAX st" using k e by simp
  show "\<exists>s'. a_insertIfAbsent ellen_adapter tid k v st = Some (stored nv m k, s') \<and>
      ellen_rep nk nv Th s' (if m k = None then m(k \<mapsto> v) else m)" if "v \<noteq> nv"
  proof -
    obtain st' T' where "bst_insert k v st = Some (stored nv m k, st')" "ellen_inv st' T'" "eframe st st'"
        "emap nk T' = (if m k = None then m(k \<mapsto> v) else m)"
      using bst_insert_spec[OF T(1) x, of v] unfolding e stored_def T(2) by blast
    moreover have "nv \<notin> ran (if m k = None then m(k \<mapsto> v) else m)" using e(3) that by auto
    ultimately show ?thesis using ellen_rep_frame[OF r, of st' T'] by (auto simp: ellen_adapter_def)
  qed
  show "\<exists>s'. a_erase ellen_adapter tid k st = Some (stored nv m k, s') \<and> ellen_rep nk nv Th s' (m(k := None))"
  proof -
    obtain st' T' where "bst_delete k st = Some (stored nv m k, st')" "ellen_inv st' T'" "eframe st st'"
        "emap nk T' = m(k := None)"
      using bst_delete_spec[OF T(1) x] unfolding e stored_def T(2) by blast
    moreover have "nv \<notin> ran (m(k := None))" using e(3) by (auto simp: ran_def)
    ultimately show ?thesis using ellen_rep_frame[OF r, of st' T'] by (auto simp: ellen_adapter_def)
  qed
  have f: "bst_find k st = Some (stored nv m k)"
    using bst_find_spec[OF T(1) x] unfolding e stored_def T(2) .
  show "a_find ellen_adapter tid k st = Some (stored nv m k)" using f by (simp add: ellen_adapter_def)
  show "a_contains ellen_adapter tid k st = Some (m k \<noteq> None)"
    using f e by (auto simp: ellen_adapter_def stored_def ran_def split: option.splits)
next
  fix Th st and m :: "'k \<rightharpoonup> 'v" and tid lo hi
  assume r: "ellen_rep nk nv Th st m" and k: "lo < nk" "hi < nk"
  obtain T where T: "ellen_inv st T" "m = emap nk T" "KEY_MAX st = nk" using r by (auto simp: ellen_rep_def)
  have "in_range nk lo hi = (\<lambda>k. lo \<le> k \<and> k \<le> hi)" using k by (auto simp: in_range_def)
  then show "a_rangeQuery ellen_adapter tid lo hi st = Some (int (card {k \<in> dom m. lo \<le> k \<and> k \<le> hi}))"
    using bst_rangequery_spec[OF T(1), of lo hi] T(2,3) by (simp add: ellen_adapter_def)
qed

lemma ellen_start: "ellen_rep kmax nv Th (ellen_new kmin kmax nv) Map.empty"
  using ellen_new_inv[of kmin kmax nv] by (auto simp: ellen_rep_def emap_def intro!: exI[of _ "Lf 1 kmax nv 0"])

lemma ellen_adapter_run:
  fixes kmax :: "'k::linorder"
  assumes "\<forall>(tid, a)\<in>set as. (\<forall>k\<in>dop_keys a. k < kmax) \<and> nv \<notin> dop_vals a"
  shows "\<exists>st'. adapter_run ellen_adapter as (ellen_new kmin kmax nv) = Some (fst (dspec_run nv as Map.empty), st')"
  using elm.drun_refines[OF ellen_start[of kmax nv UNIV kmin], of as] assms by fast

end
