(* ===== verification/Ellen_Plain.thy ===== *)
theory Ellen_Plain
  imports Ellen_Map
begin

text \<open>
  The tree without augmentation (\<open>ds/ellen_ext_bst_lf/ellen_impl.h\<close>).  Forgetting the versions turns a
  state of the augmented tree into a state of this one, and every operation commutes with that: the
  augmentation does not change what the tree stores or returns, and the contract carries over.
\<close>

section \<open>Definitions\<close>

record ('k, 'v) pnode =
  pn_key :: 'k
  pn_value :: 'v
  pn_update :: addr
  pn_left :: addr
  pn_right :: addr

record ('k, 'v) ellen_plain =
  pl_root :: addr
  pl_KEY_MIN :: 'k
  pl_KEY_MAX :: 'k
  pl_NO_VALUE :: 'v
  pl_init :: "nat \<Rightarrow> bool"
  pl_node :: "addr \<Rightarrow> ('k, 'v) pnode"
  pl_info :: "addr \<Rightarrow> info_t"
  pl_nextNode :: addr
  pl_nextInfo :: nat
  pl_retiredNodes :: "addr list"
  pl_retiredInfos :: "addr list"
  pl_freedNodes :: "addr list"
  pl_freedInfos :: "addr list"

abbreviation pl_left :: "('k, 'v) ellen_plain \<Rightarrow> addr \<Rightarrow> addr" where "pl_left st a \<equiv> pn_left (pl_node st a)"
abbreviation pl_right :: "('k, 'v) ellen_plain \<Rightarrow> addr \<Rightarrow> addr" where "pl_right st a \<equiv> pn_right (pl_node st a)"
abbreviation pl_key :: "('k, 'v) ellen_plain \<Rightarrow> addr \<Rightarrow> 'k" where "pl_key st a \<equiv> pn_key (pl_node st a)"
abbreviation pl_value :: "('k, 'v) ellen_plain \<Rightarrow> addr \<Rightarrow> 'v" where "pl_value st a \<equiv> pn_value (pl_node st a)"
abbreviation pl_update :: "('k, 'v) ellen_plain \<Rightarrow> addr \<Rightarrow> addr" where "pl_update st a \<equiv> pn_update (pl_node st a)"

definition pl_set_update :: "addr \<Rightarrow> addr \<Rightarrow> ('k, 'v) ellen_plain \<Rightarrow> ('k, 'v) ellen_plain" where
  "pl_set_update n u st = st\<lparr>pl_node := (pl_node st)(n := (pl_node st n)\<lparr>pn_update := u\<rparr>)\<rparr>"

definition pl_create_node ::
    "'k \<Rightarrow> 'v \<Rightarrow> addr \<Rightarrow> addr \<Rightarrow> ('k, 'v) ellen_plain \<Rightarrow> addr \<times> ('k, 'v) ellen_plain" where
  "pl_create_node k v l r st =
    (let result = pl_nextNode st in
     (result, st\<lparr>pl_nextNode := Suc result,
        pl_node := (pl_node st)(result := \<lparr>pn_key = k, pn_value = v, pn_update = NULL, pn_left = l, pn_right = r\<rparr>)\<rparr>))"

definition pl_create_iinfo_t ::
    "addr \<Rightarrow> addr \<Rightarrow> addr \<Rightarrow> ('k, 'v) ellen_plain \<Rightarrow> addr \<times> ('k, 'v) ellen_plain" where
  "pl_create_iinfo_t p ni l st =
    (let result = 4 * pl_nextInfo st in
     (result, st\<lparr>pl_nextInfo := Suc (pl_nextInfo st),
        pl_info := (pl_info st)(result := (pl_info st result)\<lparr>iinfo := \<lparr>ii_p = p, ii_new_internal = ni, ii_l = l\<rparr>\<rparr>)\<rparr>))"

definition pl_create_dinfo_t ::
    "addr \<Rightarrow> addr \<Rightarrow> addr \<Rightarrow> addr \<Rightarrow> ('k, 'v) ellen_plain \<Rightarrow> addr \<times> ('k, 'v) ellen_plain" where
  "pl_create_dinfo_t gp p l u st =
    (let result = 4 * pl_nextInfo st in
     (result, st\<lparr>pl_nextInfo := Suc (pl_nextInfo st),
        pl_info := (pl_info st)(result := (pl_info st result)\<lparr>dinfo := \<lparr>di_gp = gp, di_p = p, di_l = l, di_pupdate = u\<rparr>\<rparr>)\<rparr>))"

definition pl_initThread :: "nat \<Rightarrow> ('k, 'v) ellen_plain \<Rightarrow> ('k, 'v) ellen_plain" where
  "pl_initThread tid st = (if pl_init st tid then st else st\<lparr>pl_init := (pl_init st)(tid := True)\<rparr>)"

definition pl_deinitThread :: "nat \<Rightarrow> ('k, 'v) ellen_plain \<Rightarrow> ('k, 'v) ellen_plain" where
  "pl_deinitThread tid st = (if \<not> pl_init st tid then st else st\<lparr>pl_init := (pl_init st)(tid := False)\<rparr>)"

definition pl_blank :: "'k \<Rightarrow> 'k \<Rightarrow> 'v \<Rightarrow> ('k, 'v) ellen_plain" where
  "pl_blank kmin kmax noValue =
    \<lparr>pl_root = NULL, pl_KEY_MIN = kmin, pl_KEY_MAX = kmax, pl_NO_VALUE = noValue, pl_init = (\<lambda>_. False),
     pl_node = (\<lambda>_. \<lparr>pn_key = kmax, pn_value = noValue, pn_update = NULL, pn_left = NULL, pn_right = NULL\<rparr>),
     pl_info = (\<lambda>_. \<lparr>iinfo = \<lparr>ii_p = NULL, ii_new_internal = NULL, ii_l = NULL\<rparr>,
                       dinfo = \<lparr>di_gp = NULL, di_p = NULL, di_l = NULL, di_pupdate = NULL\<rparr>\<rparr>),
     pl_nextNode = 1, pl_nextInfo = 1, pl_retiredNodes = [], pl_retiredInfos = [], pl_freedNodes = [],
     pl_freedInfos = []\<rparr>"

definition pl_new :: "'k \<Rightarrow> 'k \<Rightarrow> 'v \<Rightarrow> ('k, 'v) ellen_plain" where
  "pl_new kmin kmax noValue =
    (let st = pl_initThread 0 (pl_blank kmin kmax noValue);
         (i1, st) = pl_create_node kmax noValue NULL NULL st;
         (i2, st) = pl_create_node kmax noValue NULL NULL st;
         (r, st) = pl_create_node kmax noValue i1 i2 st
     in st\<lparr>pl_root := r\<rparr>)"

subsection \<open>Helping\<close>

definition pl_cas_child :: "addr \<Rightarrow> addr \<Rightarrow> addr \<Rightarrow> ('k, 'v) ellen_plain \<Rightarrow> bool \<times> ('k, 'v) ellen_plain" where
  "pl_cas_child parent old nnode st =
    (if old = pl_left st parent
     then (True, st\<lparr>pl_node := (pl_node st)(parent := (pl_node st parent)\<lparr>pn_left := nnode\<rparr>)\<rparr>)
     else if old = pl_right st parent
     then (True, st\<lparr>pl_node := (pl_node st)(parent := (pl_node st parent)\<lparr>pn_right := nnode\<rparr>)\<rparr>)
     else (False, st))"

definition pl_unflag_update :: "addr \<Rightarrow> addr \<Rightarrow> nat \<Rightarrow> ('k, 'v) ellen_plain \<Rightarrow> ('k, 'v) ellen_plain" where
  "pl_unflag_update n op flag st =
    (if pl_update st n = FLAG op flag
     then let st = pl_set_update n (FLAG op STATE_CLEAN) st in st\<lparr>pl_retiredInfos := op # pl_retiredInfos st\<rparr>
     else st)"

definition pl_help_insert :: "addr \<Rightarrow> ('k, 'v) ellen_plain \<Rightarrow> ('k, 'v) ellen_plain" where
  "pl_help_insert op st =
    (let i = iinfo (pl_info st op);
         (done', st) = pl_cas_child (ii_p i) (ii_l i) (ii_new_internal i) st;
         st = (if done' then st\<lparr>pl_retiredNodes := ii_l i # pl_retiredNodes st\<rparr> else st)
     in pl_unflag_update (ii_p i) op STATE_IFLAG st)"

definition pl_help_marked :: "addr \<Rightarrow> ('k, 'v) ellen_plain \<Rightarrow> ('k, 'v) ellen_plain" where
  "pl_help_marked op st =
    (let d = dinfo (pl_info st op);
         other = (if pl_right st (di_p d) = di_l d then pl_left st (di_p d) else pl_right st (di_p d));
         (done', st) = pl_cas_child (di_gp d) (di_p d) other st;
         st = (if done' then st\<lparr>pl_retiredNodes := di_p d # di_l d # pl_retiredNodes st\<rparr> else st)
     in pl_unflag_update (di_gp d) op STATE_DFLAG st)"

partial_function (option) pl_help_run ::
    "help_call \<Rightarrow> ('k, 'v) ellen_plain \<Rightarrow> (bool \<times> ('k, 'v) ellen_plain) option" where
  "pl_help_run c st =
    (case c of
       HelpDelete op \<Rightarrow>
         let d = dinfo (pl_info st op); result = pl_update st (di_p d);
             st1 = (if result = di_pupdate d then pl_set_update (di_p d) (FLAG op STATE_MARK) st else st)
         in if result = di_pupdate d \<or> result = FLAG op STATE_MARK
            then Some (True, pl_help_marked op st1)
            else do {
              (_, st2) \<leftarrow> pl_help_run (Help result) st1;
              Some (False, pl_unflag_update (di_gp d) op STATE_DFLAG st2)
            }
     | Help u \<Rightarrow>
         if GETFLAG u = STATE_DFLAG then pl_help_run (HelpDelete (UNFLAG u)) st
         else if GETFLAG u = STATE_IFLAG then Some (True, pl_help_insert (UNFLAG u) st)
         else if GETFLAG u = STATE_MARK then Some (True, pl_help_marked (UNFLAG u) st)
         else Some (True, st))"

definition pl_help :: "addr \<Rightarrow> ('k, 'v) ellen_plain \<Rightarrow> ('k, 'v) ellen_plain option" where
  "pl_help u st = map_option snd (pl_help_run (Help u) st)"

definition pl_help_delete :: "addr \<Rightarrow> ('k, 'v) ellen_plain \<Rightarrow> (bool \<times> ('k, 'v) ellen_plain) option" where
  "pl_help_delete op st = pl_help_run (HelpDelete op) st"

subsection \<open>Operations\<close>

partial_function (option) pl_findLoop :: "'k::linorder \<Rightarrow> addr \<Rightarrow> ('k, 'v) ellen_plain \<Rightarrow> addr option" where
  "pl_findLoop k l st =
    (if pl_left st l \<noteq> NULL
     then pl_findLoop k (if k < pl_key st l then pl_left st l else pl_right st l) st
     else Some l)"

definition pl_find :: "'k::linorder \<Rightarrow> ('k, 'v) ellen_plain \<Rightarrow> 'v option" where
  "pl_find k st =
    do {
      l \<leftarrow> pl_findLoop k (pl_left st (pl_root st)) st;
      Some (if pl_key st l = k then pl_value st l else pl_NO_VALUE st)
    }"

partial_function (option) do_bst_nonlinearizable_rangequery ::
    "'k::linorder \<Rightarrow> 'k \<Rightarrow> addr \<Rightarrow> ('k, 'v) ellen_plain \<Rightarrow> int option" where
  "do_bst_nonlinearizable_rangequery lo hi c st =
    (if pl_left st c = NULL
     then Some (if pl_key st c = pl_KEY_MAX st \<or> pl_key st c < lo \<or> hi < pl_key st c then 0 else 1)
     else if pl_key st c < lo then do_bst_nonlinearizable_rangequery lo hi (pl_right st c) st
     else if hi < pl_key st c then do_bst_nonlinearizable_rangequery lo hi (pl_left st c) st
     else do {
       x \<leftarrow> do_bst_nonlinearizable_rangequery lo hi (pl_left st c) st;
       y \<leftarrow> do_bst_nonlinearizable_rangequery lo hi (pl_right st c) st;
       Some (x + y)
     })"

definition bst_nonlinearizable_rangequery :: "'k::linorder \<Rightarrow> 'k \<Rightarrow> ('k, 'v) ellen_plain \<Rightarrow> int option" where
  "bst_nonlinearizable_rangequery lo hi st = do_bst_nonlinearizable_rangequery lo hi (pl_root st) st"

partial_function (option) pl_searchInsert ::
    "'k::linorder \<Rightarrow> addr \<Rightarrow> addr \<Rightarrow> addr \<Rightarrow> ('k, 'v) ellen_plain \<Rightarrow> (addr \<times> addr \<times> addr) option" where
  "pl_searchInsert k p pupdate l st =
    (if pl_left st l \<noteq> NULL
     then pl_searchInsert k l (pl_update st l) (if k < pl_key st l then pl_left st l else pl_right st l) st
     else Some (p, pupdate, l))"

definition pl_insertNew ::
    "'k::linorder \<Rightarrow> 'v \<Rightarrow> addr \<Rightarrow> addr \<Rightarrow> addr \<Rightarrow> ('k, 'v) ellen_plain \<Rightarrow>
     ('v option \<times> ('k, 'v) ellen_plain) option" where
  "pl_insertNew k value p pupdate l st =
    (let lkey = pl_key st l; lvalue = pl_value st l;
         (new_node, st) = pl_create_node k value NULL NULL st;
         (new_sibling, st) = pl_create_node lkey lvalue NULL NULL st;
         (new_internal, st) =
           (if k < lkey then pl_create_node lkey (pl_NO_VALUE st) new_node new_sibling st
            else pl_create_node k (pl_NO_VALUE st) new_sibling new_node st);
         (op, st) = pl_create_iinfo_t p new_internal l st;
         result = pl_update st p
     in if result = pupdate
        then let st = pl_help_insert op (pl_set_update p (FLAG op STATE_IFLAG) st)
             in Some (Some (pl_NO_VALUE st), st)
        else let st = st\<lparr>pl_freedNodes := new_internal # new_sibling # new_node # pl_freedNodes st,
                          pl_freedInfos := op # pl_freedInfos st\<rparr>
             in do { st \<leftarrow> pl_help result st; Some (None, st) })"

definition pl_insertAttempt ::
    "'k::linorder \<Rightarrow> 'v \<Rightarrow> ('k, 'v) ellen_plain \<Rightarrow> ('v option \<times> ('k, 'v) ellen_plain) option" where
  "pl_insertAttempt k value st =
    do {
      (p, pupdate, l) \<leftarrow> pl_searchInsert k (pl_root st) (pl_update st (pl_root st)) (pl_left st (pl_root st)) st;
      if pl_key st l = k then Some (Some (pl_value st l), st)
      else if GETFLAG pupdate \<noteq> STATE_CLEAN then do { st \<leftarrow> pl_help pupdate st; Some (None, st) }
      else pl_insertNew k value p pupdate l st
    }"

partial_function (option) pl_insert ::
    "'k::linorder \<Rightarrow> 'v \<Rightarrow> ('k, 'v) ellen_plain \<Rightarrow> ('v \<times> ('k, 'v) ellen_plain) option" where
  "pl_insert k value st =
    do {
      (r, st) \<leftarrow> pl_insertAttempt k value st;
      case r of Some v \<Rightarrow> Some (v, st) | None \<Rightarrow> pl_insert k value st
    }"

partial_function (option) pl_searchDelete ::
    "'k::linorder \<Rightarrow> addr \<Rightarrow> addr \<Rightarrow> addr \<Rightarrow> addr \<Rightarrow> addr \<Rightarrow> ('k, 'v) ellen_plain \<Rightarrow>
     (addr \<times> addr \<times> addr \<times> addr \<times> addr) option" where
  "pl_searchDelete k gp gpupdate p pupdate l st =
    (if pl_left st l \<noteq> NULL
     then pl_searchDelete k p pupdate l (pl_update st l)
            (if k < pl_key st l then pl_left st l else pl_right st l) st
     else Some (gp, gpupdate, p, pupdate, l))"

definition pl_deleteLeaf ::
    "addr \<Rightarrow> addr \<Rightarrow> addr \<Rightarrow> addr \<Rightarrow> addr \<Rightarrow> ('k, 'v) ellen_plain \<Rightarrow>
     ('v option \<times> ('k, 'v) ellen_plain) option" where
  "pl_deleteLeaf gp gpupdate p pupdate l st =
    (let found_value = pl_value st l;
         (op, st) = pl_create_dinfo_t gp p l pupdate st;
         result = pl_update st gp
     in if result = gpupdate
        then do {
          (b, st) \<leftarrow> pl_help_delete op (pl_set_update gp (FLAG op STATE_DFLAG) st);
          Some (if b then (Some found_value, st) else (None, st))
        }
        else do { st \<leftarrow> pl_help result (st\<lparr>pl_freedInfos := op # pl_freedInfos st\<rparr>); Some (None, st) })"

definition pl_deleteAttempt ::
    "'k::linorder \<Rightarrow> ('k, 'v) ellen_plain \<Rightarrow> ('v option \<times> ('k, 'v) ellen_plain) option" where
  "pl_deleteAttempt k st =
    do {
      (gp, gpupdate, p, pupdate, l) \<leftarrow> pl_searchDelete k NULL NULL (pl_root st)
         (pl_update st (pl_root st)) (pl_left st (pl_root st)) st;
      if pl_key st l \<noteq> k then Some (Some (pl_NO_VALUE st), st)
      else if GETFLAG gpupdate \<noteq> STATE_CLEAN then do { st \<leftarrow> pl_help gpupdate st; Some (None, st) }
      else if GETFLAG pupdate \<noteq> STATE_CLEAN then do { st \<leftarrow> pl_help pupdate st; Some (None, st) }
      else pl_deleteLeaf gp gpupdate p pupdate l st
    }"

partial_function (option) pl_delete ::
    "'k::linorder \<Rightarrow> ('k, 'v) ellen_plain \<Rightarrow> ('v \<times> ('k, 'v) ellen_plain) option" where
  "pl_delete k st =
    do {
      (r, st) \<leftarrow> pl_deleteAttempt k st;
      case r of Some v \<Rightarrow> Some (v, st) | None \<Rightarrow> pl_delete k st
    }"

section \<open>Forgetting the versions\<close>

definition forget_node :: "('k, 'v) node_t \<Rightarrow> ('k, 'v) pnode" where
  "forget_node n = \<lparr>pn_key = nd_key n, pn_value = nd_value n, pn_update = nd_update n, pn_left = nd_left n,
     pn_right = nd_right n\<rparr>"

definition forget :: "('k, 'v) ellen \<Rightarrow> ('k, 'v) ellen_plain" where
  "forget st = \<lparr>pl_root = e_root st, pl_KEY_MIN = KEY_MIN st, pl_KEY_MAX = KEY_MAX st, pl_NO_VALUE = e_NO_VALUE st,
     pl_init = e_init st, pl_node = (\<lambda>a. forget_node (nodeE st a)), pl_info = infoE st,
     pl_nextNode = nextNodeE st, pl_nextInfo = nextInfoE st, pl_retiredNodes = retiredNodesE st,
     pl_retiredInfos = retiredInfosE st, pl_freedNodes = freedNodesE st, pl_freedInfos = freedInfosE st\<rparr>"

lemma forget_node_sel [simp]:
  "pn_key (forget_node n) = nd_key n" "pn_value (forget_node n) = nd_value n"
  "pn_update (forget_node n) = nd_update n" "pn_left (forget_node n) = nd_left n"
  "pn_right (forget_node n) = nd_right n"
  by (simp_all add: forget_node_def)

lemma forget_node_upd [simp]:
  "forget_node (n\<lparr>nd_version := v\<rparr>) = forget_node n"
  "forget_node (n\<lparr>nd_update := a\<rparr>) = (forget_node n)\<lparr>pn_update := a\<rparr>"
  "forget_node (n\<lparr>nd_left := a\<rparr>) = (forget_node n)\<lparr>pn_left := a\<rparr>"
  "forget_node (n\<lparr>nd_right := a\<rparr>) = (forget_node n)\<lparr>pn_right := a\<rparr>"
  by (simp_all add: forget_node_def)

lemma forget_sel [simp]:
  "pl_root (forget st) = e_root st" "pl_KEY_MAX (forget st) = KEY_MAX st" "pl_NO_VALUE (forget st) = e_NO_VALUE st"
  "pl_node (forget st) a = forget_node (nodeE st a)" "pl_info (forget st) = infoE st"
  "pl_nextNode (forget st) = nextNodeE st" "pl_nextInfo (forget st) = nextInfoE st"
  "pl_retiredNodes (forget st) = retiredNodesE st" "pl_retiredInfos (forget st) = retiredInfosE st"
  "pl_freedNodes (forget st) = freedNodesE st" "pl_freedInfos (forget st) = freedInfosE st"
  by (simp_all add: forget_def)

lemma forget_upd [simp]:
  "forget (st\<lparr>retiredNodesE := x\<rparr>) = (forget st)\<lparr>pl_retiredNodes := x\<rparr>"
  "forget (st\<lparr>retiredInfosE := x\<rparr>) = (forget st)\<lparr>pl_retiredInfos := x\<rparr>"
  "forget (st\<lparr>freedNodesE := x\<rparr>) = (forget st)\<lparr>pl_freedNodes := x\<rparr>"
  "forget (st\<lparr>freedInfosE := x\<rparr>) = (forget st)\<lparr>pl_freedInfos := x\<rparr>"
  "forget (st\<lparr>retiredVersionsE := y\<rparr>) = forget st"
  "forget (st\<lparr>freedVersionsE := y\<rparr>) = forget st"
  "forget (st\<lparr>versionE := z\<rparr>) = forget st"
  "forget (st\<lparr>nextVersionE := w\<rparr>) = forget st"
  "forget (st\<lparr>nodeE := (nodeE st)(a := n)\<rparr>) = (forget st)\<lparr>pl_node := (pl_node (forget st))(a := forget_node n)\<rparr>"
  by (auto simp: forget_def)

named_theorems forget_simps \<open>the operations of the augmented tree without their versions\<close>

lemma forget_set_update [forget_simps]: "forget (set_update n u st) = pl_set_update n u (forget st)"
  by (simp add: set_update_def pl_set_update_def)

lemma forget_create_version [forget_simps]: "forget (snd (create_version k l r s st)) = forget st"
  by (simp add: create_version_def Let_def forget_def)

lemma forget_create_node [forget_simps]:
  "forget (snd (create_node k v l r w st)) = snd (pl_create_node k v l r (forget st))"
  "fst (pl_create_node k v l r (forget st)) = fst (create_node k v l r w st)"
  by (auto simp: create_node_def pl_create_node_def Let_def forget_def forget_node_def fun_eq_iff)

lemma forget_create_iinfo [forget_simps]:
  "forget (snd (create_iinfo_t p n l st)) = snd (pl_create_iinfo_t p n l (forget st))"
  "fst (pl_create_iinfo_t p n l (forget st)) = fst (create_iinfo_t p n l st)"
  by (auto simp: create_iinfo_t_def pl_create_iinfo_t_def Let_def forget_def)

lemma forget_create_dinfo [forget_simps]:
  "forget (snd (create_dinfo_t g p l u st)) = snd (pl_create_dinfo_t g p l u (forget st))"
  "fst (pl_create_dinfo_t g p l u (forget st)) = fst (create_dinfo_t g p l u st)"
  by (auto simp: create_dinfo_t_def pl_create_dinfo_t_def Let_def forget_def)

lemma forget_cas_child [forget_simps]:
  "forget (snd (bst_cas_child p a b st)) = snd (pl_cas_child p a b (forget st))"
  "fst (pl_cas_child p a b (forget st)) = fst (bst_cas_child p a b st)"
  by (auto simp: bst_cas_child_def pl_cas_child_def)

lemma forget_unflag [forget_simps]: "forget (unflag_update n op f st) = pl_unflag_update n op f (forget st)"
  by (simp add: unflag_update_def pl_unflag_update_def Let_def forget_simps del: forget_sel(9)) (simp add: set_update_def pl_set_update_def)

lemma forget_help_insert [forget_simps]: "forget (bst_help_insert op st) = pl_help_insert op (forget st)"
  by (simp add: bst_help_insert_def pl_help_insert_def Let_def split_beta forget_simps) (auto simp: bst_cas_child_def pl_cas_child_def)

lemma forget_help_marked [forget_simps]: "forget (bst_help_marked op st) = pl_help_marked op (forget st)"
  by (simp add: bst_help_marked_def pl_help_marked_def Let_def split_beta forget_simps) (auto simp: bst_cas_child_def pl_cas_child_def)

lemma forget_refresh: "e_refresh n rs st = (b, rs', st') \<Longrightarrow> forget st' = forget st"
  by (auto simp: e_refresh_def Let_def create_version_def split: if_splits) (simp add: forget_def fun_eq_iff)

lemma forget_propagateLoop: "e_propagateLoop ss rs st = (rs', st') \<Longrightarrow> forget st' = forget st"
  by (induction ss rs st arbitrary: rs' st' rule: e_propagateLoop.induct)
     (auto dest!: forget_refresh split: prod.splits bool.splits)

lemma forget_propagate [forget_simps]: "forget (e_propagate ss st) = forget st"
  by (auto simp: e_propagate_def split: prod.splits dest: forget_propagateLoop)

lemma forget_help_run: "help_run c st = Some r \<Longrightarrow> pl_help_run c (forget st) = Some (fst r, forget (snd r))"
proof (induction c st r rule: help_run.raw_induct[rotated, consumes 1, case_names step])
  case (step hr c st r)
  show ?case
  proof (cases c)
    case (Help u)
    then show ?thesis using step(2) step(1) by (subst pl_help_run.simps) (auto simp: forget_simps split: if_splits)
  next
    case (HelpDelete op)
    let ?d = "dinfo (infoE st op)" and ?res = "e_update st (di_p (dinfo (infoE st op)))"
    show ?thesis
    proof (cases "?res = di_pupdate ?d \<or> ?res = FLAG op STATE_MARK")
      case True
      then show ?thesis using step(2) HelpDelete by (subst pl_help_run.simps) (auto simp: Let_def forget_simps)
    next
      case False
      then obtain q where q: "hr (Help ?res) st = Some q" "r = (False, unflag_update (di_gp ?d) op STATE_DFLAG (snd q))"
        using step(2) HelpDelete by (auto simp: Let_def bind_eq_Some_conv)
      show ?thesis using step(1)[OF q(1)] False HelpDelete q(2)
        by (subst pl_help_run.simps) (auto simp: Let_def forget_simps)
    qed
  qed
qed

lemma forget_help: "bst_help u st = Some st' \<Longrightarrow> pl_help u (forget st) = Some (forget st')"
  by (auto simp: bst_help_def pl_help_def dest!: forget_help_run)

lemma forget_help_delete: "bst_help_delete op st = Some (b, st') \<Longrightarrow> pl_help_delete op (forget st) = Some (b, forget st')"
  by (auto simp: bst_help_delete_def pl_help_delete_def dest!: forget_help_run)

lemma forget_findLoop: "e_findLoop k l st = Some r \<Longrightarrow> pl_findLoop k l (forget st) = Some r"
  by (induction k l st r rule: e_findLoop.raw_induct[rotated, consumes 1, case_names step]) (subst pl_findLoop.simps, auto split: if_splits)

lemma forget_find: "bst_find k st = Some v \<Longrightarrow> pl_find k (forget st) = Some v"
  by (auto simp: bst_find_def pl_find_def bind_eq_Some_conv dest!: forget_findLoop)

lemma forget_searchInsert:
  "e_searchInsert k ss p u l st = Some r \<Longrightarrow> pl_searchInsert k p u l (forget st) = Some (snd r)"
  by (induction k ss p u l st r rule: e_searchInsert.raw_induct[rotated, consumes 1, case_names step]) (subst pl_searchInsert.simps, auto split: if_splits)

lemma forget_searchDelete:
  "e_searchDelete k ss g gu p u l st = Some r \<Longrightarrow> pl_searchDelete k g gu p u l (forget st) = Some (snd r)"
  by (induction k ss g gu p u l st r rule: e_searchDelete.raw_induct[rotated, consumes 1, case_names step]) (subst pl_searchDelete.simps, auto split: if_splits)

lemma forget_created:
  "create_version k l r s st = (a, st') \<Longrightarrow> forget st' = forget st \<and> KEY_MAX st' = KEY_MAX st"
  "create_node k v l r w st = (a, st') \<Longrightarrow> pl_create_node k v l r (forget st) = (a, forget st')"
  "create_iinfo_t p n l st = (a, st') \<Longrightarrow> pl_create_iinfo_t p n l (forget st) = (a, forget st')"
  "create_dinfo_t g p l u st = (a, st') \<Longrightarrow> pl_create_dinfo_t g p l u (forget st) = (a, forget st')"
  using forget_create_version[of k l r s st] forget_create_node(1)[of k v l r w st]
    forget_create_node(2)[of k v l r st w] forget_create_iinfo[of p n l st] forget_create_dinfo[of g p l u st]
  by (auto simp: prod_eq_iff create_version_def Let_def)

lemma forget_insertNew:
  assumes "e_insertNew k v ss p u l st = Some (r, st')"
  shows "pl_insertNew k v p u l (forget st) = Some (r, forget st')"
proof -
  let ?lk = "e_key st l" and ?lv = "e_value st l"
  obtain v1 s1 where c1: "create_version k NULL NULL 1 st = (v1, s1)" by (meson surj_pair)
  obtain v2 s2 where c2: "create_version ?lk NULL NULL (if ?lk = KEY_MAX s1 then 0 else 1) s1 = (v2, s2)"
    by (meson surj_pair)
  let ?s = "vt_sum (versionE s2 v1) + vt_sum (versionE s2 v2)"
  obtain v3 s3 where c3: "(if k < ?lk then create_version ?lk v1 v2 ?s s2 else create_version k v2 v1 ?s s2) = (v3, s3)"
    by (meson surj_pair)
  obtain n1 s4 where c4: "create_node k v NULL NULL v1 s3 = (n1, s4)" by (meson surj_pair)
  obtain n2 s5 where c5: "create_node ?lk ?lv NULL NULL v2 s4 = (n2, s5)" by (meson surj_pair)
  obtain n3 s6 where c6: "(if k < ?lk then create_node ?lk (e_NO_VALUE s5) n1 n2 v3 s5
      else create_node k (e_NO_VALUE s5) n2 n1 v3 s5) = (n3, s6)" by (meson surj_pair)
  obtain op s7 where c7: "create_iinfo_t p n3 l s6 = (op, s7)" by (meson surj_pair)
  have f: "forget s3 = forget st"
    using forget_created(1)[OF c1] forget_created(1)[OF c2] c3 by (auto split: if_splits dest!: forget_created(1))
  have p6: "(if k < ?lk then pl_create_node ?lk (e_NO_VALUE s5) n1 n2 (forget s5)
      else pl_create_node k (e_NO_VALUE s5) n2 n1 (forget s5)) = (n3, forget s6)"
    using c6 by (auto split: if_splits dest!: forget_created(2))
  have "pl_NO_VALUE (pl_help_insert op (pl_set_update p w (forget s7))) = e_NO_VALUE (bst_help_insert op (set_update p w s7))" for w
    by (simp only: forget_set_update[symmetric] forget_help_insert[symmetric] forget_sel)
  then show ?thesis
    using assms forget_created(2)[OF c4] forget_created(2)[OF c5] p6 forget_created(3)[OF c7] f
    by (auto simp: e_insertNew_def pl_insertNew_def Let_def c1 c2 c3 c4 c5 c6 c7 forget_simps bind_eq_Some_conv
        split: if_splits dest!: forget_help)
qed

lemma forget_insertAttempt:
  assumes "e_insertAttempt k v st = Some (r, st')"
  shows "pl_insertAttempt k v (forget st) = Some (r, forget st')"
proof -
  obtain ss p u l where s: "e_searchInsert k [e_root st] (e_root st) (e_update st (e_root st)) (e_left st (e_root st)) st = Some (ss, p, u, l)"
    using assms by (auto simp: e_insertAttempt_def bind_eq_Some_conv)
  show ?thesis
    using assms forget_searchInsert[OF s]
    by (auto simp: e_insertAttempt_def pl_insertAttempt_def s bind_eq_Some_conv forget_simps split: if_splits
        dest!: forget_help forget_insertNew)
qed

lemma forget_insert: "bst_insert k v st = Some r \<Longrightarrow> pl_insert k v (forget st) = Some (fst r, forget (snd r))"
proof (induction k v st r rule: bst_insert.raw_induct[rotated, consumes 1, case_names step])
  case (step rec k v st r)
  then obtain a s1 where "e_insertAttempt k v st = Some (a, s1)"
      "(case a of Some x \<Rightarrow> Some (x, s1) | None \<Rightarrow> rec k v s1) = Some r"
    by (auto simp: bind_eq_Some_conv)
  then show ?case
    using step(1)[of k v s1 r] forget_insertAttempt[of k v st a s1]
    by (subst pl_insert.simps) (auto split: option.splits)
qed

lemma forget_deleteLeaf:
  assumes "e_deleteLeaf ss gp gu p u l st = Some (r, st')"
  shows "pl_deleteLeaf gp gu p u l (forget st) = Some (r, forget st')"
proof -
  obtain op s1 where c: "create_dinfo_t gp p l u st = (op, s1)" by (meson surj_pair)
  note p = forget_created(4)[OF c]
  show ?thesis
  proof (cases "e_update s1 gp = gu")
    case True
    then obtain b s2 where s2: "bst_help_delete op (set_update gp (FLAG op STATE_DFLAG) s1) = Some (b, s2)"
        "(if b then (Some (e_value st l), e_propagate ss s2) else (None, s2)) = (r, st')"
      using assms by (auto simp: e_deleteLeaf_def c bind_eq_Some_conv)
    then show ?thesis
      using True forget_help_delete[OF s2(1)] p by (auto simp: pl_deleteLeaf_def forget_simps split: if_splits)
  next
    case False
    then have "bst_help (e_update s1 gp) (s1\<lparr>freedInfosE := op # freedInfosE s1\<rparr>) = Some st'" "r = None"
      using assms by (auto simp: e_deleteLeaf_def Let_def c bind_eq_Some_conv)
    then show ?thesis using False forget_help[of "e_update s1 gp"] p by (fastforce simp: pl_deleteLeaf_def)
  qed
qed

lemma forget_deleteAttempt:
  assumes "e_deleteAttempt k st = Some (r, st')"
  shows "pl_deleteAttempt k (forget st) = Some (r, forget st')"
proof -
  obtain ss gp gu p u l where s: "e_searchDelete k [e_root st] NULL NULL (e_root st) (e_update st (e_root st)) (e_left st (e_root st)) st = Some (ss, gp, gu, p, u, l)"
    using assms by (auto simp: e_deleteAttempt_def bind_eq_Some_conv)
  show ?thesis
    using assms forget_searchDelete[OF s]
    by (auto simp: e_deleteAttempt_def pl_deleteAttempt_def s bind_eq_Some_conv forget_simps split: if_splits
        dest!: forget_help forget_deleteLeaf)
qed

lemma forget_delete: "bst_delete k st = Some r \<Longrightarrow> pl_delete k (forget st) = Some (fst r, forget (snd r))"
proof (induction k st r rule: bst_delete.raw_induct[rotated, consumes 1, case_names step])
  case (step rec k st r)
  then obtain a s1 where "e_deleteAttempt k st = Some (a, s1)"
      "(case a of Some x \<Rightarrow> Some (x, s1) | None \<Rightarrow> rec k s1) = Some r"
    by (auto simp: bind_eq_Some_conv)
  then show ?case
    using step(1)[of k s1 r] forget_deleteAttempt[of k st a s1]
    by (subst pl_delete.simps) (auto split: option.splits)
qed

lemma forget_new: "forget (ellen_new kmin kmax nv) = pl_new kmin kmax nv"
  by (auto simp: ellen_new_def pl_new_def e_blank_def pl_blank_def e_initThread_def pl_initThread_def create_version_def
      create_node_def pl_create_node_def Let_def forget_def forget_node_def fun_eq_iff)

section \<open>Range queries\<close>

lemma do_bst_nonlinearizable_rangequery_spec:
  assumes "tree_at (shapeE st) t" and "bst t"
  shows "do_bst_nonlinearizable_rangequery lo hi (adr t) (forget st) =
    Some (int (length (filter (\<lambda>k. k \<noteq> KEY_MAX st \<and> lo \<le> k \<and> k \<le> hi) (lkeys t))))"
  using assms
proof (induction t)
  case (Lf a k v w)
  then show ?case
    by (subst do_bst_nonlinearizable_rangequery.simps) auto
next
  case (Nd a k v w l r)
  have t: "tree_at (shapeE st) l" "tree_at (shapeE st) r" and e: "pl_key (forget st) a = k" "pl_left (forget st) a = adr l"
    "pl_right (forget st) a = adr r" "adr l \<noteq> NULL"
    using Nd.prems(1) tree_at_adr[of "shapeE st" l] by auto
  have b: "bst l" "bst r" "\<forall>x\<in>set (lkeys l). x < k" "\<forall>x\<in>set (lkeys r). k \<le> x" using Nd.prems(2) by auto
  let ?in = "filter (\<lambda>k. k \<noteq> KEY_MAX st \<and> lo \<le> k \<and> k \<le> hi)"
  have "k < lo \<Longrightarrow> ?in (lkeys l) = []" "hi < k \<Longrightarrow> ?in (lkeys r) = []"
    using b(3,4) by (auto intro!: filter_none) fastforce+
  then show ?case using Nd.IH t b(1,2) e by (subst do_bst_nonlinearizable_rangequery.simps) (auto simp del: filter_map length_filter_map)
qed

lemma bst_nonlinearizable_rangequery_spec:
  assumes "ellen_inv st T"
  shows "bst_nonlinearizable_rangequery lo hi (forget st) =
    Some (int (card {k \<in> dom (emap (KEY_MAX st) T). lo \<le> k \<and> k \<le> hi}))"
proof -
  let ?nk = "KEY_MAX st"
  obtain F where F: "top_frame st F" "ewf st (plug [F] T)" using assms by (auto simp: ellen_inv_def)
  have b: "bst T" "\<forall>k\<in>set (lkeys T). k \<le> ?nk" using assms by (auto simp: ellen_inv_def ebst_def)
  obtain v bb v' where W: "F = FL (e_root st) ?nk v 0 (Lf bb ?nk v' 0)" using F(1) by (auto simp: top_frame_def)
  have t: "tree_at (shapeE st) (plug [F] T)" using F(2) by (simp add: ewf_def)
  have tt: "tree_at (shapeE st) T" "tree_at (shapeE st) (Lf bb ?nk v' 0)" and e: "e_left st (e_root st) = adr T"
      "e_right st (e_root st) = bb" "e_key st (e_root st) = ?nk" "adr T \<noteq> NULL"
    using t tree_at_adr[of "shapeE st" T] by (auto simp: W)
  have d: "k \<le> ?nk" if "k \<in> dom (emap ?nk T)" for k
    using b(2) that map_of_SomeD[of "leaves T" k] by (force simp: emap_def split: if_splits)
  note q = do_bst_nonlinearizable_rangequery_spec[OF tt(1) b(1), of lo hi]
  have r: "do_bst_nonlinearizable_rangequery lo hi bb (forget st) = Some 0"
    using do_bst_nonlinearizable_rangequery_spec[OF tt(2), of lo hi] by simp
  show ?thesis
  proof (cases "?nk < lo")
    case True
    then have c: "{k \<in> dom (emap ?nk T). lo \<le> k \<and> k \<le> hi} = {}"
      using d by fastforce
    show ?thesis unfolding bst_nonlinearizable_rangequery_def c
      using True e r by (subst do_bst_nonlinearizable_rangequery.simps) simp
  next
    case False
    then have "do_bst_nonlinearizable_rangequery lo hi (e_root st) (forget st) =
        Some (int (length (filter (\<lambda>k. k \<noteq> ?nk \<and> lo \<le> k \<and> k \<le> hi) (lkeys T))))"
      using e r q by (subst do_bst_nonlinearizable_rangequery.simps) simp
    then show ?thesis unfolding bst_nonlinearizable_rangequery_def emap_card[OF b(1)] by simp
  qed
qed

section \<open>The contract\<close>

definition plain_adapter :: "('k::linorder, 'v, ('k, 'v) ellen_plain) ds_adapter" where
  "plain_adapter = \<lparr>a_insertIfAbsent = (\<lambda>tid. pl_insert), a_erase = (\<lambda>tid. pl_delete),
     a_find = (\<lambda>tid. pl_find),
     a_contains = (\<lambda>tid k st. map_option (\<lambda>v. v \<noteq> pl_NO_VALUE st) (pl_find k st)),
     a_rangeQuery = (\<lambda>tid. bst_nonlinearizable_rangequery)\<rparr>"

definition plain_rep :: "'k::linorder \<Rightarrow> 'v \<Rightarrow> nat set \<Rightarrow> ('k, 'v) ellen_plain \<Rightarrow> ('k \<rightharpoonup> 'v) \<Rightarrow> bool" where
  "plain_rep nk nv Th ps m \<longleftrightarrow> (\<exists>st. ps = forget st \<and> ellen_rep nk nv Th st m)"

interpretation plm: ordered_dict plain_adapter "plain_rep nk nv" "\<lambda>k. k < nk" nv for nk :: "'k::linorder" and nv :: 'v
proof
  fix Th ps and m :: "'k \<rightharpoonup> 'v" and tid k v
  assume r: "plain_rep nk nv Th ps m" and t: "tid \<in> Th" and k: "k < nk"
  obtain st where st: "ps = forget st" "ellen_rep nk nv Th st m" using r by (auto simp: plain_rep_def)
  show "\<exists>s'. a_insertIfAbsent plain_adapter tid k v ps = Some (stored nv m k, s') \<and>
      plain_rep nk nv Th s' (if m k = None then m(k \<mapsto> v) else m)" if "v \<noteq> nv"
    using elm.dinsert_law[OF st(2) t k that] st(1)
    by (auto simp: ellen_adapter_def plain_adapter_def plain_rep_def dest!: forget_insert)
  show "\<exists>s'. a_erase plain_adapter tid k ps = Some (stored nv m k, s') \<and> plain_rep nk nv Th s' (m(k := None))"
    using elm.derase_law[OF st(2) t k] st(1)
    by (auto simp: ellen_adapter_def plain_adapter_def plain_rep_def dest!: forget_delete)
  show "a_find plain_adapter tid k ps = Some (stored nv m k)"
    using elm.dfind_law[OF st(2) t k] st(1) by (auto simp: ellen_adapter_def plain_adapter_def dest: forget_find)
  show "a_contains plain_adapter tid k ps = Some (m k \<noteq> None)"
    using elm.dcontains_law[OF st(2) t k] st(1) by (auto simp: ellen_adapter_def plain_adapter_def dest: forget_find)
next
  fix Th ps and m :: "'k \<rightharpoonup> 'v" and tid lo hi
  assume r: "plain_rep nk nv Th ps m"
  obtain st T where "ps = forget st" "ellen_inv st T" "m = emap nk T" "KEY_MAX st = nk"
    using r by (auto simp: plain_rep_def ellen_rep_def)
  then show "a_rangeQuery plain_adapter tid lo hi ps = Some (int (card {k \<in> dom m. lo \<le> k \<and> k \<le> hi}))"
    using bst_nonlinearizable_rangequery_spec[of st T lo hi] by (simp add: plain_adapter_def)
qed

lemma plain_adapter_run:
  fixes kmax :: "'k::linorder"
  assumes "\<forall>(tid, a)\<in>set as. (\<forall>k\<in>dop_keys a. k < kmax) \<and> nv \<notin> dop_vals a"
  shows "\<exists>st'. adapter_run plain_adapter as (pl_new kmin kmax nv) = Some (fst (dspec_run nv as Map.empty), st')"
proof -
  have "plain_rep kmax nv UNIV (pl_new kmin kmax nv) Map.empty"
    unfolding plain_rep_def using ellen_start[of kmax nv UNIV kmin] forget_new[of kmin kmax nv] by metis
  then show ?thesis using plm.drun_refines[of kmax nv UNIV "pl_new kmin kmax nv" Map.empty as] assms by fast
qed

end
