(* ===== verification/Block_Bag.thy ===== *)
theory Block_Bag
  imports CBAT_Prelude "HOL-Library.Multiset"
begin

text \<open>
  Bags of retired records (\<open>common/recordmgr/blockbag.h\<close>), the pool their blocks come from
  (\<open>blockpool.h\<close>) and the bag of full blocks that threads exchange (\<open>lockfreeblockbag.h\<close>).

  A block is the part of its array that holds records, in array order: its \<open>size\<close> is the length.  The
  chain of blocks from \<open>head\<close> along \<open>next\<close> is a list, and \<open>tail\<close> is its last element.  An operation
  yields \<open>None\<close> when one of its assertions fails, it follows a null pointer, or it reads an entry of a block
  that holds no record.
\<close>

section \<open>Blocks\<close>

abbreviation (input) BLOCK_SIZE_DESIRED_BYTES :: nat where "BLOCK_SIZE_DESIRED_BYTES \<equiv> 512"

text \<open>Pointers and \<open>size_t\<close> have 8 bytes.\<close>

definition BLOCK_SIZE :: nat where
  "BLOCK_SIZE = BLOCK_SIZE_DESIRED_BYTES div 8 - 3 * 8"

definition asserting :: "bool \<Rightarrow> unit option" where
  "asserting b = (if b then Some () else None)"

record 'a block =
  blk_data :: "'a list"

definition block_new :: "'a block" where
  "block_new = \<lparr>blk_data = []\<rparr>"

definition block_computeSize :: "'a block \<Rightarrow> nat" where
  "block_computeSize b = length (blk_data b)"

definition block_isFull :: "'a block \<Rightarrow> bool" where
  "block_isFull b \<longleftrightarrow> block_computeSize b = BLOCK_SIZE"

definition block_isEmpty :: "'a block \<Rightarrow> bool" where
  "block_isEmpty b \<longleftrightarrow> block_computeSize b = 0"

definition block_push :: "'a \<Rightarrow> 'a block \<Rightarrow> 'a block option" where
  "block_push obj b =
    do { asserting (block_computeSize b < BLOCK_SIZE); Some (b\<lparr>blk_data := blk_data b @ [obj]\<rparr>) }"

definition block_pop :: "'a block \<Rightarrow> ('a \<times> 'a block) option" where
  "block_pop b =
    do { asserting (block_computeSize b > 0); Some (last (blk_data b), b\<lparr>blk_data := butlast (blk_data b)\<rparr>) }"

definition block_peek :: "int \<Rightarrow> 'a block \<Rightarrow> 'a option" where
  "block_peek ix b =
    do { asserting (0 \<le> ix); asserting (nat ix < block_computeSize b); Some (blk_data b ! nat ix) }"

definition block_contains :: "'a \<Rightarrow> 'a block \<Rightarrow> bool" where
  "block_contains obj b = (\<exists>i\<in>set [0..<block_computeSize b]. blk_data b ! i = obj)"

definition block_erase :: "'a \<Rightarrow> 'a block \<Rightarrow> 'a block" where
  "block_erase obj b =
    (if block_computeSize b = 0 then b
     else if last (blk_data b) = obj then b\<lparr>blk_data := butlast (blk_data b)\<rparr>
     else case List.find (\<lambda>i. blk_data b ! i = obj) [0..<block_computeSize b - 1] of
            None \<Rightarrow> b
          | Some i \<Rightarrow> b\<lparr>blk_data := butlast ((blk_data b)[i := last (blk_data b)])\<rparr>)"

definition block_eraseAt :: "nat \<Rightarrow> 'a block \<Rightarrow> 'a block" where
  "block_eraseAt ix b =
    (if block_computeSize b \<noteq> 0
     then let d = (if ix \<noteq> block_computeSize b - 1 then (blk_data b)[ix := last (blk_data b)] else blk_data b)
          in b\<lparr>blk_data := butlast d\<rparr>
     else b)"

definition block_replace :: "nat \<Rightarrow> 'a \<Rightarrow> 'a block \<Rightarrow> 'a block option" where
  "block_replace ix obj b =
    do { asserting (ix < block_computeSize b); Some (b\<lparr>blk_data := (blk_data b)[ix := obj]\<rparr>) }"

definition block_clear :: "'a block \<Rightarrow> 'a block" where
  "block_clear b = b\<lparr>blk_data := []\<rparr>"

section \<open>The pool of empty blocks\<close>

abbreviation (input) MAX_BLOCK_POOL_SIZE :: nat where "MAX_BLOCK_POOL_SIZE \<equiv> 32"

record blockpool =
  poolSize :: nat

definition blockpool_new :: blockpool where
  "blockpool_new = \<lparr>poolSize = 0\<rparr>"

text \<open>A block taken from the pool is initialised like a new one.\<close>

definition allocateBlock :: "blockpool \<Rightarrow> 'a block \<times> blockpool" where
  "allocateBlock pool =
    (if poolSize pool \<noteq> 0 then (block_new, pool\<lparr>poolSize := poolSize pool - 1\<rparr>) else (block_new, pool))"

definition deallocateBlock :: "'a block \<Rightarrow> blockpool \<Rightarrow> blockpool option" where
  "deallocateBlock b pool =
    do {
      asserting (block_isEmpty b);
      Some (if poolSize pool = MAX_BLOCK_POOL_SIZE then pool else pool\<lparr>poolSize := poolSize pool + 1\<rparr>)
    }"

section \<open>The bag of full blocks shared by the threads\<close>

record 'a lockfreeblockbag =
  lf_head :: "'a block list"
  lf_tag :: int

definition lockfreeblockbag_new :: "'a lockfreeblockbag" where
  "lockfreeblockbag_new = \<lparr>lf_head = [], lf_tag = 0\<rparr>"

definition getBlock :: "'a lockfreeblockbag \<Rightarrow> 'a block option \<times> 'a lockfreeblockbag" where
  "getBlock s =
    (case lf_head s of
       [] \<Rightarrow> (None, s)
     | b # bs \<Rightarrow> (Some b, \<lparr>lf_head = bs, lf_tag = lf_tag s + 1\<rparr>))"

definition addBlock :: "'a block \<Rightarrow> 'a lockfreeblockbag \<Rightarrow> 'a lockfreeblockbag" where
  "addBlock b s = \<lparr>lf_head = b # lf_head s, lf_tag = lf_tag s + 1\<rparr>"

definition lf_size :: "'a lockfreeblockbag \<Rightarrow> nat" where
  "lf_size s = sum_list (map block_computeSize (lf_head s))"

section \<open>Bags\<close>

record 'a blockbag =
  bag_owner :: nat
  sizeInBlocks :: int
  bag_blocks :: "'a block list"

definition computeSizeInBlocks :: "'a blockbag \<Rightarrow> nat" where
  "computeSizeInBlocks bag = length (bag_blocks bag)"

text \<open>The assertions of \<open>validate\<close>, which every operation runs before and after its work in debug builds.\<close>

definition bag_validate :: "'a blockbag \<Rightarrow> bool" where
  "bag_validate bag =
    (case bag_blocks bag of
       [] \<Rightarrow> False
     | h # bs \<Rightarrow> \<not> block_isFull h \<and> list_all block_isFull bs \<and> sizeInBlocks bag = int (computeSizeInBlocks bag))"

definition bag_new :: "nat \<Rightarrow> blockpool \<Rightarrow> 'a blockbag \<times> blockpool" where
  "bag_new tid pool =
    (let (h, pool) = allocateBlock pool in (\<lparr>bag_owner = tid, sizeInBlocks = 1, bag_blocks = [h]\<rparr>, pool))"

definition getHeadSize :: "'a blockbag \<Rightarrow> nat option" where
  "getHeadSize bag = (case bag_blocks bag of [] \<Rightarrow> None | h # _ \<Rightarrow> Some (block_computeSize h))"

definition bag_isEmpty :: "'a blockbag \<Rightarrow> bool" where
  "bag_isEmpty bag = (case bag_blocks bag of h # bs \<Rightarrow> bs = [] \<and> block_isEmpty h | [] \<Rightarrow> False)"

definition bag_add :: "'a \<Rightarrow> 'a blockbag \<Rightarrow> blockpool \<Rightarrow> ('a blockbag \<times> blockpool) option" where
  "bag_add obj bag pool =
    (case bag_blocks bag of
       [] \<Rightarrow> None
     | h # bs \<Rightarrow> do {
         h \<leftarrow> block_push obj h;
         Some (if block_isFull h
               then let (newblock, pool) = allocateBlock pool
                    in (bag\<lparr>sizeInBlocks := sizeInBlocks bag + 1, bag_blocks := newblock # h # bs\<rparr>, pool)
               else (bag\<lparr>bag_blocks := h # bs\<rparr>, pool))
       })"

definition bag_remove :: "'a blockbag \<Rightarrow> blockpool \<Rightarrow> ('a \<times> 'a blockbag \<times> blockpool) option" where
  "bag_remove bag pool =
    do {
      asserting (\<not> bag_isEmpty bag);
      case bag_blocks bag of
        [] \<Rightarrow> None
      | h # bs \<Rightarrow>
          (if block_isEmpty h
           then case bs of
                  [] \<Rightarrow> None
                | b # bs' \<Rightarrow> do {
                    (result, b) \<leftarrow> block_pop b;
                    pool \<leftarrow> deallocateBlock h pool;
                    Some (result, bag\<lparr>sizeInBlocks := sizeInBlocks bag - 1, bag_blocks := b # bs'\<rparr>, pool)
                  }
           else do {
             (result, h) \<leftarrow> block_pop h;
             Some (result, bag\<lparr>bag_blocks := h # bs\<rparr>, pool)
           })
    }"

text \<open>The block \<open>curr\<close> is given by its position in the chain.\<close>

definition bag_erase :: "nat \<Rightarrow> nat \<Rightarrow> 'a blockbag \<Rightarrow> blockpool \<Rightarrow> (bool \<times> 'a blockbag \<times> blockpool) option" where
  "bag_erase cur ix bag pool =
    do {
      asserting (\<not> bag_isEmpty bag);
      asserting (cur < length (bag_blocks bag) \<and> \<not> block_isEmpty (bag_blocks bag ! cur));
      (cur, bag, pool) \<leftarrow>
        (if block_isEmpty (hd (bag_blocks bag))
         then do {
           asserting (cur \<noteq> 0);
           pool \<leftarrow> deallocateBlock (hd (bag_blocks bag)) pool;
           Some (cur - 1, bag\<lparr>sizeInBlocks := sizeInBlocks bag - 1, bag_blocks := tl (bag_blocks bag)\<rparr>, pool)
         }
         else Some (cur, bag, pool));
      asserting (\<not> block_isEmpty (hd (bag_blocks bag)));
      if cur = 0
      then Some (False, bag\<lparr>bag_blocks := block_eraseAt ix (hd (bag_blocks bag)) # tl (bag_blocks bag)\<rparr>, pool)
      else do {
        (obj, h) \<leftarrow> block_pop (hd (bag_blocks bag));
        b \<leftarrow> block_replace ix obj (bag_blocks bag ! cur);
        Some (True, bag\<lparr>bag_blocks := (h # tl (bag_blocks bag))[cur := b]\<rparr>, pool)
      }
    }"

definition removeFullBlock :: "'a blockbag \<Rightarrow> ('a block option \<times> 'a blockbag) option" where
  "removeFullBlock bag =
    (case bag_blocks bag of
       h # second # b # bs \<Rightarrow> do {
         asserting (block_computeSize second = BLOCK_SIZE);
         Some (Some second, bag\<lparr>sizeInBlocks := sizeInBlocks bag - 1, bag_blocks := h # b # bs\<rparr>)
       }
     | [] \<Rightarrow> None
     | _ \<Rightarrow> Some (None, bag))"

definition addFullBlock :: "'a block \<Rightarrow> 'a blockbag \<Rightarrow> 'a blockbag option" where
  "addFullBlock b bag =
    do {
      asserting (block_computeSize b = BLOCK_SIZE);
      asserting (bag_blocks bag \<noteq> []);
      Some (bag\<lparr>sizeInBlocks := sizeInBlocks bag + 1, bag_blocks := bag_blocks bag @ [b]\<rparr>)
    }"

text \<open>
  \<open>this\<close> and \<open>other\<close> change together; the result is the pair.  The block \<open>predecessor\<close> is given by its
  position in \<open>other\<close>.
\<close>

definition appendMoveFullBlocksAfter ::
    "'a blockbag \<Rightarrow> 'a blockbag \<Rightarrow> nat \<Rightarrow> ('a blockbag \<times> 'a blockbag) option" where
  "appendMoveFullBlocksAfter this other predecessor =
    do {
      asserting (bag_blocks other \<noteq> [] \<and> predecessor < length (bag_blocks other));
      case drop (Suc predecessor) (bag_blocks other) of
        [] \<Rightarrow> Some (this, other)
      | b # bs \<Rightarrow> do {
          asserting (block_isFull b);
          asserting (bag_blocks this \<noteq> []);
          (let this = this\<lparr>bag_blocks := bag_blocks this @ b # bs\<rparr>;
               this = this\<lparr>sizeInBlocks := int (computeSizeInBlocks this)\<rparr>;
               other = other\<lparr>bag_blocks := take (Suc predecessor) (bag_blocks other)\<rparr>;
               other = other\<lparr>sizeInBlocks := int (computeSizeInBlocks other)\<rparr>
           in Some (this, other))
        }
    }"

definition appendMoveFullBlocks :: "'a blockbag \<Rightarrow> 'a blockbag \<Rightarrow> ('a blockbag \<times> 'a blockbag) option" where
  "appendMoveFullBlocks this other = appendMoveFullBlocksAfter this other 0"

text \<open>Both bags belong to one thread and use its block pool.\<close>

partial_function (option) moveAllLoop ::
    "'a blockbag \<Rightarrow> 'a blockbag \<Rightarrow> blockpool \<Rightarrow> ('a blockbag \<times> 'a blockbag \<times> blockpool) option" where
  "moveAllLoop this other pool =
    (if bag_isEmpty other then Some (this, other, pool)
     else do {
       (obj, other, pool) \<leftarrow> bag_remove other pool;
       (this, pool) \<leftarrow> bag_add obj this pool;
       moveAllLoop this other pool
     })"

definition appendMoveAll ::
    "'a blockbag \<Rightarrow> 'a blockbag \<Rightarrow> blockpool \<Rightarrow> ('a blockbag \<times> 'a blockbag \<times> blockpool) option" where
  "appendMoveAll this other pool =
    do {
      (this, other) \<leftarrow> appendMoveFullBlocks this other;
      (this, other, pool) \<leftarrow> moveAllLoop this other pool;
      Some (this\<lparr>sizeInBlocks := int (computeSizeInBlocks this)\<rparr>, other, pool)
    }"

definition bag_computeSize :: "'a blockbag \<Rightarrow> nat" where
  "bag_computeSize bag = sum_list (map block_computeSize (bag_blocks bag))"

definition computeSizeFast :: "'a blockbag \<Rightarrow> int option" where
  "computeSizeFast bag =
    do { s \<leftarrow> getHeadSize bag; Some ((sizeInBlocks bag - 1) * int BLOCK_SIZE + int s) }"

fun deallocateBlocks :: "'a block list \<Rightarrow> blockpool \<Rightarrow> blockpool option" where
  "deallocateBlocks [] pool = Some pool"
| "deallocateBlocks (b # bs) pool = do { pool \<leftarrow> deallocateBlock (block_clear b) pool; deallocateBlocks bs pool }"

definition clearWithoutFreeingElements :: "'a blockbag \<Rightarrow> blockpool \<Rightarrow> ('a blockbag \<times> blockpool) option" where
  "clearWithoutFreeingElements bag pool =
    (case bag_blocks bag of
       [] \<Rightarrow> None
     | h # bs \<Rightarrow> do {
         pool \<leftarrow> deallocateBlocks bs pool;
         Some (bag\<lparr>sizeInBlocks := 1, bag_blocks := [block_clear h]\<rparr>, pool)
       })"

text \<open>The destructor returns the blocks of an empty bag.\<close>

fun freeBlocks :: "'a block list \<Rightarrow> blockpool \<Rightarrow> blockpool option" where
  "freeBlocks [] pool = Some pool"
| "freeBlocks (b # bs) pool = do { pool \<leftarrow> deallocateBlock b pool; freeBlocks bs pool }"

definition bag_delete :: "'a blockbag \<Rightarrow> blockpool \<Rightarrow> blockpool option" where
  "bag_delete bag pool = do { asserting (bag_isEmpty bag); freeBlocks (bag_blocks bag) pool }"

section \<open>Iteration\<close>

record 'a blockbag_iterator =
  it_curr :: "'a block list"
  it_ix :: int

definition it_next :: "'a blockbag_iterator \<Rightarrow> 'a blockbag_iterator" where
  "it_next it =
    (if it_ix it - 1 < 0
     then case tl (it_curr it) of
            [] \<Rightarrow> \<lparr>it_curr = [], it_ix = -1\<rparr>
          | b # bs \<Rightarrow> \<lparr>it_curr = b # bs, it_ix = int (block_computeSize b) - 1\<rparr>
     else it\<lparr>it_ix := it_ix it - 1\<rparr>)"

definition bag_begin :: "'a blockbag \<Rightarrow> 'a blockbag_iterator" where
  "bag_begin bag =
    (case bag_blocks bag of
       [] \<Rightarrow> \<lparr>it_curr = [], it_ix = -1\<rparr>
     | h # bs \<Rightarrow> it_next \<lparr>it_curr = h # bs, it_ix = int (block_computeSize h)\<rparr>)"

definition bag_end :: "'a blockbag_iterator" where
  "bag_end = \<lparr>it_curr = [], it_ix = -1\<rparr>"

definition it_deref :: "'a blockbag_iterator \<Rightarrow> 'a option" where
  "it_deref it = (case it_curr it of [] \<Rightarrow> None | b # _ \<Rightarrow> block_peek (it_ix it) b)"

partial_function (option) bag_iterate ::
    "('a \<Rightarrow> 's \<Rightarrow> 's option) \<Rightarrow> 'a blockbag_iterator \<Rightarrow> 's \<Rightarrow> 's option" where
  "bag_iterate f it s =
    (if it = bag_end then Some s
     else do { x \<leftarrow> it_deref it; s \<leftarrow> f x s; bag_iterate f (it_next it) s })"

section \<open>Contents and invariant\<close>

text \<open>The invariant is what \<open>validate\<close> asserts; the contents are the records in all blocks.\<close>

named_theorems block_simps \<open>the operations on a block\<close>

lemmas block_defs [block_simps] = block_new_def block_computeSize_def block_isFull_def block_isEmpty_def block_push_def
  block_pop_def block_peek_def block_replace_def block_clear_def block_eraseAt_def asserting_def

lemma BLOCK_SIZE_pos [simp]: "0 < BLOCK_SIZE" "BLOCK_SIZE \<noteq> 0"
  by (simp_all add: BLOCK_SIZE_def)

definition bag_items :: "'a blockbag \<Rightarrow> 'a list" where
  "bag_items bag = concat (map blk_data (bag_blocks bag))"

definition pool_ok :: "blockpool \<Rightarrow> bool" where
  "pool_ok pool \<longleftrightarrow> poolSize pool \<le> MAX_BLOCK_POOL_SIZE"

lemma pool_ok_ops:
  assumes "pool_ok pool"
  shows "pool_ok blockpool_new" and "pool_ok (snd (allocateBlock pool))"
    and "deallocateBlock b pool = Some pool' \<Longrightarrow> pool_ok pool'"
  using assms by (auto simp: pool_ok_def blockpool_new_def allocateBlock_def deallocateBlock_def asserting_def
      split: if_splits)

lemma allocateBlock_new [simp]: "fst (allocateBlock pool) = block_new"
  by (simp add: allocateBlock_def)

lemma validE:
  assumes "bag_validate bag"
  obtains h bs where "bag_blocks bag = h # bs" and "length (blk_data h) \<noteq> BLOCK_SIZE"
    and "\<forall>b\<in>set bs. length (blk_data b) = BLOCK_SIZE" and "sizeInBlocks bag = int (length bs) + 1"
  using assms by (auto simp: bag_validate_def computeSizeInBlocks_def block_simps list_all_iff split: list.splits)

lemma bag_new_spec:
  assumes "pool_ok pool" and "bag_new tid pool = (bag, pool')"
  shows "bag_validate bag" and "bag_items bag = []" and "bag_isEmpty bag" and "pool_ok pool'"
  using assms pool_ok_ops(2)[OF assms(1)]
  by (auto simp: bag_new_def bag_validate_def computeSizeInBlocks_def bag_items_def bag_isEmpty_def block_simps
      allocateBlock_def split: prod.splits if_splits)

lemma bag_isEmpty_iff: "bag_validate bag \<Longrightarrow> bag_isEmpty bag \<longleftrightarrow> bag_items bag = []"
  by (erule validE) (fastforce simp: bag_isEmpty_def bag_items_def block_simps neq_Nil_conv)

text \<open>Blocks hold at most \<open>BLOCK_SIZE\<close> records.\<close>

definition bag_ok :: "'a blockbag \<Rightarrow> bool" where
  "bag_ok bag \<longleftrightarrow> bag_validate bag \<and> (\<forall>b\<in>set (bag_blocks bag). length (blk_data b) \<le> BLOCK_SIZE)"

lemma okE:
  assumes "bag_ok bag"
  obtains h bs where "bag_blocks bag = h # bs" and "length (blk_data h) < BLOCK_SIZE"
    and "\<forall>b\<in>set bs. length (blk_data b) = BLOCK_SIZE" and "sizeInBlocks bag = int (length bs) + 1"
proof (rule validE[of bag])
  show "bag_validate bag" using assms by (simp add: bag_ok_def)
  fix h bs
  assume b: "bag_blocks bag = h # bs" "length (blk_data h) \<noteq> BLOCK_SIZE"
    "\<forall>b\<in>set bs. length (blk_data b) = BLOCK_SIZE" "sizeInBlocks bag = int (length bs) + 1"
  then show thesis using that[of h bs] assms by (simp add: bag_ok_def)
qed

lemma okI:
  assumes "bag_blocks bag = h # bs" and "length (blk_data h) < BLOCK_SIZE"
    and "\<forall>b\<in>set bs. length (blk_data b) = BLOCK_SIZE" and "sizeInBlocks bag = int (length bs) + 1"
  shows "bag_ok bag"
  using assms by (auto simp: bag_ok_def bag_validate_def computeSizeInBlocks_def block_simps list_all_iff)

lemma bag_new_ok: "bag_new tid pool = (bag, pool') \<Longrightarrow> bag_ok bag \<and> bag_items bag = []"
  by (auto simp: bag_new_def bag_items_def block_simps allocateBlock_def intro!: okI split: prod.splits if_splits)

lemma bag_add_spec:
  fixes bag :: "'a blockbag"
  assumes "bag_ok bag" and "pool_ok pool"
  obtains bag' pool' where "bag_add x bag pool = Some (bag', pool')" and "bag_ok bag'"
    and "mset (bag_items bag') = add_mset x (mset (bag_items bag))" and "pool_ok pool'"
proof -
  obtain h bs where b: "bag_blocks bag = h # bs" "length (blk_data h) < BLOCK_SIZE"
      "\<forall>b\<in>set bs. length (blk_data b) = BLOCK_SIZE" "sizeInBlocks bag = int (length bs) + 1"
    by (rule okE[OF assms(1)])
  let ?h = "h\<lparr>blk_data := blk_data h @ [x]\<rparr>"
  show ?thesis
  proof (cases "Suc (length (blk_data h)) = BLOCK_SIZE")
    case True
    obtain p' where p': "(allocateBlock pool :: 'a block \<times> _) = (block_new, p')" "pool_ok p'"
      using pool_ok_ops(2)[OF assms(2)] by (metis allocateBlock_new prod.collapse)
    have "bag_add x bag pool = Some (bag\<lparr>sizeInBlocks := sizeInBlocks bag + 1, bag_blocks := block_new # ?h # bs\<rparr>, p')"
      using b True p' by (simp add: bag_add_def block_simps)
    moreover have "bag_ok (bag\<lparr>sizeInBlocks := sizeInBlocks bag + 1, bag_blocks := block_new # ?h # bs\<rparr>)"
      by (rule okI[of _ block_new "?h # bs"]) (use b True in \<open>auto simp: block_new_def\<close>)
    ultimately show ?thesis using that b p' by (auto simp: bag_items_def block_new_def)
  next
    case False
    have "bag_add x bag pool = Some (bag\<lparr>bag_blocks := ?h # bs\<rparr>, pool)"
      using b False by (simp add: bag_add_def block_simps)
    moreover have "bag_ok (bag\<lparr>bag_blocks := ?h # bs\<rparr>)"
      by (rule okI[of _ ?h bs]) (use b False in auto)
    ultimately show ?thesis using that b assms(2) by (auto simp: bag_items_def)
  qed
qed

lemma mset_butlast_last: "xs \<noteq> [] \<Longrightarrow> add_mset (last xs) (mset (butlast xs)) = mset xs"
  by (metis append_butlast_last_id mset.simps(2) mset_append union_mset_add_mset_right add.right_neutral mset.simps(1))

lemma bag_remove_spec:
  assumes "bag_ok bag" and "pool_ok pool" and "bag_items bag \<noteq> []"
  obtains x bag' pool' where "bag_remove bag pool = Some (x, bag', pool')" and "bag_ok bag'"
    and "mset (bag_items bag) = add_mset x (mset (bag_items bag'))" and "pool_ok pool'"
proof -
  obtain h bs where b: "bag_blocks bag = h # bs" "length (blk_data h) < BLOCK_SIZE"
      "\<forall>b\<in>set bs. length (blk_data b) = BLOCK_SIZE" "sizeInBlocks bag = int (length bs) + 1"
    by (rule okE[OF assms(1)])
  have ne: "\<not> bag_isEmpty bag" using assms(1,3) bag_isEmpty_iff[of bag] by (simp add: bag_ok_def)
  show ?thesis
  proof (cases "blk_data h = []")
    case True
    then obtain c cs where c: "bs = c # cs" using assms(3) b(1) by (cases bs) (auto simp: bag_items_def)
    have l: "length (blk_data c) = BLOCK_SIZE" "blk_data c \<noteq> []" using b(3) c by (auto simp flip: length_greater_0_conv)
    let ?c = "c\<lparr>blk_data := butlast (blk_data c)\<rparr>"
    obtain p' where p': "deallocateBlock h pool = Some p'" using True by (simp add: deallocateBlock_def block_simps)
    have "bag_remove bag pool = Some (last (blk_data c), bag\<lparr>sizeInBlocks := sizeInBlocks bag - 1, bag_blocks := ?c # cs\<rparr>, p')"
      using b(1) c True ne l p' by (simp add: bag_remove_def block_simps)
    moreover have "bag_ok (bag\<lparr>sizeInBlocks := sizeInBlocks bag - 1, bag_blocks := ?c # cs\<rparr>)"
      by (rule okI[of _ ?c cs]) (use b c l in auto)
    moreover have "mset (bag_items bag) =
        add_mset (last (blk_data c)) (mset (bag_items (bag\<lparr>sizeInBlocks := sizeInBlocks bag - 1, bag_blocks := ?c # cs\<rparr>)))"
      using mset_butlast_last[OF l(2)] b(1) c True by (simp add: bag_items_def flip: union_mset_add_mset_left)
    ultimately show ?thesis using that pool_ok_ops(3)[OF assms(2) p'] by blast
  next
    case False
    let ?h = "h\<lparr>blk_data := butlast (blk_data h)\<rparr>"
    have "bag_remove bag pool = Some (last (blk_data h), bag\<lparr>bag_blocks := ?h # bs\<rparr>, pool)"
      using b(1) False ne by (simp add: bag_remove_def block_simps)
    moreover have "bag_ok (bag\<lparr>bag_blocks := ?h # bs\<rparr>)"
      by (rule okI[of _ ?h bs]) (use b False in auto)
    moreover have "mset (bag_items bag) = add_mset (last (blk_data h)) (mset (bag_items (bag\<lparr>bag_blocks := ?h # bs\<rparr>)))"
      using mset_butlast_last[OF False] b(1) by (simp add: bag_items_def flip: union_mset_add_mset_left)
    ultimately show ?thesis using that assms(2) by blast
  qed
qed

lemma computeSizeFast_spec:
  assumes "bag_ok bag"
  shows "computeSizeFast bag = Some (int (length (bag_items bag)))" and "bag_computeSize bag = length (bag_items bag)"
proof -
  obtain h bs where b: "bag_blocks bag = h # bs" "length (blk_data h) < BLOCK_SIZE"
      "\<forall>b\<in>set bs. length (blk_data b) = BLOCK_SIZE" "sizeInBlocks bag = int (length bs) + 1"
    by (rule okE[OF assms])
  have "sum_list (map (length \<circ> blk_data) bs) = length bs * BLOCK_SIZE" using b(3) by (induction bs) auto
  then show "computeSizeFast bag = Some (int (length (bag_items bag)))"
    using b by (simp add: computeSizeFast_def getHeadSize_def bag_items_def length_concat block_simps)
  show "bag_computeSize bag = length (bag_items bag)"
    by (simp add: bag_computeSize_def bag_items_def length_concat block_computeSize_def[abs_def] comp_def)
qed

lemma appendMoveFullBlocks_spec:
  assumes "bag_ok this" and "bag_ok other"
  obtains this' other' where "appendMoveFullBlocks this other = Some (this', other')" and "bag_ok this'" and "bag_ok other'"
    and "mset (bag_items this') + mset (bag_items other') = mset (bag_items this) + mset (bag_items other)"
    and "length (bag_items other') < BLOCK_SIZE"
proof -
  obtain h bs where b: "bag_blocks this = h # bs" "length (blk_data h) < BLOCK_SIZE"
      "\<forall>b\<in>set bs. length (blk_data b) = BLOCK_SIZE" "sizeInBlocks this = int (length bs) + 1"
    by (rule okE[OF assms(1)])
  obtain g cs where c: "bag_blocks other = g # cs" "length (blk_data g) < BLOCK_SIZE"
      "\<forall>b\<in>set cs. length (blk_data b) = BLOCK_SIZE" "sizeInBlocks other = int (length cs) + 1"
    by (rule okE[OF assms(2)])
  show ?thesis
  proof (cases cs)
    case Nil
    then have "appendMoveFullBlocks this other = Some (this, other)"
      using c by (simp add: appendMoveFullBlocks_def appendMoveFullBlocksAfter_def asserting_def)
    then show ?thesis using that assms c(1,2) Nil by (simp add: bag_items_def)
  next
    case (Cons d ds)
    let ?t = "this\<lparr>bag_blocks := h # bs @ cs, sizeInBlocks := int (length bs + length cs) + 1\<rparr>"
    let ?o = "other\<lparr>bag_blocks := [g], sizeInBlocks := 1\<rparr>"
    have "appendMoveFullBlocks this other = Some (?t, ?o)"
      using b c Cons by (simp add: appendMoveFullBlocks_def appendMoveFullBlocksAfter_def block_simps
          computeSizeInBlocks_def Let_def)
    moreover have "bag_ok ?t" by (rule okI[of _ h "bs @ cs"]) (use b c in auto)
    moreover have "bag_ok ?o" by (rule okI[of _ g "[]"]) (use c in auto)
    ultimately show ?thesis using that b(1) c(1,2) by (simp add: bag_items_def)
  qed
qed

lemma moveAllLoop_spec:
  assumes "bag_ok this" and "bag_ok other" and "pool_ok pool"
  shows "\<exists>this' other' pool'. moveAllLoop this other pool = Some (this', other', pool') \<and> bag_ok this' \<and> bag_ok other' \<and>
    bag_items other' = [] \<and> pool_ok pool' \<and>
    mset (bag_items this') = mset (bag_items this) + mset (bag_items other)"
  using assms
proof (induction "length (bag_items other)" arbitrary: this other pool)
  case 0
  then show ?case using bag_isEmpty_iff[of other] by (subst moveAllLoop.simps) (simp add: bag_ok_def)
next
  case (Suc n)
  then have ne: "bag_items other \<noteq> []" by auto
  obtain x o1 p1 where o1: "bag_remove other pool = Some (x, o1, p1)" "bag_ok o1" "pool_ok p1"
      "mset (bag_items other) = add_mset x (mset (bag_items o1))"
    by (rule bag_remove_spec[OF Suc.prems(2,3) ne])
  obtain t1 p2 where t1: "bag_add x this p1 = Some (t1, p2)" "bag_ok t1" "pool_ok p2"
      "mset (bag_items t1) = add_mset x (mset (bag_items this))"
    by (rule bag_add_spec[OF Suc.prems(1) o1(3)])
  have "n = length (bag_items o1)" using Suc.hyps(2) o1(4) by (metis size_mset size_add_mset nat.inject)
  from Suc.hyps(1)[OF this t1(2) o1(2) t1(3)] show ?case
    using o1(1,4) t1(1,4) ne bag_isEmpty_iff[of other] Suc.prems(2)
    by (subst moveAllLoop.simps) (auto simp: bag_ok_def)
qed

lemma appendMoveAll_spec:
  assumes "bag_ok this" and "bag_ok other" and "pool_ok pool"
  shows "\<exists>this' other' pool'. appendMoveAll this other pool = Some (this', other', pool') \<and> bag_ok this' \<and> bag_ok other' \<and>
    bag_items other' = [] \<and> pool_ok pool' \<and>
    mset (bag_items this') = mset (bag_items this) + mset (bag_items other)"
proof -
  obtain t1 o1 where a: "appendMoveFullBlocks this other = Some (t1, o1)" "bag_ok t1" "bag_ok o1"
      "mset (bag_items t1) + mset (bag_items o1) = mset (bag_items this) + mset (bag_items other)"
    by (rule appendMoveFullBlocks_spec[OF assms(1,2)])
  obtain t2 o2 p2 where m: "moveAllLoop t1 o1 pool = Some (t2, o2, p2)" "bag_ok t2" "bag_ok o2" "bag_items o2 = []"
      "pool_ok p2" "mset (bag_items t2) = mset (bag_items t1) + mset (bag_items o1)"
    using moveAllLoop_spec[OF a(2,3) assms(3)] by blast
  have "int (computeSizeInBlocks t2) = sizeInBlocks t2"
    using m(2) by (auto simp: bag_ok_def bag_validate_def split: list.splits)
  then show ?thesis using a m by (simp add: appendMoveAll_def)
qed

lemma removeFullBlock_spec:
  assumes "bag_ok bag"
  obtains r bag' where "removeFullBlock bag = Some (r, bag')" and "bag_ok bag'"
    and "r = None \<longleftrightarrow> sizeInBlocks bag < 3" and "r = None \<Longrightarrow> bag' = bag"
    and "\<And>b. r = Some b \<Longrightarrow> block_isFull b \<and> mset (bag_items bag) = mset (blk_data b) + mset (bag_items bag')"
proof -
  obtain h bs where b: "bag_blocks bag = h # bs" "length (blk_data h) < BLOCK_SIZE"
      "\<forall>b\<in>set bs. length (blk_data b) = BLOCK_SIZE" "sizeInBlocks bag = int (length bs) + 1"
    by (rule okE[OF assms])
  show ?thesis
  proof (cases bs)
    case Nil
    then show ?thesis using that[of None bag] b assms by (simp add: removeFullBlock_def)
  next
    case (Cons c cs)
    note bs = Cons
    show ?thesis
    proof (cases cs)
      case Nil
      then show ?thesis using that[of None bag] b bs assms by (simp add: removeFullBlock_def)
    next
      case (Cons d ds)
      let ?bag = "bag\<lparr>sizeInBlocks := sizeInBlocks bag - 1, bag_blocks := h # d # ds\<rparr>"
      have "removeFullBlock bag = Some (Some c, ?bag)"
        using b bs Cons by (simp add: removeFullBlock_def block_simps)
      moreover have "bag_ok ?bag" by (rule okI[of _ h "d # ds"]) (use b bs Cons in auto)
      ultimately show ?thesis using that b bs Cons by (simp add: bag_items_def block_simps)
    qed
  qed
qed

lemma addFullBlock_spec:
  assumes "bag_ok bag" and "block_isFull b"
  obtains bag' where "addFullBlock b bag = Some bag'" and "bag_ok bag'"
    and "mset (bag_items bag') = mset (blk_data b) + mset (bag_items bag)"
proof -
  obtain h bs where c: "bag_blocks bag = h # bs" "length (blk_data h) < BLOCK_SIZE"
      "\<forall>b\<in>set bs. length (blk_data b) = BLOCK_SIZE" "sizeInBlocks bag = int (length bs) + 1"
    by (rule okE[OF assms(1)])
  let ?bag = "bag\<lparr>sizeInBlocks := sizeInBlocks bag + 1, bag_blocks := bag_blocks bag @ [b]\<rparr>"
  have "addFullBlock b bag = Some ?bag" using assms(2) c(1) by (simp add: addFullBlock_def block_simps)
  moreover have "bag_ok ?bag" by (rule okI[of _ h "bs @ [b]"]) (use c assms(2) in \<open>auto simp: block_simps\<close>)
  ultimately show ?thesis using that by (simp add: bag_items_def)
qed

lemma mset_swap_last:
  assumes "i < length d"
  shows "mset d = add_mset (d ! i) (mset (butlast (if i \<noteq> length d - 1 then d[i := last d] else d)))"
proof -
  have n: "d \<noteq> []" using assms by auto
  show ?thesis
  proof (cases "i = length d - 1")
    case True
    then show ?thesis using mset_butlast_last[OF n] n by (simp add: last_conv_nth)
  next
    case False
    then have i: "i < length (butlast d)" using assms by simp
    have e: "butlast (d[i := last d]) = (butlast d)[i := last d]" using i n by (simp add: butlast_list_update)
    have "mset ((butlast d)[i := last d]) + {#butlast d ! i#} = mset (butlast d) + {#last d#}"
      using i by (simp add: mset_update)
    then show ?thesis
      using False i e mset_butlast_last[OF n] by (simp add: nth_butlast)
  qed
qed

lemma mset_nth_update:
  assumes "n < length bs" and "mset (blk_data b) + Y = mset (blk_data (bs ! n)) + X"
  shows "mset (concat (map blk_data (bs[n := b]))) + Y = mset (concat (map blk_data bs)) + X"
  using assms
proof (induction bs arbitrary: n)
  case (Cons c cs)
  show ?case
  proof (cases n)
    case 0
    then show ?thesis using Cons.prems by (simp add: ac_simps)
  next
    case (Suc m)
    then show ?thesis using Cons by (simp add: ac_simps)
  qed
qed simp

lemma bag_erase_head:
  assumes "bag_ok bag" and "cur < length (bag_blocks bag)" and "ix < length (blk_data (bag_blocks bag ! cur))"
    and "blk_data (hd (bag_blocks bag)) \<noteq> []"
  obtains r bag' where "bag_erase cur ix bag pool = Some (r, bag', pool)" and "bag_ok bag'"
    and "mset (bag_items bag) = add_mset (blk_data (bag_blocks bag ! cur) ! ix) (mset (bag_items bag'))"
proof -
  obtain h bs where b: "bag_blocks bag = h # bs" "length (blk_data h) < BLOCK_SIZE"
      "\<forall>b\<in>set bs. length (blk_data b) = BLOCK_SIZE" "sizeInBlocks bag = int (length bs) + 1"
    by (rule okE[OF assms(1)])
  have ne: "\<not> bag_isEmpty bag" "blk_data (bag_blocks bag ! cur) \<noteq> []"
    using assms(3,4) b(1) by (auto simp: bag_isEmpty_def block_simps)
  show ?thesis
  proof (cases cur)
    case 0
    let ?bag = "bag\<lparr>bag_blocks := block_eraseAt ix h # bs\<rparr>"
    have "bag_erase cur ix bag pool = Some (False, ?bag, pool)"
      using 0 ne assms b(1) by (simp add: bag_erase_def block_isEmpty_def block_computeSize_def asserting_def)
    moreover have "length (blk_data (block_eraseAt ix h)) < BLOCK_SIZE"
      using b(2) by (auto simp: block_eraseAt_def block_computeSize_def Let_def)
    then have "bag_ok ?bag" using okI[of ?bag "block_eraseAt ix h" bs] b by simp
    moreover have "mset (blk_data h) = add_mset (blk_data h ! ix) (mset (blk_data (block_eraseAt ix h)))"
      using mset_swap_last[of ix "blk_data h"] assms(3) 0 b(1)
      by (auto simp: block_eraseAt_def block_computeSize_def Let_def)
    then have "mset (bag_items bag) = add_mset (blk_data (bag_blocks bag ! cur) ! ix) (mset (bag_items ?bag))"
      using 0 b(1) by (simp add: bag_items_def)
    ultimately show ?thesis using that by blast
  next
    case (Suc m)
    let ?c = "bs ! m" and ?x = "last (blk_data h)" and ?h = "h\<lparr>blk_data := butlast (blk_data h)\<rparr>"
    let ?b = "?c\<lparr>blk_data := (blk_data ?c)[ix := ?x]\<rparr>"
    let ?bag = "bag\<lparr>bag_blocks := ?h # bs[m := ?b]\<rparr>"
    have m: "m < length bs" "ix < length (blk_data ?c)" using Suc assms(2,3) b(1) by auto
    have "bag_erase cur ix bag pool = Some (True, ?bag, pool)"
      using Suc ne assms b(1) m by (simp add: bag_erase_def block_simps)
    moreover have "bag_ok ?bag"
      by (rule okI[of _ ?h "bs[m := ?b]"]) (use b m set_update_subset_insert[of bs m ?b] in auto)
    moreover have "mset (concat (map blk_data (bs[m := ?b]))) + {#blk_data ?c ! ix#} =
        mset (concat (map blk_data bs)) + {#?x#}"
      by (rule mset_nth_update[OF m(1)]) (use m(2) in \<open>simp add: mset_update\<close>)
    then have "mset (bag_items bag) = add_mset (blk_data (bag_blocks bag ! cur) ! ix) (mset (bag_items ?bag))"
      using Suc b(1) mset_butlast_last[of "blk_data h"] assms(4)
      by (simp add: bag_items_def) (metis add_mset_add_single union_mset_add_mset_right add.commute)
    ultimately show ?thesis using that by blast
  qed
qed

lemma bag_erase_spec:
  assumes "bag_ok bag" and "pool_ok pool" and "cur < length (bag_blocks bag)"
    and "ix < length (blk_data (bag_blocks bag ! cur))"
  obtains r bag' pool' where "bag_erase cur ix bag pool = Some (r, bag', pool')" and "bag_ok bag'" and "pool_ok pool'"
    and "mset (bag_items bag) = add_mset (blk_data (bag_blocks bag ! cur) ! ix) (mset (bag_items bag'))"
proof (cases "blk_data (hd (bag_blocks bag)) = []")
  case False
  then show ?thesis using bag_erase_head[OF assms(1,3,4) False] that assms(2) by metis
next
  case True
  obtain h bs where b: "bag_blocks bag = h # bs" "length (blk_data h) < BLOCK_SIZE"
      "\<forall>b\<in>set bs. length (blk_data b) = BLOCK_SIZE" "sizeInBlocks bag = int (length bs) + 1"
    by (rule okE[OF assms(1)])
  have h: "blk_data h = []" using True b(1) by simp
  obtain m where m: "cur = Suc m" "m < length bs" using assms(3,4) b(1) h by (cases cur) auto
  then obtain c cs where c: "bs = c # cs" "blk_data c \<noteq> []" using b(3) by (cases bs) (auto simp flip: length_greater_0_conv)
  let ?bag = "bag\<lparr>sizeInBlocks := sizeInBlocks bag - 1, bag_blocks := bs\<rparr>"
  obtain p' where p': "deallocateBlock h pool = Some p'" using h by (simp add: deallocateBlock_def block_simps)
  have l: "length (blk_data c) = BLOCK_SIZE" "ix < length (blk_data (bs ! m))" using b c m assms(4) by auto
  show ?thesis
  proof (cases m)
    case 0
    let ?d = "block_eraseAt ix c" and ?bag' = "bag\<lparr>sizeInBlocks := sizeInBlocks bag - 1, bag_blocks := block_eraseAt ix c # cs\<rparr>"
    have "bag_erase cur ix bag pool = Some (False, ?bag', p')"
      using 0 m b(1) c h p' by (simp add: bag_erase_def bag_isEmpty_def block_isEmpty_def block_computeSize_def asserting_def)
    moreover have "length (blk_data ?d) < BLOCK_SIZE"
      using l c(2) by (auto simp: block_eraseAt_def block_computeSize_def Let_def)
    then have "bag_ok ?bag'" using okI[of ?bag' ?d cs] b c by simp
    moreover have "mset (blk_data c) = add_mset (blk_data c ! ix) (mset (blk_data ?d))"
      using mset_swap_last[of ix "blk_data c"] l 0 c by (auto simp: block_eraseAt_def block_computeSize_def Let_def)
    ultimately show ?thesis
      using that[of False ?bag' p'] pool_ok_ops(3)[OF assms(2) p'] 0 m b(1) c h by (simp add: bag_items_def)
  next
    case (Suc k)
    let ?e = "bs ! m" and ?x = "last (blk_data c)" and ?c = "c\<lparr>blk_data := butlast (blk_data c)\<rparr>"
    let ?b = "?e\<lparr>blk_data := (blk_data ?e)[ix := ?x]\<rparr>"
    let ?bag' = "bag\<lparr>sizeInBlocks := sizeInBlocks bag - 1, bag_blocks := ?c # cs[k := ?b]\<rparr>"
    have k: "k < length cs" "?e = cs ! k" using m c Suc by auto
    have "bag_erase cur ix bag pool = Some (True, ?bag', p')"
      using m Suc b(1) c h p' k l by (cases "blk_data (cs ! k)") (auto simp: bag_erase_def bag_isEmpty_def block_simps)
    moreover have "bag_ok ?bag'"
      by (rule okI[of _ ?c "cs[k := ?b]"])
        (use b c l k set_update_subset_insert[of cs k ?b] in \<open>auto simp flip: length_greater_0_conv\<close>)
    moreover have "mset (concat (map blk_data (cs[k := ?b]))) + {#blk_data ?e ! ix#} =
        mset (concat (map blk_data cs)) + {#?x#}"
      by (rule mset_nth_update[OF k(1)]) (use l(2) k(2) in \<open>simp add: mset_update\<close>)
    then have "mset (bag_items bag) = add_mset (blk_data (bag_blocks bag ! cur) ! ix) (mset (bag_items ?bag'))"
      using m b(1) c h mset_butlast_last[of "blk_data c"]
      by (simp add: bag_items_def) (metis add_mset_add_single union_mset_add_mset_right add.commute)
    ultimately show ?thesis using that[of True ?bag' p'] pool_ok_ops(3)[OF assms(2) p'] by blast
  qed
qed

subsection \<open>Iteration visits every record once\<close>

fun foldo :: "('a \<Rightarrow> 's \<Rightarrow> 's option) \<Rightarrow> 'a list \<Rightarrow> 's \<Rightarrow> 's option" where
  "foldo f [] s = Some s"
| "foldo f (x # xs) s = do { s \<leftarrow> f x s; foldo f xs s }"

definition bag_order :: "'a block list \<Rightarrow> 'a list" where
  "bag_order bs = concat (map (\<lambda>b. rev (blk_data b)) bs)"

lemma bag_iterate_inner:
  assumes "n < length (blk_data b)" and "bag_iterate f (it_next \<lparr>it_curr = b # bs, it_ix = 0\<rparr>) = foldo f ys"
  shows "bag_iterate f \<lparr>it_curr = b # bs, it_ix = int n\<rparr> = foldo f (rev (take (Suc n) (blk_data b)) @ ys)"
  using assms(1)
proof (induction n)
  case 0
  then show ?case
    using assms(2) by (intro ext, subst bag_iterate.simps)
      (simp add: bag_end_def it_deref_def block_simps take_Suc_conv_app_nth)
next
  case (Suc n)
  have "it_next \<lparr>it_curr = b # bs, it_ix = int (Suc n)\<rparr> = \<lparr>it_curr = b # bs, it_ix = int n\<rparr>"
    by (simp add: it_next_def)
  moreover have "it_deref \<lparr>it_curr = b # bs, it_ix = int (Suc n)\<rparr> = Some (blk_data b ! Suc n)"
    using Suc.prems by (simp add: it_deref_def block_peek_def block_computeSize_def asserting_def del: of_nat_Suc)
  ultimately show ?case
    using Suc by (intro ext, subst bag_iterate.simps)
      (simp add: bag_end_def take_Suc_conv_app_nth[of "Suc n"] del: of_nat_Suc)
qed

lemma bag_iterate_block:
  assumes "\<forall>b\<in>set bs. blk_data b \<noteq> []" and "n < length (blk_data b)"
  shows "bag_iterate f \<lparr>it_curr = b # bs, it_ix = int n\<rparr> = foldo f (rev (take (Suc n) (blk_data b)) @ bag_order bs)"
  using assms
proof (induction bs arbitrary: b n)
  case Nil
  have "bag_iterate f (it_next \<lparr>it_curr = [b], it_ix = 0\<rparr>) = foldo f (bag_order [])"
    by (intro ext, subst bag_iterate.simps) (simp add: it_next_def bag_end_def bag_order_def)
  then show ?case by (rule bag_iterate_inner[OF Nil.prems(2)])
next
  case (Cons c cs)
  have "length (blk_data c) - 1 < length (blk_data c)" using Cons.prems(1) by simp
  from Cons.IH[OF _ this] Cons.prems(1)
  have "bag_iterate f (it_next \<lparr>it_curr = b # c # cs, it_ix = 0\<rparr>) = foldo f (bag_order (c # cs))"
    by (simp add: it_next_def block_simps bag_order_def of_nat_diff Suc_le_eq)
  then show ?case by (rule bag_iterate_inner[OF Cons.prems(2)])
qed

lemma bag_iterate_spec:
  assumes "bag_ok bag"
  shows "bag_iterate f (bag_begin bag) s = foldo f (bag_order (bag_blocks bag)) s"
    and "mset (bag_order (bag_blocks bag)) = mset (bag_items bag)"
proof -
  obtain h bs where b: "bag_blocks bag = h # bs" "length (blk_data h) < BLOCK_SIZE"
      "\<forall>b\<in>set bs. length (blk_data b) = BLOCK_SIZE" "sizeInBlocks bag = int (length bs) + 1"
    by (rule okE[OF assms])
  have ne: "\<forall>b\<in>set bs. blk_data b \<noteq> []" using b(3) by (auto simp flip: length_greater_0_conv)
  have e: "bag_iterate f \<lparr>it_curr = [], it_ix = -1\<rparr> s = Some s"
    by (subst bag_iterate.simps) (simp add: bag_end_def)
  show "bag_iterate f (bag_begin bag) s = foldo f (bag_order (bag_blocks bag)) s"
  proof (cases "blk_data h = []")
    case True
    then show ?thesis
      using b(1) e ne bag_iterate_block[of "tl bs" "length (blk_data (hd bs)) - 1" "hd bs" f]
      by (cases bs) (auto simp: bag_begin_def it_next_def block_simps bag_order_def of_nat_diff Suc_le_eq)
  next
    case False
    then show ?thesis
      using b(1) bag_iterate_block[OF ne, of "length (blk_data h) - 1" h f]
      by (cases "blk_data h") (auto simp: bag_begin_def it_next_def block_simps bag_order_def)
  qed
  show "mset (bag_order (bag_blocks bag)) = mset (bag_items bag)"
    by (simp add: bag_order_def bag_items_def mset_concat comp_def)
qed

lemma bag_delete_spec:
  assumes "bag_ok bag" and "bag_items bag = []" and "pool_ok pool"
  obtains pool' where "bag_delete bag pool = Some pool'" and "pool_ok pool'"
proof -
  have e: "bag_isEmpty bag" using assms(1,2) bag_isEmpty_iff[of bag] by (simp add: bag_ok_def)
  then obtain h where h: "bag_blocks bag = [h]" "block_isEmpty h" by (auto simp: bag_isEmpty_def split: list.splits)
  then obtain p where p: "deallocateBlock h pool = Some p" by (simp add: deallocateBlock_def asserting_def)
  show ?thesis using that[of p] pool_ok_ops(3)[OF assms(3) p] p e h by (simp add: bag_delete_def asserting_def)
qed

section \<open>The interface of a bag\<close>

text \<open>
  What the pools and the reclaimer rely on: a bag keeps every record it is given until it hands it out,
  and hands out nothing else.
\<close>

record ('a, 'b) bag_ops =
  b_add :: "'a \<Rightarrow> 'b \<Rightarrow> 'b option"
  b_remove :: "'b \<Rightarrow> ('a \<times> 'b) option"
  b_isEmpty :: "'b \<Rightarrow> bool"

datatype 'a bag_op = BAdd 'a | BRemove

fun bag_run :: "('a, 'b) bag_ops \<Rightarrow> 'a bag_op list \<Rightarrow> 'b \<Rightarrow> ('a list \<times> 'b) option" where
  "bag_run B [] b = Some ([], b)"
| "bag_run B (BAdd x # as) b = do { b \<leftarrow> b_add B x b; bag_run B as b }"
| "bag_run B (BRemove # as) b =
    (if b_isEmpty B b then bag_run B as b
     else do { (x, b) \<leftarrow> b_remove B b; (xs, b) \<leftarrow> bag_run B as b; Some (x # xs, b) })"

fun added :: "'a bag_op list \<Rightarrow> 'a list" where
  "added [] = []"
| "added (BAdd x # as) = x # added as"
| "added (BRemove # as) = added as"

locale record_bag =
  fixes B :: "('a, 'b) bag_ops" and ok :: "'b \<Rightarrow> bool" and content :: "'b \<Rightarrow> 'a multiset"
  assumes badd_law: "ok b \<Longrightarrow> \<exists>b'. b_add B x b = Some b' \<and> ok b' \<and> content b' = add_mset x (content b)"
    and bremove_law: "ok b \<Longrightarrow> content b \<noteq> {#} \<Longrightarrow>
      \<exists>x b'. b_remove B b = Some (x, b') \<and> ok b' \<and> content b = add_mset x (content b')"
    and bempty_law: "ok b \<Longrightarrow> b_isEmpty B b \<longleftrightarrow> content b = {#}"
begin

lemma bag_run_conserves:
  assumes "ok b"
  shows "\<exists>xs b'. bag_run B as b = Some (xs, b') \<and> ok b' \<and> content b + mset (added as) = mset xs + content b'"
  using assms
proof (induction as arbitrary: b rule: added.induct)
  case (2 x as)
  obtain b1 where "b_add B x b = Some b1" "ok b1" "content b1 = add_mset x (content b)"
    using badd_law[OF 2(2), of x] by blast
  then show ?case using 2(1)[of b1] by auto
next
  case (3 as)
  show ?case
  proof (cases "content b = {#}")
    case True
    then show ?thesis using 3(1)[OF 3(2)] bempty_law[OF 3(2)] by simp
  next
    case False
    obtain x b1 where b1: "b_remove B b = Some (x, b1)" "ok b1" "content b = add_mset x (content b1)"
      using bremove_law[OF 3(2) False] by blast
    obtain xs b' where "bag_run B as b1 = Some (xs, b')" "ok b'" "content b1 + mset (added as) = mset xs + content b'"
      using 3(1)[OF b1(2)] by blast
    then show ?thesis using b1 False bempty_law[OF 3(2)] by auto
  qed
qed simp

text \<open>A loop that removes records until the bag is empty returns, and has met exactly the contents.\<close>

lemma drains:
  assumes loop: "\<And>b s. F b s = (if b_isEmpty B b then Some (b, s) else do { (x, b) \<leftarrow> b_remove B b; F b (g x s) })"
    and "ok b"
  shows "\<exists>xs b'. F b s = Some (b', fold g xs s) \<and> mset xs = content b \<and> ok b' \<and> content b' = {#}"
  using assms(2)
proof (induction "size (content b)" arbitrary: b s)
  case 0
  then show ?case using bempty_law[of b] by (subst loop) (auto intro!: exI[of _ "[]"])
next
  case (Suc n)
  then have ne: "content b \<noteq> {#}" by auto
  obtain x b1 where b1: "b_remove B b = Some (x, b1)" "ok b1" "content b = add_mset x (content b1)"
    using bremove_law[OF Suc.prems ne] by blast
  then obtain xs b' where "F b1 (g x s) = Some (b', fold g xs (g x s))" "mset xs = content b1" "ok b'" "content b' = {#}"
    using Suc.hyps(1)[of b1 "g x s"] Suc.hyps(2) by auto
  then show ?case using b1 ne bempty_law[OF Suc.prems] by (subst loop) (auto intro!: exI[of _ "x # xs"])
qed

end

definition blockbag_ops :: "('a, 'a blockbag \<times> blockpool) bag_ops" where
  "blockbag_ops = \<lparr>b_add = (\<lambda>x (bag, pool). bag_add x bag pool),
     b_remove = (\<lambda>(bag, pool). map_option (\<lambda>(x, bag, pool). (x, (bag, pool))) (bag_remove bag pool)),
     b_isEmpty = (\<lambda>(bag, pool). bag_isEmpty bag)\<rparr>"

interpretation bb: record_bag blockbag_ops "\<lambda>(bag, pool). bag_ok bag \<and> pool_ok pool" "\<lambda>(bag, pool). mset (bag_items bag)"
proof
  fix b :: "'a blockbag \<times> blockpool" and x :: 'a
  assume ok: "case b of (bag, pool) \<Rightarrow> bag_ok bag \<and> pool_ok pool"
  obtain bag pool where b: "b = (bag, pool)" "bag_ok bag" "pool_ok pool" using ok by (cases b) auto
  show "\<exists>b'. b_add blockbag_ops x b = Some b' \<and> (case b' of (bag, pool) \<Rightarrow> bag_ok bag \<and> pool_ok pool) \<and>
      (case b' of (bag, pool) \<Rightarrow> mset (bag_items bag)) = add_mset x (case b of (bag, pool) \<Rightarrow> mset (bag_items bag))"
    using bag_add_spec[OF b(2,3), of x] by (fastforce simp: blockbag_ops_def b(1))
  show "b_isEmpty blockbag_ops b \<longleftrightarrow> (case b of (bag, pool) \<Rightarrow> mset (bag_items bag)) = {#}"
    using bag_isEmpty_iff[of bag] b by (simp add: blockbag_ops_def bag_ok_def)
next
  fix b :: "'a blockbag \<times> blockpool"
  assume ok: "case b of (bag, pool) \<Rightarrow> bag_ok bag \<and> pool_ok pool"
    and ne: "(case b of (bag, pool) \<Rightarrow> mset (bag_items bag)) \<noteq> {#}"
  obtain bag pool where b: "b = (bag, pool)" "bag_ok bag" "pool_ok pool" "bag_items bag \<noteq> []"
    using ok ne by (cases b) auto
  obtain x bag' pool' where "bag_remove bag pool = Some (x, bag', pool')" "bag_ok bag'" "pool_ok pool'"
      "mset (bag_items bag) = add_mset x (mset (bag_items bag'))"
    by (rule bag_remove_spec[OF b(2,3,4)])
  then show "\<exists>x b'. b_remove blockbag_ops b = Some (x, b') \<and> (case b' of (bag, pool) \<Rightarrow> bag_ok bag \<and> pool_ok pool) \<and>
      (case b of (bag, pool) \<Rightarrow> mset (bag_items bag)) = add_mset x (case b' of (bag, pool) \<Rightarrow> mset (bag_items bag))"
    by (auto simp: blockbag_ops_def b(1))
qed

end
