(* ===== verification/Record_Pool.thy ===== *)
theory Record_Pool
  imports Block_Bag
begin

text \<open>
  The allocator over \<open>new\<close> and \<open>delete\<close> (\<open>allocator_new.h\<close>), the pool that frees at once
  (\<open>pool_none.h\<close>) and the pool that keeps records for reuse (\<open>pool_perthread_and_shared.h\<close>) with the
  operations of a bag that exchange full blocks with the other threads.
\<close>

section \<open>The allocator\<close>

text \<open>\<open>al_fresh\<close> stands for the objects that \<open>new\<close> hands out, \<open>al_freed\<close> lists what was deleted.\<close>

record 'a allocator_new =
  al_fresh :: "nat \<Rightarrow> 'a"
  al_next :: nat
  al_freed :: "'a list"

definition allocate :: "'a allocator_new \<Rightarrow> 'a \<times> 'a allocator_new" where
  "allocate al = (al_fresh al (al_next al), al\<lparr>al_next := Suc (al_next al)\<rparr>)"

definition deallocate :: "'a \<Rightarrow> 'a allocator_new \<Rightarrow> 'a allocator_new" where
  "deallocate p al = al\<lparr>al_freed := p # al_freed al\<rparr>"

partial_function (option) deallocateAndClear ::
    "'a blockbag \<Rightarrow> blockpool \<Rightarrow> 'a allocator_new \<Rightarrow> ('a blockbag \<times> blockpool \<times> 'a allocator_new) option" where
  "deallocateAndClear bag pool al =
    (if bag_isEmpty bag then Some (bag, pool, al)
     else do {
       (ptr, bag, pool) \<leftarrow> bag_remove bag pool;
       deallocateAndClear bag pool (deallocate ptr al)
     })"

lemma fold_deallocate:
  "al_freed (fold deallocate xs al) = rev xs @ al_freed al"
  "al_fresh (fold deallocate xs al) = al_fresh al" "al_next (fold deallocate xs al) = al_next al"
  by (induction xs arbitrary: al) (auto simp: deallocate_def)

lemma deallocateAndClear_spec:
  assumes "bag_ok bag" and "pool_ok pool"
  obtains bag' pool' al' where "deallocateAndClear bag pool al = Some (bag', pool', al')" and "bag_ok bag'"
    and "bag_items bag' = []" and "pool_ok pool'" and "mset (al_freed al') = mset (bag_items bag) + mset (al_freed al)"
    and "al_next al' = al_next al" and "al_fresh al' = al_fresh al"
proof -
  let ?F = "\<lambda>(bag, pool) al. map_option (\<lambda>(bag, pool, al). ((bag, pool), al)) (deallocateAndClear bag pool al)"
  have loop: "?F b s = (if b_isEmpty blockbag_ops b then Some (b, s)
      else do { (x, b) \<leftarrow> b_remove blockbag_ops b; ?F b (deallocate x s) })" for b s
    using deallocateAndClear.simps[of "fst b" "snd b" s]
    by (cases b; cases "bag_remove (fst b) (snd b)") (auto simp: blockbag_ops_def)
  obtain xs b' where "?F (bag, pool) al = Some (b', fold deallocate xs al)" "mset xs = mset (bag_items bag)"
      "case b' of (bag, pool) \<Rightarrow> bag_ok bag \<and> pool_ok pool" "(case b' of (bag, pool) \<Rightarrow> mset (bag_items bag)) = {#}"
    using bb.drains[of ?F deallocate "(bag, pool)" al, OF loop] assms by auto
  then show ?thesis using that fold_deallocate[of xs al] by (auto split: prod.splits)
qed

section \<open>No pool\<close>

definition pool_none_get :: "'a allocator_new \<Rightarrow> 'a \<times> 'a allocator_new" where
  "pool_none_get al = allocate al"

definition pool_none_add :: "'a \<Rightarrow> 'a allocator_new \<Rightarrow> 'a allocator_new" where
  "pool_none_add ptr al = deallocate ptr al"

definition pool_none_addMoveFullBlocks ::
    "'a blockbag \<Rightarrow> blockpool \<Rightarrow> 'a allocator_new \<Rightarrow> ('a blockbag \<times> blockpool \<times> 'a allocator_new) option" where
  "pool_none_addMoveFullBlocks bag pool al = deallocateAndClear bag pool al"

definition pool_none_addMoveAll ::
    "'a blockbag \<Rightarrow> blockpool \<Rightarrow> 'a allocator_new \<Rightarrow> ('a blockbag \<times> blockpool \<times> 'a allocator_new) option" where
  "pool_none_addMoveAll bag pool al = deallocateAndClear bag pool al"

section \<open>Bags that exchange blocks\<close>

definition bag_add_shared ::
    "'a \<Rightarrow> int \<Rightarrow> 'a blockbag \<Rightarrow> blockpool \<Rightarrow> 'a lockfreeblockbag \<Rightarrow>
     ('a blockbag \<times> blockpool \<times> 'a lockfreeblockbag) option" where
  "bag_add_shared obj thresh bag pool sharedBag =
    (case bag_blocks bag of
       [] \<Rightarrow> None
     | h # bs \<Rightarrow> do {
         h \<leftarrow> block_push obj h;
         if block_isFull h
         then let (newblock, pool) = allocateBlock pool;
                  bag = bag\<lparr>sizeInBlocks := sizeInBlocks bag + 1, bag_blocks := newblock # h # bs\<rparr>
              in if sizeInBlocks bag > thresh
                 then do {
                   (b, bag) \<leftarrow> removeFullBlock bag;
                   b \<leftarrow> b;
                   Some (bag, pool, addBlock b sharedBag)
                 }
                 else Some (bag, pool, sharedBag)
         else Some (bag\<lparr>bag_blocks := h # bs\<rparr>, pool, sharedBag)
       })"

fun add_fresh :: "nat \<Rightarrow> 'a blockbag \<Rightarrow> blockpool \<Rightarrow> 'a allocator_new \<Rightarrow>
    ('a blockbag \<times> blockpool \<times> 'a allocator_new) option" where
  "add_fresh 0 bag pool al = Some (bag, pool, al)"
| "add_fresh (Suc n) bag pool al =
    (let (x, al) = allocate al in do { (bag, pool) \<leftarrow> bag_add x bag pool; add_fresh n bag pool al })"

definition bag_remove_shared ::
    "'a blockbag \<Rightarrow> blockpool \<Rightarrow> 'a lockfreeblockbag \<Rightarrow> 'a allocator_new \<Rightarrow>
     ('a \<times> 'a blockbag \<times> blockpool \<times> 'a lockfreeblockbag \<times> 'a allocator_new) option" where
  "bag_remove_shared bag pool sharedBag al =
    (case bag_blocks bag of
       [] \<Rightarrow> None
     | h # bs \<Rightarrow>
         if block_isEmpty h
         then case bs of
                b # bs' \<Rightarrow> do {
                  (result, b) \<leftarrow> block_pop b;
                  pool \<leftarrow> deallocateBlock h pool;
                  Some (result, bag\<lparr>sizeInBlocks := sizeInBlocks bag - 1, bag_blocks := b # bs'\<rparr>, pool, sharedBag, al)
                }
              | [] \<Rightarrow>
                  (case getBlock sharedBag of
                     (Some b, sharedBag) \<Rightarrow> do {
                       bag \<leftarrow> addFullBlock b bag;
                       (result, bag, pool) \<leftarrow> bag_remove bag pool;
                       Some (result, bag, pool, sharedBag, al)
                     }
                   | (None, sharedBag) \<Rightarrow> do {
                       (bag, pool, al) \<leftarrow> add_fresh BLOCK_SIZE bag pool al;
                       asserting (sizeInBlocks bag > 1);
                       (result, bag, pool) \<leftarrow> bag_remove bag pool;
                       Some (result, bag, pool, sharedBag, al)
                     })
         else do {
           (result, h) \<leftarrow> block_pop h;
           Some (result, bag\<lparr>bag_blocks := h # bs\<rparr>, pool, sharedBag, al)
         })"

section \<open>The pool that keeps records\<close>

abbreviation (input) POOL_THRESHOLD_IN_BLOCKS :: int where "POOL_THRESHOLD_IN_BLOCKS \<equiv> 10"

record 'a perthread_pool =
  pp_freeBag :: "nat \<Rightarrow> 'a blockbag"
  pp_blockpools :: "nat \<Rightarrow> blockpool"
  pp_sharedBag :: "'a lockfreeblockbag"
  pp_alloc :: "'a allocator_new"

definition pp_set :: "nat \<Rightarrow> 'a blockbag \<Rightarrow> blockpool \<Rightarrow> 'a perthread_pool \<Rightarrow> 'a perthread_pool" where
  "pp_set tid bag pool P = P\<lparr>pp_freeBag := (pp_freeBag P)(tid := bag), pp_blockpools := (pp_blockpools P)(tid := pool)\<rparr>"

definition tryGiveFreeObjects :: "nat \<Rightarrow> 'a perthread_pool \<Rightarrow> (bool \<times> 'a perthread_pool) option" where
  "tryGiveFreeObjects tid P =
    (if sizeInBlocks (pp_freeBag P tid) \<ge> POOL_THRESHOLD_IN_BLOCKS
     then do {
       (b, bag) \<leftarrow> removeFullBlock (pp_freeBag P tid);
       b \<leftarrow> b;
       Some (True, P\<lparr>pp_freeBag := (pp_freeBag P)(tid := bag), pp_sharedBag := addBlock b (pp_sharedBag P)\<rparr>)
     }
     else Some (False, P))"

partial_function (option) giveLoop :: "nat \<Rightarrow> 'a perthread_pool \<Rightarrow> 'a perthread_pool option" where
  "giveLoop tid P = do { (b, P) \<leftarrow> tryGiveFreeObjects tid P; if b then giveLoop tid P else Some P }"

definition pp_get :: "nat \<Rightarrow> 'a perthread_pool \<Rightarrow> ('a \<times> 'a perthread_pool) option" where
  "pp_get tid P =
    do {
      (x, bag, pool, sh, al) \<leftarrow> bag_remove_shared (pp_freeBag P tid) (pp_blockpools P tid) (pp_sharedBag P) (pp_alloc P);
      Some (x, (pp_set tid bag pool P)\<lparr>pp_sharedBag := sh, pp_alloc := al\<rparr>)
    }"

definition pp_add :: "nat \<Rightarrow> 'a \<Rightarrow> 'a perthread_pool \<Rightarrow> 'a perthread_pool option" where
  "pp_add tid ptr P =
    do {
      (bag, pool, sh) \<leftarrow> bag_add_shared ptr POOL_THRESHOLD_IN_BLOCKS (pp_freeBag P tid) (pp_blockpools P tid) (pp_sharedBag P);
      Some ((pp_set tid bag pool P)\<lparr>pp_sharedBag := sh\<rparr>)
    }"

definition pp_addMoveFullBlocks ::
    "nat \<Rightarrow> 'a blockbag \<Rightarrow> 'a perthread_pool \<Rightarrow> ('a blockbag \<times> 'a perthread_pool) option" where
  "pp_addMoveFullBlocks tid bag P =
    do {
      (this, bag) \<leftarrow> appendMoveFullBlocks (pp_freeBag P tid) bag;
      P \<leftarrow> giveLoop tid (P\<lparr>pp_freeBag := (pp_freeBag P)(tid := this)\<rparr>);
      Some (bag, P)
    }"

definition pp_addMoveAll ::
    "nat \<Rightarrow> 'a blockbag \<Rightarrow> 'a perthread_pool \<Rightarrow> ('a blockbag \<times> 'a perthread_pool) option" where
  "pp_addMoveAll tid bag P =
    do {
      (this, bag, pool) \<leftarrow> appendMoveAll (pp_freeBag P tid) bag (pp_blockpools P tid);
      P \<leftarrow> giveLoop tid (pp_set tid this pool P);
      Some (bag, P)
    }"

definition pp_computeSize :: "nat \<Rightarrow> 'a perthread_pool \<Rightarrow> nat" where
  "pp_computeSize tid P = bag_computeSize (pp_freeBag P tid)"

fun new_bags :: "nat \<Rightarrow> 'a perthread_pool \<Rightarrow> 'a perthread_pool" where
  "new_bags 0 P = P"
| "new_bags (Suc n) P =
    (let P = new_bags n P; (bag, pool) = bag_new n (pp_blockpools P n) in pp_set n bag pool P)"

definition pp_new :: "nat \<Rightarrow> 'a allocator_new \<Rightarrow> 'a perthread_pool" where
  "pp_new numProcesses al =
    new_bags numProcesses \<lparr>pp_freeBag = (\<lambda>_. fst (bag_new 0 blockpool_new)), pp_blockpools = (\<lambda>_. blockpool_new),
      pp_sharedBag = lockfreeblockbag_new, pp_alloc = al\<rparr>"

section \<open>The pool loses and invents nothing\<close>

definition shared_items :: "'a lockfreeblockbag \<Rightarrow> 'a list" where
  "shared_items s = concat (map blk_data (lf_head s))"

definition pp_ok :: "nat \<Rightarrow> 'a perthread_pool \<Rightarrow> bool" where
  "pp_ok tid P \<longleftrightarrow> bag_ok (pp_freeBag P tid) \<and> pool_ok (pp_blockpools P tid) \<and> list_all block_isFull (lf_head (pp_sharedBag P))"

definition pp_content :: "nat \<Rightarrow> 'a perthread_pool \<Rightarrow> 'a multiset" where
  "pp_content tid P = mset (bag_items (pp_freeBag P tid)) + mset (shared_items (pp_sharedBag P))"

lemma addBlock_items: "mset (shared_items (addBlock b s)) = mset (blk_data b) + mset (shared_items s)"
  by (simp add: shared_items_def addBlock_def)

lemma tryGive_spec:
  assumes "pp_ok tid P"
  obtains b P' where "tryGiveFreeObjects tid P = Some (b, P')" and "pp_ok tid P'" and "pp_content tid P' = pp_content tid P"
    and "pp_alloc P' = pp_alloc P" and "b \<longleftrightarrow> POOL_THRESHOLD_IN_BLOCKS \<le> sizeInBlocks (pp_freeBag P tid)"
    and "b \<Longrightarrow> sizeInBlocks (pp_freeBag P' tid) < sizeInBlocks (pp_freeBag P tid)" and "\<not> b \<Longrightarrow> P' = P"
proof (cases "POOL_THRESHOLD_IN_BLOCKS \<le> sizeInBlocks (pp_freeBag P tid)")
  case False
  then show ?thesis using that[of False P] assms by (simp add: tryGiveFreeObjects_def)
next
  case True
  have ok: "bag_ok (pp_freeBag P tid)" using assms by (simp add: pp_ok_def)
  obtain r bag' where r: "removeFullBlock (pp_freeBag P tid) = Some (r, bag')" "bag_ok bag'"
      "r = None \<longleftrightarrow> sizeInBlocks (pp_freeBag P tid) < 3" "r = None \<Longrightarrow> bag' = pp_freeBag P tid"
      "\<And>b. r = Some b \<Longrightarrow> block_isFull b \<and> mset (bag_items (pp_freeBag P tid)) = mset (blk_data b) + mset (bag_items bag')"
    by (rule removeFullBlock_spec[OF ok]) blast
  then obtain b where b: "r = Some b" using True by fastforce
  have sz: "sizeInBlocks bag' < sizeInBlocks (pp_freeBag P tid)"
    using r(1) b by (auto simp: removeFullBlock_def asserting_def split: list.splits if_splits)
  let ?P = "P\<lparr>pp_freeBag := (pp_freeBag P)(tid := bag'), pp_sharedBag := addBlock b (pp_sharedBag P)\<rparr>"
  have "tryGiveFreeObjects tid P = Some (True, ?P)" using True r(1) b by (simp add: tryGiveFreeObjects_def)
  moreover have "pp_ok tid ?P" using assms r(2) r(5)[OF b] by (simp add: pp_ok_def addBlock_def)
  moreover have "pp_content tid ?P = pp_content tid P"
    using r(5)[OF b] by (simp add: pp_content_def addBlock_items ac_simps)
  ultimately show ?thesis using that True sz by simp
qed

lemma giveLoop_spec:
  assumes "pp_ok tid P"
  shows "\<exists>P'. giveLoop tid P = Some P' \<and> pp_ok tid P' \<and> pp_content tid P' = pp_content tid P \<and> pp_alloc P' = pp_alloc P \<and>
    sizeInBlocks (pp_freeBag P' tid) < POOL_THRESHOLD_IN_BLOCKS"
  using assms
proof (induction "nat (sizeInBlocks (pp_freeBag P tid))" arbitrary: P rule: less_induct)
  case less
  obtain b P1 where P1: "tryGiveFreeObjects tid P = Some (b, P1)" "pp_ok tid P1" "pp_content tid P1 = pp_content tid P"
      "pp_alloc P1 = pp_alloc P" "b \<longleftrightarrow> POOL_THRESHOLD_IN_BLOCKS \<le> sizeInBlocks (pp_freeBag P tid)"
      "b \<Longrightarrow> sizeInBlocks (pp_freeBag P1 tid) < sizeInBlocks (pp_freeBag P tid)" "\<not> b \<Longrightarrow> P1 = P"
    by (rule tryGive_spec[OF less.prems]) blast
  show ?case
  proof (cases b)
    case True
    then have "nat (sizeInBlocks (pp_freeBag P1 tid)) < nat (sizeInBlocks (pp_freeBag P tid))" using P1(5,6) by auto
    from less.hyps[OF this P1(2)] show ?thesis using True P1 by (subst giveLoop.simps) auto
  next
    case False
    then show ?thesis using P1 by (subst giveLoop.simps) auto
  qed
qed

lemma pp_add_spec:
  assumes "pp_ok tid P"
  shows "\<exists>P'. pp_add tid x P = Some P' \<and> pp_ok tid P' \<and> pp_content tid P' = add_mset x (pp_content tid P) \<and>
    pp_alloc P' = pp_alloc P"
proof -
  let ?bag = "pp_freeBag P tid" and ?pool = "pp_blockpools P tid"
  have ok: "bag_ok ?bag" "pool_ok ?pool" "list_all block_isFull (lf_head (pp_sharedBag P))"
    using assms by (simp_all add: pp_ok_def)
  obtain bag' pool' where a: "bag_add x ?bag ?pool = Some (bag', pool')" "bag_ok bag'"
      "mset (bag_items bag') = add_mset x (mset (bag_items ?bag))" "pool_ok pool'"
    by (rule bag_add_spec[OF ok(1,2)])
  obtain r bag2 where r: "removeFullBlock bag' = Some (r, bag2)" "bag_ok bag2" "r = None \<longleftrightarrow> sizeInBlocks bag' < 3"
      "r = None \<Longrightarrow> bag2 = bag'"
      "\<And>b. r = Some b \<Longrightarrow> block_isFull b \<and> mset (bag_items bag') = mset (blk_data b) + mset (bag_items bag2)"
    by (rule removeFullBlock_spec[OF a(2)]) blast
  have "bag_add_shared x POOL_THRESHOLD_IN_BLOCKS ?bag ?pool (pp_sharedBag P) = Some (bag', pool', pp_sharedBag P) \<or>
    (\<exists>b. r = Some b \<and> bag_add_shared x POOL_THRESHOLD_IN_BLOCKS ?bag ?pool (pp_sharedBag P) =
       Some (bag2, pool', addBlock b (pp_sharedBag P)))"
  proof (cases r)
    case None
    then show ?thesis using a(1) r(3)
      by (auto simp: bag_add_def bag_add_shared_def Let_def bind_eq_Some_conv split: list.splits if_splits prod.splits)
  next
    case (Some b)
    then show ?thesis using a(1) r(1)
      by (auto simp: bag_add_def bag_add_shared_def Let_def bind_eq_Some_conv split: list.splits if_splits prod.splits)
  qed
  then show ?thesis
  proof (elim disjE exE conjE)
    assume "bag_add_shared x POOL_THRESHOLD_IN_BLOCKS ?bag ?pool (pp_sharedBag P) = Some (bag', pool', pp_sharedBag P)"
    then show ?thesis using a ok(3) by (auto simp: pp_add_def pp_ok_def pp_content_def pp_set_def)
  next
    fix b
    assume b: "r = Some b" "bag_add_shared x POOL_THRESHOLD_IN_BLOCKS ?bag ?pool (pp_sharedBag P) =
       Some (bag2, pool', addBlock b (pp_sharedBag P))"
    show ?thesis
      using a b r(2) r(5)[OF b(1)] ok(3)
      by (simp add: pp_add_def pp_ok_def pp_content_def pp_set_def addBlock_items) (simp add: addBlock_def add.commute)
  qed
qed

lemma add_fresh_spec:
  assumes "bag_ok bag" and "pool_ok pool"
  shows "\<exists>bag' pool'. add_fresh n bag pool al = Some (bag', pool', al\<lparr>al_next := al_next al + n\<rparr>) \<and> bag_ok bag' \<and>
    pool_ok pool' \<and> mset (bag_items bag') = mset (bag_items bag) + mset (map (al_fresh al) [al_next al..<al_next al + n])"
  using assms
proof (induction n arbitrary: bag pool al)
  case (Suc n)
  obtain b1 p1 where b1: "bag_add (al_fresh al (al_next al)) bag pool = Some (b1, p1)" "bag_ok b1"
      "mset (bag_items b1) = add_mset (al_fresh al (al_next al)) (mset (bag_items bag))" "pool_ok p1"
    by (rule bag_add_spec[OF Suc.prems])
  show ?case
    using Suc.IH[OF b1(2,4), of "al\<lparr>al_next := Suc (al_next al)\<rparr>"] b1(1,3) upt_conv_Cons[of "al_next al" "al_next al + Suc n"]
    by (auto simp: allocate_def)
qed simp

lemma bag_remove_shared_old:
  assumes "bag_ok bag" and "pool_ok pool" and "bag_items bag \<noteq> []"
  shows "\<exists>x bag' pool'. bag_remove_shared bag pool sh al = Some (x, bag', pool', sh, al) \<and> bag_ok bag' \<and> pool_ok pool' \<and>
    mset (bag_items bag) = add_mset x (mset (bag_items bag'))"
proof -
  obtain x bag' pool' where r: "bag_remove bag pool = Some (x, bag', pool')" "bag_ok bag'"
      "mset (bag_items bag) = add_mset x (mset (bag_items bag'))" "pool_ok pool'"
    by (rule bag_remove_spec[OF assms])
  have "bag_remove_shared bag pool sh al = Some (x, bag', pool', sh, al)"
    using r(1) by (auto simp: bag_remove_def bag_remove_shared_def bind_eq_Some_conv split: list.splits if_splits)
  then show ?thesis using r by blast
qed

lemma pp_get_spec:
  assumes "pp_ok tid P"
  shows "\<exists>x P' n. pp_get tid P = Some (x, P') \<and> pp_ok tid P' \<and> al_next (pp_alloc P') = al_next (pp_alloc P) + n \<and>
    pp_content tid P + mset (map (al_fresh (pp_alloc P)) [al_next (pp_alloc P)..<al_next (pp_alloc P) + n]) =
      add_mset x (pp_content tid P') \<and>
    (pp_content tid P \<noteq> {#} \<longrightarrow> n = 0)"
proof -
  let ?bag = "pp_freeBag P tid" and ?pool = "pp_blockpools P tid" and ?sh = "pp_sharedBag P" and ?al = "pp_alloc P"
  have ok: "bag_ok ?bag" "pool_ok ?pool" "list_all block_isFull (lf_head ?sh)" using assms by (simp_all add: pp_ok_def)
  show ?thesis
  proof (cases "bag_items ?bag = []")
    case False
    obtain x bag' pool' where "bag_remove_shared ?bag ?pool ?sh ?al = Some (x, bag', pool', ?sh, ?al)" "bag_ok bag'" "pool_ok pool'"
        "mset (bag_items ?bag) = add_mset x (mset (bag_items bag'))"
      using bag_remove_shared_old[OF ok(1,2) False] by blast
    then show ?thesis using ok(3) by (auto simp: pp_get_def pp_ok_def pp_content_def pp_set_def intro!: exI[of _ "0::nat"])
  next
    case True
    have "bag_isEmpty ?bag" using ok(1) True bag_isEmpty_iff[of ?bag] by (simp add: bag_ok_def)
    then obtain h where h: "bag_blocks ?bag = [h]" "block_isEmpty h" by (auto simp: bag_isEmpty_def split: list.splits)
    show ?thesis
    proof (cases "lf_head ?sh")
      case (Cons b bs)
      let ?s = "\<lparr>lf_head = bs, lf_tag = lf_tag ?sh + 1\<rparr>"
      have full: "block_isFull b" "list_all block_isFull bs" using ok(3) Cons by simp_all
      obtain b1 where b1: "addFullBlock b ?bag = Some b1" "bag_ok b1" "mset (bag_items b1) = mset (blk_data b) + mset (bag_items ?bag)"
        by (rule addFullBlock_spec[OF ok(1) full(1)])
      have ne: "bag_items b1 \<noteq> []" using b1(3) full(1) by (auto simp: block_simps)
      obtain x b2 p2 where b2: "bag_remove b1 ?pool = Some (x, b2, p2)" "bag_ok b2"
          "mset (bag_items b1) = add_mset x (mset (bag_items b2))" "pool_ok p2"
        by (rule bag_remove_spec[OF b1(2) ok(2) ne])
      have "bag_remove_shared ?bag ?pool ?sh ?al = Some (x, b2, p2, ?s, ?al)"
        using h b1(1) b2(1) Cons by (simp add: bag_remove_shared_def getBlock_def)
      moreover have "pp_content tid P = add_mset x (mset (bag_items b2) + mset (shared_items ?s))"
        using b1(3) b2(3) True Cons by (simp add: pp_content_def shared_items_def)
      ultimately show ?thesis
        using b2(2,4) full(2) by (auto simp: pp_get_def pp_ok_def pp_content_def pp_set_def intro!: exI[of _ "0::nat"])
    next
      case Nil
      obtain b1 p1 where b1: "add_fresh BLOCK_SIZE ?bag ?pool ?al = Some (b1, p1, ?al\<lparr>al_next := al_next ?al + BLOCK_SIZE\<rparr>)"
          "bag_ok b1" "pool_ok p1"
          "mset (bag_items b1) = mset (bag_items ?bag) + mset (map (al_fresh ?al) [al_next ?al..<al_next ?al + BLOCK_SIZE])"
        using add_fresh_spec[OF ok(1,2), of BLOCK_SIZE ?al] by blast
      have l: "length (bag_items b1) = BLOCK_SIZE" using b1(4) True by (metis add_0 length_map length_upt mset.simps(1) size_mset diff_add_inverse)
      then have ne: "bag_items b1 \<noteq> []" by auto
      have "int (length (bag_items b1)) = (sizeInBlocks b1 - 1) * int BLOCK_SIZE + int (length (blk_data (hd (bag_blocks b1))))"
          "length (blk_data (hd (bag_blocks b1))) < BLOCK_SIZE"
        using computeSizeFast_spec(1)[OF b1(2)] okE[OF b1(2)]
        by (auto simp: computeSizeFast_def getHeadSize_def block_simps split: list.splits)
      then have "(sizeInBlocks b1 - 1) * int BLOCK_SIZE > 0" using l by linarith
      then have sz: "sizeInBlocks b1 > 1" by (simp add: zero_less_mult_iff)
      obtain x b2 p2 where b2: "bag_remove b1 p1 = Some (x, b2, p2)" "bag_ok b2"
          "mset (bag_items b1) = add_mset x (mset (bag_items b2))" "pool_ok p2"
        by (rule bag_remove_spec[OF b1(2,3) ne])
      have "bag_remove_shared ?bag ?pool ?sh ?al = Some (x, b2, p2, ?sh, ?al\<lparr>al_next := al_next ?al + BLOCK_SIZE\<rparr>)"
        using h b1(1) b2(1) Nil sz by (simp add: bag_remove_shared_def getBlock_def asserting_def)
      then show ?thesis
        using b1(4) b2(2,3,4) ok(3) True Nil
        by (auto simp: pp_get_def pp_ok_def pp_content_def pp_set_def shared_items_def intro!: exI[of _ BLOCK_SIZE])
    qed
  qed
qed

lemma pp_addMoveAll_spec:
  assumes "pp_ok tid P" and "bag_ok bag"
  shows "\<exists>bag' P'. pp_addMoveAll tid bag P = Some (bag', P') \<and> pp_ok tid P' \<and> bag_ok bag' \<and> bag_items bag' = [] \<and>
    pp_content tid P' = pp_content tid P + mset (bag_items bag)"
proof -
  have ok: "bag_ok (pp_freeBag P tid)" "pool_ok (pp_blockpools P tid)" "list_all block_isFull (lf_head (pp_sharedBag P))"
    using assms by (simp_all add: pp_ok_def)
  obtain t o' p where m: "appendMoveAll (pp_freeBag P tid) bag (pp_blockpools P tid) = Some (t, o', p)" "bag_ok t" "bag_ok o'"
      "bag_items o' = []" "pool_ok p" "mset (bag_items t) = mset (bag_items (pp_freeBag P tid)) + mset (bag_items bag)"
    using appendMoveAll_spec[OF ok(1) assms(2) ok(2)] by blast
  have "pp_ok tid (pp_set tid t p P)" using m ok(3) by (simp add: pp_ok_def pp_set_def)
  from giveLoop_spec[OF this] show ?thesis using m by (auto simp: pp_addMoveAll_def pp_content_def pp_set_def)
qed

lemma pp_addMoveFullBlocks_spec:
  assumes "pp_ok tid P" and "bag_ok bag"
  shows "\<exists>bag' P'. pp_addMoveFullBlocks tid bag P = Some (bag', P') \<and> pp_ok tid P' \<and> bag_ok bag' \<and>
    length (bag_items bag') < BLOCK_SIZE \<and>
    pp_content tid P' + mset (bag_items bag') = pp_content tid P + mset (bag_items bag)"
proof -
  have ok: "bag_ok (pp_freeBag P tid)" "pool_ok (pp_blockpools P tid)" "list_all block_isFull (lf_head (pp_sharedBag P))"
    using assms by (simp_all add: pp_ok_def)
  obtain t o' where m: "appendMoveFullBlocks (pp_freeBag P tid) bag = Some (t, o')" "bag_ok t" "bag_ok o'"
      "mset (bag_items t) + mset (bag_items o') = mset (bag_items (pp_freeBag P tid)) + mset (bag_items bag)"
      "length (bag_items o') < BLOCK_SIZE"
    by (rule appendMoveFullBlocks_spec[OF ok(1) assms(2)])
  have "pp_ok tid (P\<lparr>pp_freeBag := (pp_freeBag P)(tid := t)\<rparr>)" using m ok by (simp add: pp_ok_def)
  from giveLoop_spec[OF this] obtain P' where P': "giveLoop tid (P\<lparr>pp_freeBag := (pp_freeBag P)(tid := t)\<rparr>) = Some P'"
      "pp_ok tid P'" "pp_content tid P' = mset (bag_items t) + mset (shared_items (pp_sharedBag P))"
    by (auto simp: pp_content_def)
  have "pp_content tid P' + mset (bag_items o') = (mset (bag_items t) + mset (bag_items o')) + mset (shared_items (pp_sharedBag P))"
    using P'(3) by (simp only: ac_simps)
  also have "\<dots> = pp_content tid P + mset (bag_items bag)" unfolding m(4) pp_content_def by (simp only: ac_simps)
  finally show ?thesis using m P' by (auto simp: pp_addMoveFullBlocks_def)
qed

lemma pp_new_ok:
  fixes al :: "'a allocator_new"
  shows "pp_ok tid (pp_new n al)" "pp_content tid (pp_new n al) = {#}"
proof -
  have "pp_ok tid (new_bags k P) \<and> pp_content tid (new_bags k P) = {#}" if "pp_ok tid P" "pp_content tid P = {#}" for k and P :: "'a perthread_pool"
    using that
  proof (induction k)
    case (Suc k)
    let ?P = "new_bags k P"
    obtain bag :: "'a blockbag" and pool where b: "bag_new k (pp_blockpools ?P k) = (bag, pool)" by (meson surj_pair)
    show ?case
    proof (cases "tid = k")
      case True
      have "pool_ok pool"
        using Suc True b by (auto simp: pp_ok_def bag_new_def allocateBlock_def pool_ok_def split: if_splits)
      then show ?thesis using Suc True b bag_new_ok[OF b] by (simp add: pp_ok_def pp_set_def pp_content_def Let_def)
    next
      case False
      then show ?thesis using Suc b by (simp add: pp_ok_def pp_set_def pp_content_def Let_def)
    qed
  qed simp
  note step = this
  let ?P = "\<lparr>pp_freeBag = (\<lambda>_. fst (bag_new 0 blockpool_new)), pp_blockpools = (\<lambda>_. blockpool_new),
      pp_sharedBag = lockfreeblockbag_new, pp_alloc = al\<rparr>"
  have "bag_ok (fst (bag_new 0 blockpool_new) :: 'a blockbag)" "bag_items (fst (bag_new 0 blockpool_new) :: 'a blockbag) = []"
    using bag_new_ok[of 0 blockpool_new] by (metis prod.collapse)+
  then have "pp_ok tid ?P" "pp_content tid ?P = {#}"
    by (simp_all add: pp_ok_def pp_content_def shared_items_def lockfreeblockbag_new_def pool_ok_def blockpool_new_def)
  from step[OF this, of n] show "pp_ok tid (pp_new n al)" "pp_content tid (pp_new n al) = {#}"
    by (simp_all add: pp_new_def)
qed

end
