(* ===== verification/Debra.thy ===== *)
theory Debra
  imports Record_Pool
begin

unbundle bit_operations_syntax

text \<open>
  The epoch-based reclaimer DEBRA (\<open>common/recordmgr/reclaimer_debra.h\<close>) as the microbenchmark builds it:
  \<open>DEBRA_ORIGINAL_FREE\<close> is set, so a bag is freed when it is rotated out, and \<open>DEBRA_NODE_RETIRE\<close> is set, so a
  node that is freed hands its version to the reclaimer of versions.  One reclaimer per record type keeps the
  bags; \<open>startOp\<close> and \<open>endOp\<close> run on the reclaimer of the first type only, and rotate the bags of all.
\<close>

section \<open>Data\<close>

abbreviation (input) EPOCH_INCREMENT :: int where "EPOCH_INCREMENT \<equiv> 2"
abbreviation (input) MIN_OPS_BEFORE_READ :: nat where "MIN_OPS_BEFORE_READ \<equiv> 10"
abbreviation (input) NUMBER_OF_EPOCH_BAGS :: nat where "NUMBER_OF_EPOCH_BAGS \<equiv> 9"
abbreviation (input) NUMBER_OF_ALWAYS_EMPTY_EPOCH_BAGS :: nat where "NUMBER_OF_ALWAYS_EMPTY_EPOCH_BAGS \<equiv> 3"

definition BITS_EPOCH :: "int \<Rightarrow> int" where
  "BITS_EPOCH ann = ann AND NOT (EPOCH_INCREMENT - 1)"

definition QUIESCENT :: "int \<Rightarrow> bool" where
  "QUIESCENT ann \<longleftrightarrow> ann AND 1 \<noteq> 0"

definition GET_WITH_QUIESCENT :: "int \<Rightarrow> int" where
  "GET_WITH_QUIESCENT ann = ann OR 1"

text \<open>The record types of the balanced augmented tree, in the order of the template arguments.\<close>

datatype record_type = NodeR | SCXRecordR | VersionR

text \<open>
  The fields of \<open>ThreadData\<close> that each reclaimer uses for its own records.  The pointer \<open>currentBag\<close> is the
  position of the bag it points to; a missing bag is a null pointer.
\<close>

record 'a thread_bags =
  epochbags :: "'a blockbag option list"
  index :: nat
  currentBag :: nat
  tb_pool :: blockpool

record 'a debra =
  NUM_PROCESSES :: nat
  epoch :: int
  announcedEpoch :: "nat \<Rightarrow> int"
  localvar_announcedEpoch :: "nat \<Rightarrow> int"
  checked :: "nat \<Rightarrow> nat"
  opsSinceRead :: "nat \<Rightarrow> nat"
  bags :: "record_type \<Rightarrow> nat \<Rightarrow> 'a thread_bags"
  allocs :: "record_type \<Rightarrow> 'a allocator_new"

definition set_bags :: "record_type \<Rightarrow> nat \<Rightarrow> 'a thread_bags \<Rightarrow> 'a debra \<Rightarrow> 'a debra" where
  "set_bags T tid tb d = d\<lparr>bags := (bags d)(T := (bags d T)(tid := tb))\<rparr>"

definition debra_new :: "nat \<Rightarrow> (record_type \<Rightarrow> 'a allocator_new) \<Rightarrow> 'a debra" where
  "debra_new numProcesses al =
    \<lparr>NUM_PROCESSES = numProcesses, epoch = 0,
     announcedEpoch = (\<lambda>_. GET_WITH_QUIESCENT 0), localvar_announcedEpoch = (\<lambda>_. GET_WITH_QUIESCENT 0),
     checked = (\<lambda>_. 0), opsSinceRead = (\<lambda>_. 0),
     bags = (\<lambda>_ _. \<lparr>epochbags = replicate NUMBER_OF_EPOCH_BAGS None, index = 0, currentBag = 0, tb_pool = blockpool_new\<rparr>),
     allocs = al\<rparr>"

section \<open>Registration\<close>

fun init_bags :: "nat \<Rightarrow> 'a blockbag option list \<Rightarrow> blockpool \<Rightarrow> 'a blockbag option list \<times> blockpool" where
  "init_bags tid [] pool = ([], pool)"
| "init_bags tid (None # bs) pool =
    (let (b, pool) = bag_new tid pool; (bs, pool) = init_bags tid bs pool in (Some b # bs, pool))"
| "init_bags tid (Some b # bs) pool = (let (bs, pool) = init_bags tid bs pool in (Some b # bs, pool))"

definition initThread_type :: "record_type \<Rightarrow> nat \<Rightarrow> 'a debra \<Rightarrow> 'a debra" where
  "initThread_type T tid d =
    (let tb = bags d T tid; (bs, pool) = init_bags tid (epochbags tb) (tb_pool tb)
     in set_bags T tid (tb\<lparr>epochbags := bs, currentBag := 0, tb_pool := pool\<rparr>) d)"

definition debra_initThread :: "nat \<Rightarrow> 'a debra \<Rightarrow> 'a debra" where
  "debra_initThread tid d =
    (let d = initThread_type VersionR tid (initThread_type SCXRecordR tid (initThread_type NodeR tid d))
     in d\<lparr>opsSinceRead := (opsSinceRead d)(tid := 0), checked := (checked d)(tid := 0)\<rparr>)"

fun deinit_bags :: "'a blockbag option list \<Rightarrow> blockpool \<Rightarrow> 'a allocator_new \<Rightarrow>
    ('a blockbag option list \<times> blockpool \<times> 'a allocator_new) option" where
  "deinit_bags [] pool al = Some ([], pool, al)"
| "deinit_bags (None # bs) pool al = do { (bs, pool, al) \<leftarrow> deinit_bags bs pool al; Some (None # bs, pool, al) }"
| "deinit_bags (Some b # bs) pool al =
    do {
      (b, pool, al) \<leftarrow> pool_none_addMoveAll b pool al;
      pool \<leftarrow> bag_delete b pool;
      (bs, pool, al) \<leftarrow> deinit_bags bs pool al;
      Some (None # bs, pool, al)
    }"

definition deinitThread_type :: "record_type \<Rightarrow> nat \<Rightarrow> 'a debra \<Rightarrow> 'a debra option" where
  "deinitThread_type T tid d =
    (let tb = bags d T tid in
     do {
       (bs, pool, al) \<leftarrow> deinit_bags (epochbags tb) (tb_pool tb) (allocs d T);
       Some ((set_bags T tid (tb\<lparr>epochbags := bs, tb_pool := pool\<rparr>) d)\<lparr>allocs := (allocs d)(T := al)\<rparr>)
     })"

definition debra_deinitThread :: "nat \<Rightarrow> 'a debra \<Rightarrow> 'a debra option" where
  "debra_deinitThread tid d =
    do { d \<leftarrow> deinitThread_type NodeR tid d; d \<leftarrow> deinitThread_type SCXRecordR tid d; deinitThread_type VersionR tid d }"

section \<open>Operations\<close>

definition isQuiescent :: "nat \<Rightarrow> 'a debra \<Rightarrow> bool" where
  "isQuiescent tid d = QUIESCENT (announcedEpoch d tid)"

definition debra_retire :: "record_type \<Rightarrow> nat \<Rightarrow> 'a \<Rightarrow> 'a debra \<Rightarrow> 'a debra option" where
  "debra_retire T tid p d =
    (let tb = bags d T tid in
     case epochbags tb ! currentBag tb of
       None \<Rightarrow> None
     | Some bag \<Rightarrow> do {
         (bag, pool) \<leftarrow> bag_add p bag (tb_pool tb);
         Some (set_bags T tid (tb\<lparr>epochbags := (epochbags tb)[currentBag tb := Some bag], tb_pool := pool\<rparr>) d)
       })"

text \<open>
  \<open>ver\<close> is what the field \<open>version\<close> of a node holds when the node is freed: the memory of the tree is not part
  of the reclaimer.
\<close>

definition rotateEpochBags :: "record_type \<Rightarrow> nat \<Rightarrow> ('a \<Rightarrow> 'a) \<Rightarrow> 'a debra \<Rightarrow> 'a debra option" where
  "rotateEpochBags T tid ver d =
    (let nextIndex = (index (bags d T tid) + 1) mod NUMBER_OF_EPOCH_BAGS;
         freed = (nextIndex + NUMBER_OF_ALWAYS_EMPTY_EPOCH_BAGS) mod NUMBER_OF_EPOCH_BAGS
     in case epochbags (bags d T tid) ! freed of
          None \<Rightarrow> None
        | Some freeable \<Rightarrow> do {
            d \<leftarrow> (if T = NodeR
                  then bag_iterate (\<lambda>item. debra_retire VersionR tid (ver item)) (bag_begin freeable) d
                  else Some d);
            (freeable, pool, al) \<leftarrow> pool_none_addMoveFullBlocks freeable (tb_pool (bags d T tid)) (allocs d T);
            Some ((set_bags T tid ((bags d T tid)\<lparr>epochbags := (epochbags (bags d T tid))[freed := Some freeable],
                     index := nextIndex, currentBag := nextIndex, tb_pool := pool\<rparr>) d)\<lparr>allocs := (allocs d)(T := al)\<rparr>)
          })"

definition rotateAllEpochBags :: "nat \<Rightarrow> ('a \<Rightarrow> 'a) \<Rightarrow> 'a debra \<Rightarrow> 'a debra option" where
  "rotateAllEpochBags tid ver d =
    do {
      d \<leftarrow> rotateEpochBags NodeR tid ver d;
      d \<leftarrow> rotateEpochBags SCXRecordR tid ver d;
      rotateEpochBags VersionR tid ver d
    }"

text \<open>
  \<open>startOp\<close> in four parts, cut at its accesses to memory that other threads write: the read of \<open>epoch\<close> with the
  thread's own bookkeeping, the announcement, the look at another thread's announcement, and the
  compare-and-swap on \<open>epoch\<close>.
\<close>

definition startOp_enter :: "nat \<Rightarrow> ('a \<Rightarrow> 'a) \<Rightarrow> 'a debra \<Rightarrow> (int \<times> bool \<times> 'a debra) option" where
  "startOp_enter tid ver d =
    (let readEpoch = epoch d;
         ann = localvar_announcedEpoch d tid;
         d = d\<lparr>localvar_announcedEpoch := (localvar_announcedEpoch d)(tid := readEpoch)\<rparr>
     in if readEpoch \<noteq> ann
        then do {
          d \<leftarrow> rotateAllEpochBags tid ver (d\<lparr>checked := (checked d)(tid := 0)\<rparr>);
          Some (readEpoch, True, d)
        }
        else Some (readEpoch, False, d))"

definition startOp_announce :: "nat \<Rightarrow> int \<Rightarrow> 'a debra \<Rightarrow> bool \<times> 'a debra" where
  "startOp_announce tid readEpoch d =
    (let d = d\<lparr>announcedEpoch := (announcedEpoch d)(tid := readEpoch)\<rparr>;
         ops = Suc (opsSinceRead d tid)
     in if ops = MIN_OPS_BEFORE_READ
        then (True, d\<lparr>opsSinceRead := (opsSinceRead d)(tid := 0)\<rparr>)
        else (False, d\<lparr>opsSinceRead := (opsSinceRead d)(tid := ops)\<rparr>))"

definition startOp_scan :: "nat \<Rightarrow> int \<Rightarrow> 'a debra \<Rightarrow> bool \<times> 'a debra" where
  "startOp_scan tid readEpoch d =
    (let otherAnnounce = announcedEpoch d (checked d tid)
     in if BITS_EPOCH otherAnnounce = readEpoch \<or> QUIESCENT otherAnnounce
        then let c = Suc (checked d tid) in (c \<ge> NUM_PROCESSES d, d\<lparr>checked := (checked d)(tid := c)\<rparr>)
        else (False, d))"

definition startOp_advance :: "int \<Rightarrow> 'a debra \<Rightarrow> 'a debra" where
  "startOp_advance readEpoch d = (if epoch d = readEpoch then d\<lparr>epoch := readEpoch + EPOCH_INCREMENT\<rparr> else d)"

definition debra_startOp :: "nat \<Rightarrow> ('a \<Rightarrow> 'a) \<Rightarrow> 'a debra \<Rightarrow> (bool \<times> 'a debra) option" where
  "debra_startOp tid ver d =
    do {
      (readEpoch, result, d) \<leftarrow> startOp_enter tid ver d;
      let (scan, d) = startOp_announce tid readEpoch d;
      let (advance, d) = (if scan then startOp_scan tid readEpoch d else (False, d));
      Some (result, if advance then startOp_advance readEpoch d else d)
    }"

definition debra_endOp :: "nat \<Rightarrow> 'a debra \<Rightarrow> 'a debra" where
  "debra_endOp tid d =
    d\<lparr>announcedEpoch := (announcedEpoch d)(tid := GET_WITH_QUIESCENT (localvar_announcedEpoch d tid))\<rparr>"

definition getSafeBlockbags :: "record_type \<Rightarrow> nat \<Rightarrow> 'a debra \<Rightarrow> 'a blockbag option list" where
  "getSafeBlockbags T tid d =
    (let tb = bags d T tid; ix = index tb
     in [epochbags tb ! ix,
         epochbags tb ! ((ix + NUMBER_OF_EPOCH_BAGS - 1) mod NUMBER_OF_EPOCH_BAGS),
         epochbags tb ! ((ix + NUMBER_OF_EPOCH_BAGS - 2) mod NUMBER_OF_EPOCH_BAGS), None])"

definition getSizeInNodes :: "record_type \<Rightarrow> 'a debra \<Rightarrow> nat" where
  "getSizeInNodes T d =
    sum_list (map (\<lambda>tid. sum_list (map (\<lambda>b. case b of None \<Rightarrow> 0 | Some bag \<Rightarrow> bag_computeSize bag) (epochbags (bags d T tid))))
      [0..<NUM_PROCESSES d])"

definition getSizeInNodesForThisThread :: "record_type \<Rightarrow> nat \<Rightarrow> 'a debra \<Rightarrow> int option" where
  "getSizeInNodesForThisThread T tid d =
    foldo (\<lambda>b sum. case b of None \<Rightarrow> Some sum | Some bag \<Rightarrow> map_option (\<lambda>s. sum + s) (computeSizeFast bag))
      (epochbags (bags d T tid)) 0"

definition debugGCSingleThreaded :: "('a \<Rightarrow> 'a) \<Rightarrow> 'a debra \<Rightarrow> 'a debra option" where
  "debugGCSingleThreaded ver d =
    foldo (\<lambda>tid d. do {
        d \<leftarrow> rotateAllEpochBags tid ver d;
        d \<leftarrow> rotateAllEpochBags tid ver d;
        d \<leftarrow> rotateAllEpochBags tid ver d;
        rotateAllEpochBags tid ver d
      }) [0..<NUM_PROCESSES d] d"

section \<open>What a thread does to its bags\<close>

definition tb_ok :: "'a thread_bags \<Rightarrow> bool" where
  "tb_ok tb \<longleftrightarrow> length (epochbags tb) = NUMBER_OF_EPOCH_BAGS \<and> (\<forall>b\<in>set (epochbags tb). \<exists>bag. b = Some bag \<and> bag_ok bag) \<and>
     index tb < NUMBER_OF_EPOCH_BAGS \<and> currentBag tb = index tb \<and> pool_ok (tb_pool tb)"

definition tb_items :: "'a thread_bags \<Rightarrow> nat \<Rightarrow> 'a multiset" where
  "tb_items tb i = (case epochbags tb ! i of None \<Rightarrow> {#} | Some bag \<Rightarrow> mset (bag_items bag))"

abbreviation freed_ix :: "'a thread_bags \<Rightarrow> nat" where
  "freed_ix tb \<equiv> (index tb + 4) mod NUMBER_OF_EPOCH_BAGS"

lemma set_bags_sel [simp]:
  "bags (set_bags T v tb d) T' u = (if T' = T \<and> u = v then tb else bags d T' u)"
  "NUM_PROCESSES (set_bags T v tb d) = NUM_PROCESSES d" "epoch (set_bags T v tb d) = epoch d"
  "announcedEpoch (set_bags T v tb d) = announcedEpoch d" "localvar_announcedEpoch (set_bags T v tb d) = localvar_announcedEpoch d"
  "checked (set_bags T v tb d) = checked d" "opsSinceRead (set_bags T v tb d) = opsSinceRead d"
  "allocs (set_bags T v tb d) = allocs d"
  by (simp_all add: set_bags_def)

lemma set_bags_twice [simp]: "set_bags T v tb' (set_bags T v tb d) = set_bags T v tb' d"
  by (simp add: set_bags_def)

lemma tb_okD:
  assumes "tb_ok tb" and "i < NUMBER_OF_EPOCH_BAGS"
  obtains bag where "epochbags tb ! i = Some bag" and "bag_ok bag" and "tb_items tb i = mset (bag_items bag)"
proof -
  have "epochbags tb ! i \<in> set (epochbags tb)" using assms by (simp add: tb_ok_def)
  then obtain bag where "epochbags tb ! i = Some bag" "bag_ok bag" using assms(1) unfolding tb_ok_def by blast
  then show ?thesis using that by (simp add: tb_items_def)
qed

lemma tb_ok_update:
  assumes "tb_ok tb" and "bag_ok bag" and "pool_ok pool" and "j < NUMBER_OF_EPOCH_BAGS" and "i < NUMBER_OF_EPOCH_BAGS"
  shows "tb_ok (tb\<lparr>epochbags := (epochbags tb)[j := Some bag], tb_pool := pool\<rparr>)"
    and "tb_ok (tb\<lparr>epochbags := (epochbags tb)[j := Some bag], index := i, currentBag := i, tb_pool := pool\<rparr>)"
  using assms set_update_subset_insert[of "epochbags tb" j "Some bag"] by (auto simp: tb_ok_def)

lemma debra_retire_spec:
  assumes "tb_ok (bags d T v)"
  obtains tb where "debra_retire T v p d = Some (set_bags T v tb d)" and "tb_ok tb" and "index tb = index (bags d T v)"
    and "\<And>i. i < NUMBER_OF_EPOCH_BAGS \<Longrightarrow>
      tb_items tb i = tb_items (bags d T v) i + (if i = index (bags d T v) then {#p#} else {#})"
proof -
  let ?tb = "bags d T v"
  have ix: "currentBag ?tb = index ?tb" "index ?tb < 9" "pool_ok (tb_pool ?tb)" "length (epochbags ?tb) = 9"
    using assms by (auto simp: tb_ok_def)
  obtain bag where bag: "epochbags ?tb ! index ?tb = Some bag" "bag_ok bag" "tb_items ?tb (index ?tb) = mset (bag_items bag)"
    by (rule tb_okD[OF assms ix(2)])
  obtain bag' pool' where b: "bag_add p bag (tb_pool ?tb) = Some (bag', pool')" "bag_ok bag'"
      "mset (bag_items bag') = add_mset p (mset (bag_items bag))" "pool_ok pool'"
    by (rule bag_add_spec[OF bag(2) ix(3)])
  let ?tb' = "?tb\<lparr>epochbags := (epochbags ?tb)[index ?tb := Some bag'], tb_pool := pool'\<rparr>"
  have "debra_retire T v p d = Some (set_bags T v ?tb' d)"
    using bag(1) b(1) ix(1) by (simp add: debra_retire_def Let_def)
  moreover have "tb_ok ?tb'" by (rule tb_ok_update(1)[OF assms b(2,4) ix(2) ix(2)])
  moreover have "tb_items ?tb' i = tb_items ?tb i + (if i = index ?tb then {#p#} else {#})" if "i < 9" for i
    using that b(3) bag(3) ix(2,4) by (auto simp: tb_items_def nth_list_update)
  ultimately show ?thesis using that by simp
qed

lemma retire_versions_spec:
  assumes "tb_ok (bags d VersionR v)"
  shows "\<exists>tb. foldo (\<lambda>item. debra_retire VersionR v (ver item)) xs d = Some (set_bags VersionR v tb d) \<and> tb_ok tb \<and>
    index tb = index (bags d VersionR v) \<and>
    (\<forall>i<NUMBER_OF_EPOCH_BAGS. tb_items tb i = tb_items (bags d VersionR v) i +
       (if i = index (bags d VersionR v) then image_mset ver (mset xs) else {#}))"
  using assms
proof (induction xs arbitrary: d)
  case Nil
  have "set_bags VersionR v (bags d VersionR v) d = d" by (simp add: set_bags_def)
  then show ?case using Nil by (auto intro!: exI[of _ "bags d VersionR v"])
next
  case (Cons x xs)
  obtain tb1 where tb1: "debra_retire VersionR v (ver x) d = Some (set_bags VersionR v tb1 d)" "tb_ok tb1"
      "index tb1 = index (bags d VersionR v)"
      "\<And>i. i < NUMBER_OF_EPOCH_BAGS \<Longrightarrow>
        tb_items tb1 i = tb_items (bags d VersionR v) i + (if i = index (bags d VersionR v) then {#ver x#} else {#})"
    by (rule debra_retire_spec[OF Cons.prems]) blast
  show ?case using Cons.IH[of "set_bags VersionR v tb1 d"] tb1 by auto
qed

text \<open>The effect of freeing the oldest bag and moving on.\<close>

definition rotated :: "'a thread_bags \<Rightarrow> 'a thread_bags \<Rightarrow> bool" where
  "rotated tb tb' \<longleftrightarrow> tb_ok tb' \<and> index tb' = (index tb + 1) mod NUMBER_OF_EPOCH_BAGS \<and>
     (\<forall>i<NUMBER_OF_EPOCH_BAGS. tb_items tb' i = (if i = freed_ix tb then {#} else tb_items tb i))"

lemma rotate_free:
  assumes "tb_ok tb"
  obtains bag tb' al' where "epochbags tb ! freed_ix tb = Some bag" and "bag_ok bag" and "tb_items tb (freed_ix tb) = mset (bag_items bag)"
    and "pool_none_addMoveFullBlocks bag (tb_pool tb) al = Some (fst tb', snd tb', al')"
    and "rotated tb (tb\<lparr>epochbags := (epochbags tb)[freed_ix tb := Some (fst tb')], index := (index tb + 1) mod NUMBER_OF_EPOCH_BAGS,
       currentBag := (index tb + 1) mod NUMBER_OF_EPOCH_BAGS, tb_pool := snd tb'\<rparr>)"
    and "mset (al_freed al') = mset (al_freed al) + tb_items tb (freed_ix tb)"
proof -
  have f: "freed_ix tb < 9" "(index tb + 1) mod 9 < 9" and p: "pool_ok (tb_pool tb)" "length (epochbags tb) = 9"
    using assms by (auto simp: tb_ok_def)
  obtain bag where bag: "epochbags tb ! freed_ix tb = Some bag" "bag_ok bag" "tb_items tb (freed_ix tb) = mset (bag_items bag)"
    by (rule tb_okD[OF assms f(1)])
  obtain bag' pool' al' where c: "deallocateAndClear bag (tb_pool tb) al = Some (bag', pool', al')" "bag_ok bag'"
      "bag_items bag' = []" "pool_ok pool'" "mset (al_freed al') = mset (bag_items bag) + mset (al_freed al)"
      "al_next al' = al_next al" "al_fresh al' = al_fresh al"
    by (rule deallocateAndClear_spec[OF bag(2) p(1)])
  let ?n = "(index tb + 1) mod 9"
  let ?tb = "tb\<lparr>epochbags := (epochbags tb)[freed_ix tb := Some bag'], index := ?n, currentBag := ?n, tb_pool := pool'\<rparr>"
  have "tb_ok ?tb" by (rule tb_ok_update(2)[OF assms c(2,4) f(1,2)])
  moreover have "tb_items ?tb i = (if i = freed_ix tb then {#} else tb_items tb i)" if "i < 9" for i
    using that c(3) f(1) p(2) by (auto simp: tb_items_def nth_list_update)
  ultimately have "rotated tb ?tb" by (simp add: rotated_def)
  then show ?thesis
    using that[of bag "(bag', pool')" al'] bag c by (simp add: pool_none_addMoveFullBlocks_def)
qed

lemma rotateEpochBags_spec:
  assumes "tb_ok (bags d T v)" and "T \<noteq> NodeR"
  obtains tb al where "rotateEpochBags T v ver d = Some ((set_bags T v tb d)\<lparr>allocs := (allocs d)(T := al)\<rparr>)"
    and "rotated (bags d T v) tb" and "mset (al_freed al) = mset (al_freed (allocs d T)) + tb_items (bags d T v) (freed_ix (bags d T v))"
proof -
  have e: "((index (bags d T v) + 1) mod 9 + 3) mod 9 = freed_ix (bags d T v)" by (simp add: mod_simps add.commute)
  show ?thesis
    by (rule rotate_free[OF assms(1), of "allocs d T"], rule that)
      (simp_all add: assms(2) rotateEpochBags_def[unfolded Let_def, of T v ver d, unfolded e])
qed

lemma rotateNode_spec:
  assumes "tb_ok (bags d NodeR v)" and "tb_ok (bags d VersionR v)"
  obtains tb tbV al where "rotateEpochBags NodeR v ver d =
      Some ((set_bags NodeR v tb (set_bags VersionR v tbV d))\<lparr>allocs := (allocs d)(NodeR := al)\<rparr>)"
    and "rotated (bags d NodeR v) tb"
    and "mset (al_freed al) = mset (al_freed (allocs d NodeR)) + tb_items (bags d NodeR v) (freed_ix (bags d NodeR v))"
    and "tb_ok tbV" and "index tbV = index (bags d VersionR v)"
    and "\<And>i. i < NUMBER_OF_EPOCH_BAGS \<Longrightarrow> tb_items tbV i = tb_items (bags d VersionR v) i +
       (if i = index (bags d VersionR v) then image_mset ver (tb_items (bags d NodeR v) (freed_ix (bags d NodeR v))) else {#})"
proof -
  have e: "((index (bags d NodeR v) + 1) mod 9 + 3) mod 9 = freed_ix (bags d NodeR v)" by (simp add: mod_simps add.commute)
  obtain bag tb' al' where f: "epochbags (bags d NodeR v) ! freed_ix (bags d NodeR v) = Some bag" "bag_ok bag"
      "tb_items (bags d NodeR v) (freed_ix (bags d NodeR v)) = mset (bag_items bag)"
      "pool_none_addMoveFullBlocks bag (tb_pool (bags d NodeR v)) (allocs d NodeR) = Some (fst tb', snd tb', al')"
      "rotated (bags d NodeR v) ((bags d NodeR v)\<lparr>epochbags := (epochbags (bags d NodeR v))[freed_ix (bags d NodeR v) := Some (fst tb')],
         index := (index (bags d NodeR v) + 1) mod 9, currentBag := (index (bags d NodeR v) + 1) mod 9, tb_pool := snd tb'\<rparr>)"
      "mset (al_freed al') = mset (al_freed (allocs d NodeR)) + tb_items (bags d NodeR v) (freed_ix (bags d NodeR v))"
    by (rule rotate_free[OF assms(1)])
  note it = bag_iterate_spec[OF f(2)]
  obtain tbV where V: "foldo (\<lambda>item. debra_retire VersionR v (ver item)) (bag_order (bag_blocks bag)) d = Some (set_bags VersionR v tbV d)"
      "tb_ok tbV" "index tbV = index (bags d VersionR v)"
      "\<forall>i<9. tb_items tbV i = tb_items (bags d VersionR v) i +
         (if i = index (bags d VersionR v) then image_mset ver (mset (bag_order (bag_blocks bag))) else {#})"
    using retire_versions_spec[OF assms(2)] by blast
  show ?thesis
    by (rule that[OF _ f(5,6) V(2,3)])
      (use f(1,3,4) V(1,4) in \<open>simp_all add: rotateEpochBags_def[unfolded Let_def, of NodeR v ver d, unfolded e] it\<close>)
qed

text \<open>All three types: versions of the freed nodes join the current bag of versions before that one is rotated.\<close>

definition new_versions :: "nat \<Rightarrow> ('a \<Rightarrow> 'a) \<Rightarrow> 'a debra \<Rightarrow> record_type \<Rightarrow> nat \<Rightarrow> 'a multiset" where
  "new_versions v ver d T i =
    (if T = VersionR \<and> i = index (bags d VersionR v)
     then image_mset ver (tb_items (bags d NodeR v) (freed_ix (bags d NodeR v))) else {#})"

definition rotated_all :: "nat \<Rightarrow> ('a \<Rightarrow> 'a) \<Rightarrow> 'a debra \<Rightarrow> 'a debra \<Rightarrow> bool" where
  "rotated_all v ver d d' \<longleftrightarrow> d' = d\<lparr>bags := bags d', allocs := allocs d'\<rparr> \<and>
     (\<forall>T u. u \<noteq> v \<longrightarrow> bags d' T u = bags d T u) \<and>
     (\<forall>T. tb_ok (bags d' T v) \<and> index (bags d' T v) = (index (bags d T v) + 1) mod NUMBER_OF_EPOCH_BAGS \<and>
        (\<forall>i<NUMBER_OF_EPOCH_BAGS. tb_items (bags d' T v) i =
           (if i = freed_ix (bags d T v) then {#} else tb_items (bags d T v) i + new_versions v ver d T i)) \<and>
        mset (al_freed (allocs d' T)) = mset (al_freed (allocs d T)) + tb_items (bags d T v) (freed_ix (bags d T v)))"

lemma rotateAll_spec:
  assumes ok: "\<And>T. tb_ok (bags d T v)"
  obtains d' where "rotateAllEpochBags v ver d = Some d'" and "rotated_all v ver d d'"
proof -
  have ix: "index (bags d VersionR v) < 9" using ok[of VersionR] by (simp add: tb_ok_def)
  then have ne: "freed_ix (bags d VersionR v) \<noteq> index (bags d VersionR v)" "freed_ix (bags d VersionR v) < 9"
    by (auto simp: mod_if split: if_splits)
  obtain tbN tbV alN where N: "rotateEpochBags NodeR v ver d =
      Some ((set_bags NodeR v tbN (set_bags VersionR v tbV d))\<lparr>allocs := (allocs d)(NodeR := alN)\<rparr>)"
      "rotated (bags d NodeR v) tbN"
      "mset (al_freed alN) = mset (al_freed (allocs d NodeR)) + tb_items (bags d NodeR v) (freed_ix (bags d NodeR v))"
      "tb_ok tbV" "index tbV = index (bags d VersionR v)"
      "\<And>i. i < 9 \<Longrightarrow> tb_items tbV i = tb_items (bags d VersionR v) i + new_versions v ver d VersionR i"
    by (rule rotateNode_spec[OF ok ok]) (auto simp: new_versions_def)
  define d1 where "d1 = (set_bags NodeR v tbN (set_bags VersionR v tbV d))\<lparr>allocs := (allocs d)(NodeR := alN)\<rparr>"
  have b1: "bags d1 SCXRecordR v = bags d SCXRecordR v" "bags d1 VersionR v = tbV" "allocs d1 SCXRecordR = allocs d SCXRecordR"
    by (simp_all add: d1_def set_bags_def)
  obtain tbS alS where S: "rotateEpochBags SCXRecordR v ver d1 = Some ((set_bags SCXRecordR v tbS d1)\<lparr>allocs := (allocs d1)(SCXRecordR := alS)\<rparr>)"
      "rotated (bags d SCXRecordR v) tbS"
      "mset (al_freed alS) = mset (al_freed (allocs d SCXRecordR)) + tb_items (bags d SCXRecordR v) (freed_ix (bags d SCXRecordR v))"
    using rotateEpochBags_spec[of d1 SCXRecordR v ver] ok[of SCXRecordR] unfolding b1 by blast
  define d2 where "d2 = (set_bags SCXRecordR v tbS d1)\<lparr>allocs := (allocs d1)(SCXRecordR := alS)\<rparr>"
  have b2: "bags d2 VersionR v = tbV" "allocs d2 VersionR = allocs d VersionR"
    by (simp_all add: d2_def d1_def set_bags_def)
  obtain tbW alV where V: "rotateEpochBags VersionR v ver d2 = Some ((set_bags VersionR v tbW d2)\<lparr>allocs := (allocs d2)(VersionR := alV)\<rparr>)"
      "rotated tbV tbW" "mset (al_freed alV) = mset (al_freed (allocs d VersionR)) + tb_items tbV (freed_ix tbV)"
    using rotateEpochBags_spec[of d2 VersionR v ver] N(4) unfolding b2 by blast
  define d3 where "d3 = (set_bags VersionR v tbW d2)\<lparr>allocs := (allocs d2)(VersionR := alV)\<rparr>"
  have "rotateAllEpochBags v ver d = Some d3"
    using N(1) S(1) V(1) by (simp add: rotateAllEpochBags_def d3_def flip: d1_def d2_def)
  moreover have "rotated_all v ver d d3"
    unfolding rotated_all_def
  proof (intro conjI allI impI)
    show "d3 = d\<lparr>bags := bags d3, allocs := allocs d3\<rparr>" by (simp add: d3_def d2_def d1_def set_bags_def)
    show "bags d3 T u = bags d T u" if "u \<noteq> v" for T u using that by (simp add: d3_def d2_def d1_def set_bags_def)
    fix T
    show "tb_ok (bags d3 T v)" "index (bags d3 T v) = (index (bags d T v) + 1) mod 9"
      using N(2,5) S(2) V(2) by (cases T; simp add: d3_def d2_def d1_def set_bags_def rotated_def)+
    show "mset (al_freed (allocs d3 T)) = mset (al_freed (allocs d T)) + tb_items (bags d T v) (freed_ix (bags d T v))"
      using N(3,5,6) S(3) V(3) ne by (cases T; simp add: d3_def d2_def d1_def set_bags_def new_versions_def)
    fix i :: nat
    assume "i < 9"
    then show "tb_items (bags d3 T v) i =
        (if i = freed_ix (bags d T v) then {#} else tb_items (bags d T v) i + new_versions v ver d T i)"
      using N(2,5,6) S(2) V(2) by (cases T; simp add: d3_def d2_def d1_def set_bags_def rotated_def new_versions_def)
  qed
  ultimately show ?thesis using that by blast
qed

lemma init_bags_spec:
  fixes bs :: "'a blockbag option list"
  assumes "pool_ok pool" and "init_bags tid bs pool = (bs', pool')"
    and "\<forall>b\<in>set bs. case b of None \<Rightarrow> True | Some bag \<Rightarrow> bag_ok bag"
  shows "length bs' = length bs \<and> pool_ok pool' \<and> (\<forall>b\<in>set bs'. \<exists>bag. b = Some bag \<and> bag_ok bag) \<and>
    (\<forall>i<length bs. bs ! i = None \<longrightarrow> (\<exists>bag. bs' ! i = Some bag \<and> bag_items bag = []))"
  using assms
proof (induction tid bs pool arbitrary: bs' pool' rule: init_bags.induct)
  case (2 tid bs pool)
  obtain b :: "'a blockbag" and p1 where b: "bag_new tid pool = (b, p1)" by (meson surj_pair)
  obtain bs1 p2 where i: "init_bags tid bs p1 = (bs1, p2)" by (meson surj_pair)
  have p1: "pool_ok p1" using bag_new_spec(4)[OF 2(2) b] .
  show ?case
    using 2(1)[OF b[symmetric] refl p1 i] 2(3,4) b i bag_new_ok[OF b]
    by (auto simp: nth_Cons split: nat.splits)
next
  case (3 tid b bs pool)
  obtain bs1 p2 where i: "init_bags tid bs pool = (bs1, p2)" by (meson surj_pair)
  then show ?case using 3(1)[OF 3(2) i] 3(3,4) by (auto simp: nth_Cons split: nat.splits)
qed simp

text \<open>A thread without bags, as the constructor and \<open>deinitThread\<close> leave it.\<close>

definition unregistered :: "'a thread_bags \<Rightarrow> bool" where
  "unregistered tb \<longleftrightarrow> epochbags tb = replicate NUMBER_OF_EPOCH_BAGS None \<and> pool_ok (tb_pool tb) \<and> index tb < NUMBER_OF_EPOCH_BAGS"

lemma initThread_type_spec:
  fixes d :: "'a debra"
  assumes "unregistered (bags d T v)"
  obtains tb where "initThread_type T v d = set_bags T v tb d" and "index tb = index (bags d T v)" and "currentBag tb = 0"
    and "index tb = 0 \<longrightarrow> tb_ok tb" and "\<forall>i<NUMBER_OF_EPOCH_BAGS. tb_items tb i = {#}"
    and "tb_ok (tb\<lparr>currentBag := index tb\<rparr>)"
proof -
  let ?tb = "bags d T v"
  have u: "epochbags ?tb = replicate 9 None" "pool_ok (tb_pool ?tb)" "index ?tb < 9" using assms by (simp_all add: unregistered_def)
  obtain bs :: "'a blockbag option list" and pool where i: "init_bags v (epochbags ?tb) (tb_pool ?tb) = (bs, pool)" by (meson surj_pair)
  have s: "length bs = 9" "pool_ok pool" "\<forall>b\<in>set bs. \<exists>bag. b = Some bag \<and> bag_ok bag"
      "\<forall>i<9. \<exists>bag. bs ! i = Some bag \<and> bag_items bag = []"
    using init_bags_spec[OF u(2) i] u(1) by auto
  show ?thesis
    by (rule that[of "?tb\<lparr>epochbags := bs, currentBag := 0, tb_pool := pool\<rparr>"])
      (use s i u(3) in \<open>auto simp: initThread_type_def Let_def tb_ok_def tb_items_def split: option.splits\<close>)
qed

definition registered :: "nat \<Rightarrow> 'a debra \<Rightarrow> bool" where
  "registered v d \<longleftrightarrow> (\<forall>T. tb_ok (bags d T v) \<and> index (bags d T v) = 0 \<and> (\<forall>i<NUMBER_OF_EPOCH_BAGS. tb_items (bags d T v) i = {#}))"

lemma debra_initThread_spec:
  assumes "\<And>T. unregistered (bags d T v)" and "\<And>T. index (bags d T v) = 0"
  shows "registered v (debra_initThread v d)"
    and "\<And>T u. u \<noteq> v \<Longrightarrow> bags (debra_initThread v d) T u = bags d T u"
    and "debra_initThread v d = d\<lparr>bags := bags (debra_initThread v d), opsSinceRead := (opsSinceRead d)(v := 0),
      checked := (checked d)(v := 0)\<rparr>"
proof -
  obtain t1 where 1: "initThread_type NodeR v d = set_bags NodeR v t1 d" "index t1 = index (bags d NodeR v)" "currentBag t1 = 0"
      "index t1 = 0 \<longrightarrow> tb_ok t1" "\<forall>i<9. tb_items t1 i = {#}" "tb_ok (t1\<lparr>currentBag := index t1\<rparr>)"
    by (rule initThread_type_spec[OF assms(1), of NodeR])
  define d1 where "d1 = set_bags NodeR v t1 d"
  have u1: "unregistered (bags d1 SCXRecordR v)" "index (bags d1 SCXRecordR v) = 0" using assms by (simp_all add: d1_def)
  obtain t2 where 2: "initThread_type SCXRecordR v d1 = set_bags SCXRecordR v t2 d1" "index t2 = index (bags d1 SCXRecordR v)"
      "currentBag t2 = 0" "index t2 = 0 \<longrightarrow> tb_ok t2" "\<forall>i<9. tb_items t2 i = {#}" "tb_ok (t2\<lparr>currentBag := index t2\<rparr>)"
    by (rule initThread_type_spec[OF u1(1)])
  define d2 where "d2 = set_bags SCXRecordR v t2 d1"
  have u2: "unregistered (bags d2 VersionR v)" "index (bags d2 VersionR v) = 0" using assms by (simp_all add: d2_def d1_def)
  obtain t3 where 3: "initThread_type VersionR v d2 = set_bags VersionR v t3 d2" "index t3 = index (bags d2 VersionR v)"
      "currentBag t3 = 0" "index t3 = 0 \<longrightarrow> tb_ok t3" "\<forall>i<9. tb_items t3 i = {#}" "tb_ok (t3\<lparr>currentBag := index t3\<rparr>)"
    by (rule initThread_type_spec[OF u2(1)])
  have e: "debra_initThread v d = (set_bags VersionR v t3 d2)\<lparr>opsSinceRead := (opsSinceRead d)(v := 0), checked := (checked d)(v := 0)\<rparr>"
    using 1(1) 2(1) 3(1) by (simp add: debra_initThread_def Let_def d1_def d2_def set_bags_def)
  show "registered v (debra_initThread v d)"
    unfolding registered_def
  proof (intro allI)
    fix T
    show "tb_ok (bags (debra_initThread v d) T v) \<and> index (bags (debra_initThread v d) T v) = 0 \<and>
        (\<forall>i<9. tb_items (bags (debra_initThread v d) T v) i = {#})"
      using 1(2,4,5) 2(2,4,5) 3(2,4,5) u1(2) u2(2) assms(2)[of NodeR]
      by (cases T) (simp_all add: e d2_def d1_def set_bags_def)
  qed
  show "bags (debra_initThread v d) T u = bags d T u" if "u \<noteq> v" for T u
    using that by (simp add: e d2_def d1_def set_bags_def)
  show "debra_initThread v d = d\<lparr>bags := bags (debra_initThread v d), opsSinceRead := (opsSinceRead d)(v := 0),
      checked := (checked d)(v := 0)\<rparr>"
    by (simp add: e d2_def d1_def set_bags_def)
qed

text \<open>The reclaimer once every thread has registered.\<close>

definition debra_start :: "nat \<Rightarrow> (record_type \<Rightarrow> 'a allocator_new) \<Rightarrow> 'a debra" where
  "debra_start n al = fold debra_initThread [0..<n] (debra_new n al)"

lemma debra_start_spec:
  "v < n \<Longrightarrow> registered v (debra_start n al)"
  "debra_start n al = (debra_new n al)\<lparr>bags := bags (debra_start n al)\<rparr>"
proof -
  let ?d = "\<lambda>k. fold debra_initThread [0..<k] (debra_new n al)"
  have "(\<forall>v<k. registered v (?d k)) \<and> (\<forall>v\<ge>k. \<forall>T. bags (?d k) T v = bags (debra_new n al) T v) \<and>
      ?d k = (debra_new n al)\<lparr>bags := bags (?d k)\<rparr>" for k
  proof (induction k)
    case 0
    then show ?case by (simp add: debra_new_def)
  next
    case (Suc k)
    let ?e = "?d k"
    have b: "bags ?e T k = bags (debra_new n al) T k" for T using Suc by blast
    have u: "unregistered (bags ?e T k)" "index (bags ?e T k) = 0" for T
      unfolding b by (simp_all add: debra_new_def unregistered_def pool_ok_def blockpool_new_def)
    note i = debra_initThread_spec[of ?e k, OF u]
    have e: "?e = (debra_new n al)\<lparr>bags := bags ?e\<rparr>" using Suc by blast
    have f: "opsSinceRead ?e = (\<lambda>_. 0)" "checked ?e = (\<lambda>_. 0)"
      by (subst e, simp add: debra_new_def fun_eq_iff)+
    have S: "?d (Suc k) = debra_initThread k ?e" by simp
    have "registered v (debra_initThread k ?e)" if "v < Suc k" for v
      using that Suc i(1) i(2)[of v] by (cases "v = k") (auto simp: registered_def)
    moreover have "bags (debra_initThread k ?e) T v = bags (debra_new n al) T v" if "v \<ge> Suc k" for v T
      using that Suc i(2)[of v T] by simp
    moreover have "debra_initThread k ?e = (debra_new n al)\<lparr>bags := bags (debra_initThread k ?e)\<rparr>"
    proof -
      have "debra_initThread k ?e = ?e\<lparr>bags := bags (debra_initThread k ?e), opsSinceRead := (\<lambda>_. 0), checked := (\<lambda>_. 0)\<rparr>"
        using i(3) by (simp add: f fun_upd_def)
      also have "\<dots> = ((debra_new n al)\<lparr>bags := bags ?e\<rparr>)\<lparr>bags := bags (debra_initThread k ?e), opsSinceRead := (\<lambda>_. 0), checked := (\<lambda>_. 0)\<rparr>"
        using e by (rule arg_cong)
      finally show ?thesis by (simp add: debra_new_def)
    qed
    ultimately show ?case unfolding S by blast
  qed
  from this[of n] show "v < n \<Longrightarrow> registered v (debra_start n al)"
    "debra_start n al = (debra_new n al)\<lparr>bags := bags (debra_start n al)\<rparr>"
    by (simp_all add: debra_start_def)
qed

end
