(* ===== verification/Debra_Safety.thy ===== *)
theory Debra_Safety
  imports Debra
begin

unbundle bit_operations_syntax

text \<open>
  Threads that run \<open>startOp\<close>, retire records and run \<open>endOp\<close> in any interleaving.  A step is one access to
  memory that other threads write, with the thread's own bookkeeping around it.  Memory is
  sequentially consistent: the accesses of the threads interleave.  The source uses relaxed loads and stores with
  one fence at the end of \<open>RecordManagerSet::startOp\<close>, so reordering by weaker hardware is not covered.

  A record is paired with the time of its retirement, which tells apart the uses of one address.  The fields
  \<open>now\<close>, \<open>since\<close>, \<open>atEpoch\<close> and \<open>rotations\<close> only record the history: the clock, when a thread last announced an
  epoch and what the global epoch was then, and the times and epochs of a thread's rotations, newest first.
\<close>

section \<open>Steps\<close>

datatype dpc = Quiet | Entered int | Scanning int | Advancing int | InOp

record 'a conc =
  mem :: "('a \<times> nat) debra"
  pc :: "nat \<Rightarrow> dpc"
  now :: nat
  since :: "nat \<Rightarrow> nat"
  atEpoch :: "nat \<Rightarrow> int"
  rotations :: "nat \<Rightarrow> (nat \<times> int) list"

text \<open>A thread is active from its announcement to its \<open>endOp\<close>: it may hold pointers to shared records.\<close>

definition active :: "'a conc \<Rightarrow> nat \<Rightarrow> bool" where
  "active c v = (case pc c v of Quiet \<Rightarrow> False | Entered _ \<Rightarrow> False | _ \<Rightarrow> True)"

inductive debra_step :: "'a conc \<Rightarrow> 'a conc \<Rightarrow> bool" where
  enter: "pc c v = Quiet \<Longrightarrow> v < NUM_PROCESSES (mem c) \<Longrightarrow>
    startOp_enter v (\<lambda>(a, t). (ver a, now c)) (mem c) = Some (r, rot, d) \<Longrightarrow>
    debra_step c (c\<lparr>mem := d, pc := (pc c)(v := Entered r), now := Suc (now c),
      rotations := (if rot then (rotations c)(v := (now c, r) # rotations c v) else rotations c)\<rparr>)"
| announce: "pc c v = Entered r \<Longrightarrow> startOp_announce v r (mem c) = (scan, d) \<Longrightarrow>
    debra_step c (c\<lparr>mem := d, pc := (pc c)(v := (if scan then Scanning r else InOp)), now := Suc (now c),
      since := (since c)(v := now c), atEpoch := (atEpoch c)(v := epoch (mem c))\<rparr>)"
| scan: "pc c v = Scanning r \<Longrightarrow> startOp_scan v r (mem c) = (adv, d) \<Longrightarrow>
    debra_step c (c\<lparr>mem := d, pc := (pc c)(v := (if adv then Advancing r else InOp)), now := Suc (now c)\<rparr>)"
| advance: "pc c v = Advancing r \<Longrightarrow>
    debra_step c (c\<lparr>mem := startOp_advance r (mem c), pc := (pc c)(v := InOp), now := Suc (now c)\<rparr>)"
| retire: "pc c v = InOp \<Longrightarrow> debra_retire T v (a, now c) (mem c) = Some d \<Longrightarrow>
    debra_step c (c\<lparr>mem := d, now := Suc (now c)\<rparr>)"
| finish: "pc c v = InOp \<Longrightarrow>
    debra_step c (c\<lparr>mem := debra_endOp v (mem c), pc := (pc c)(v := Quiet), now := Suc (now c)\<rparr>)"

definition conc_start :: "nat \<Rightarrow> (record_type \<Rightarrow> ('a \<times> nat) allocator_new) \<Rightarrow> 'a conc" where
  "conc_start n al = \<lparr>mem = debra_start n al, pc = (\<lambda>_. Quiet), now = 0, since = (\<lambda>_. 0), atEpoch = (\<lambda>_. 0),
     rotations = (\<lambda>_. [])\<rparr>"

section \<open>Epochs\<close>

lemma announced_bits:
  fixes e :: int
  assumes "even e"
  shows "BITS_EPOCH e = e" "\<not> QUIESCENT e" "QUIESCENT (GET_WITH_QUIESCENT x)"
proof -
  show "BITS_EPOCH e = e"
  proof (rule bit_eqI)
    fix n
    have "bit e n \<Longrightarrow> n \<noteq> 0" using assms by (metis bit_0)
    then show "bit (BITS_EPOCH e) n \<longleftrightarrow> bit e n" by (auto simp: BITS_EPOCH_def bit_and_iff bit_not_iff bit_1_iff)
  qed
  show "\<not> QUIESCENT e" using assms by (simp add: QUIESCENT_def and_one_eq)
  have "odd (x OR 1)" by (simp add: even_or_iff)
  then show "QUIESCENT (GET_WITH_QUIESCENT x)"
    by (simp add: QUIESCENT_def GET_WITH_QUIESCENT_def and_one_eq odd_iff_mod_2_eq_one)
qed

text \<open>
  What the announcements and the scans guarantee.  A thread's local epoch is at most the global one; a thread
  counted by a scan is not active or announced an epoch at least as new as the scan's; so the global epoch
  advances at most once while a thread stays active.
\<close>

definition thread_inv :: "'a conc \<Rightarrow> nat \<Rightarrow> bool" where
  "thread_inv c v \<longleftrightarrow> (let d = mem c; own = localvar_announcedEpoch d v; n = NUM_PROCESSES d in
     (own = 1 \<and> pc c v = Quiet \<and> checked d v = 0 \<or> even own \<and> own \<le> epoch d) \<and>
     (case pc c v of Entered r \<Rightarrow> own = r \<and> checked d v < n | Scanning r \<Rightarrow> own = r \<and> checked d v < n
        | Advancing r \<Rightarrow> own = r \<and> checked d v = n | _ \<Rightarrow> True) \<and>
     (own = epoch d \<longrightarrow> checked d v < n \<or> (\<exists>r. pc c v = Advancing r)) \<and>
     (if active c v then announcedEpoch d v = own \<and> own \<le> atEpoch c v \<and> atEpoch c v \<le> epoch d \<and>
         epoch d \<le> atEpoch c v + 2
      else QUIESCENT (announcedEpoch d v)) \<and>
     (\<forall>x<checked d v. x < n \<longrightarrow> active c x \<longrightarrow> own \<le> atEpoch c x))"

definition epoch_inv :: "'a conc \<Rightarrow> bool" where
  "epoch_inv c \<longleftrightarrow> even (epoch (mem c)) \<and> (\<forall>v<NUM_PROCESSES (mem c). thread_inv c v) \<and>
     (\<forall>v\<ge>NUM_PROCESSES (mem c). pc c v = Quiet)"

lemma startOp_enter_spec:
  assumes "\<And>T. tb_ok (bags d T v)"
  obtains r rot d' where "startOp_enter v ver d = Some (r, rot, d')" and "r = epoch d"
    and "rot \<longleftrightarrow> localvar_announcedEpoch d v \<noteq> epoch d"
    and "NUM_PROCESSES d' = NUM_PROCESSES d" and "epoch d' = epoch d" and "announcedEpoch d' = announcedEpoch d"
    and "localvar_announcedEpoch d' = (localvar_announcedEpoch d)(v := epoch d)"
    and "checked d' = (if rot then (checked d)(v := 0) else checked d)"
    and "if rot then rotated_all v ver d (d\<lparr>bags := bags d', allocs := allocs d'\<rparr>) else bags d' = bags d \<and> allocs d' = allocs d"
proof (cases "localvar_announcedEpoch d v = epoch d")
  case True
  then show ?thesis using that[of "epoch d" False "d\<lparr>localvar_announcedEpoch := (localvar_announcedEpoch d)(v := epoch d)\<rparr>"]
    by (simp add: startOp_enter_def Let_def)
next
  case False
  let ?d = "d\<lparr>localvar_announcedEpoch := (localvar_announcedEpoch d)(v := epoch d), checked := (checked d)(v := 0)\<rparr>"
  obtain d' where d': "rotateAllEpochBags v ver ?d = Some d'" "rotated_all v ver ?d d'"
    by (rule rotateAll_spec[of ?d v ver]) (use assms in simp_all)
  have e: "d' = ?d\<lparr>bags := bags d', allocs := allocs d'\<rparr>" using d'(2) by (simp add: rotated_all_def)
  have f: "NUM_PROCESSES d' = NUM_PROCESSES d" "epoch d' = epoch d" "announcedEpoch d' = announcedEpoch d"
      "localvar_announcedEpoch d' = (localvar_announcedEpoch d)(v := epoch d)" "checked d' = (checked d)(v := 0)"
    by (subst e, simp)+
  have "rotated_all v ver d (d\<lparr>bags := bags d', allocs := allocs d'\<rparr>)"
    using d'(2) by (simp add: rotated_all_def new_versions_def)
  then show ?thesis
    using that[of "epoch d" True d'] False d'(1) f by (simp add: startOp_enter_def Let_def)
qed

lemma epoch_invD:
  assumes "epoch_inv c" and "pc c w \<noteq> Quiet"
  shows "w < NUM_PROCESSES (mem c)" and "thread_inv c w"
  using assms by (auto simp: epoch_inv_def not_less[symmetric])

lemma active_upd:
  "active (c\<lparr>mem := d, pc := (pc c)(w := p), now := t\<rparr>) v = (if v = w then p \<noteq> Quiet \<and> (\<forall>r. p \<noteq> Entered r) else active c v)"
  by (simp add: active_def split: dpc.splits)

lemma thread_inv_frame:
  assumes "thread_inv c v" and "pc c' v = pc c v" and "NUM_PROCESSES (mem c') = NUM_PROCESSES (mem c)"
    and "localvar_announcedEpoch (mem c') v = localvar_announcedEpoch (mem c) v" and "checked (mem c') v = checked (mem c) v"
    and "announcedEpoch (mem c') v = announcedEpoch (mem c) v" and "atEpoch c' v = atEpoch c v"
    and "epoch (mem c') = epoch (mem c) \<or> epoch (mem c) < epoch (mem c') \<and> even (epoch (mem c')) \<and>
      (active c v \<longrightarrow> epoch (mem c') \<le> atEpoch c v + 2)"
    and "\<And>x. x < NUM_PROCESSES (mem c) \<Longrightarrow> active c' x \<Longrightarrow> active c x \<and> atEpoch c' x = atEpoch c x \<or> epoch (mem c) \<le> atEpoch c' x"
  shows "thread_inv c' v"
proof -
  have a: "active c' v = active c v" using assms(2) by (simp add: active_def)
  have "localvar_announcedEpoch (mem c) v \<le> atEpoch c' x"
    if "x < checked (mem c) v" "x < NUM_PROCESSES (mem c)" "active c' x" for x
    using assms(1) assms(9)[OF that(2,3)] that by (auto simp: thread_inv_def Let_def)
  then show ?thesis
    using assms(1-8) unfolding thread_inv_def Let_def assms(2-7) a by (cases "pc c v") auto
qed

lemma epoch_inv_announce:
  assumes inv: "epoch_inv c" and pc: "pc c w = Entered r" and st: "startOp_announce w r (mem c) = (scan, d)"
  shows "epoch_inv (c\<lparr>mem := d, pc := (pc c)(w := (if scan then Scanning r else InOp)), now := Suc (now c),
      since := (since c)(w := now c), atEpoch := (atEpoch c)(w := epoch (mem c))\<rparr>)" (is "epoch_inv ?c")
proof -
  have w: "w < NUM_PROCESSES (mem c)" "thread_inv c w" using epoch_invD[OF inv] pc by auto
  have d: "NUM_PROCESSES d = NUM_PROCESSES (mem c)" "epoch d = epoch (mem c)" "checked d = checked (mem c)"
      "localvar_announcedEpoch d = localvar_announcedEpoch (mem c)" "announcedEpoch d = (announcedEpoch (mem c))(w := r)"
    using st by (auto simp: startOp_announce_def Let_def split: if_splits)
  have a: "active ?c v = (v = w \<or> active c v)" for v by (auto simp: active_def)
  have "thread_inv ?c v" if v: "v < NUM_PROCESSES (mem c)" for v
  proof (cases "v = w")
    case True
    then show ?thesis using w pc by (auto simp: thread_inv_def Let_def d a)
  next
    case False
    have "thread_inv c v" using inv v by (simp add: epoch_inv_def)
    then show ?thesis by (rule thread_inv_frame) (use False in \<open>auto simp: d a\<close>)
  qed
  then show ?thesis using inv w(1) by (auto simp: epoch_inv_def d)
qed

lemma epoch_inv_scan:
  assumes inv: "epoch_inv c" and pc: "pc c w = Scanning r" and st: "startOp_scan w r (mem c) = (adv, d)"
  shows "epoch_inv (c\<lparr>mem := d, pc := (pc c)(w := (if adv then Advancing r else InOp)), now := Suc (now c)\<rparr>)" (is "epoch_inv ?c")
proof -
  let ?o = "checked (mem c) w"
  have w: "w < NUM_PROCESSES (mem c)" "thread_inv c w" using epoch_invD[OF inv] pc by auto
  have d: "NUM_PROCESSES d = NUM_PROCESSES (mem c)" "epoch d = epoch (mem c)" "announcedEpoch d = announcedEpoch (mem c)"
      "localvar_announcedEpoch d = localvar_announcedEpoch (mem c)"
    using st by (auto simp: startOp_scan_def Let_def split: if_splits)
  have a: "active ?c v = active c v" for v using pc by (auto simp: active_def)
  have a': "p \<in> {Advancing r, InOp} \<Longrightarrow> active (c\<lparr>mem := d, pc := (pc c)(w := p), now := Suc (now c)\<rparr>) v = active c v" for p v
    using pc by (auto simp: active_def)
  have o: "?o < NUM_PROCESSES (mem c)" "localvar_announcedEpoch (mem c) w = r" using w(2) pc by (simp_all add: thread_inv_def Let_def)
  have other: "thread_inv c ?o" using inv o(1) by (simp add: epoch_inv_def)
  have seen: "r \<le> atEpoch c ?o" if "BITS_EPOCH (announcedEpoch (mem c) ?o) = r \<or> QUIESCENT (announcedEpoch (mem c) ?o)" "active c ?o"
  proof -
    have "even (localvar_announcedEpoch (mem c) ?o)" "announcedEpoch (mem c) ?o = localvar_announcedEpoch (mem c) ?o"
        "localvar_announcedEpoch (mem c) ?o \<le> atEpoch c ?o"
      using other that(2) by (auto simp: thread_inv_def Let_def active_def split: dpc.splits)
    then show ?thesis using that(1) announced_bits by metis
  qed
  have "thread_inv ?c v" if v: "v < NUM_PROCESSES (mem c)" for v
  proof (cases "v = w")
    case True
    have act: "active c w" using pc by (simp add: active_def)
    have tw: "even r" "r \<le> epoch (mem c)" "announcedEpoch (mem c) w = r" "r \<le> atEpoch c w" "epoch (mem c) \<le> atEpoch c w + 2"
        "atEpoch c w \<le> epoch (mem c)" "\<forall>x<?o. x < NUM_PROCESSES (mem c) \<longrightarrow> active c x \<longrightarrow> r \<le> atEpoch c x"
      using w(2) pc o(2) act by (auto simp: thread_inv_def Let_def)
    show ?thesis
    proof (cases "BITS_EPOCH (announcedEpoch (mem c) ?o) = r \<or> QUIESCENT (announcedEpoch (mem c) ?o)")
      case counted: True
      then have e: "checked d w = Suc ?o" "adv \<longleftrightarrow> NUM_PROCESSES (mem c) \<le> Suc ?o"
        using st by (auto simp: startOp_scan_def Let_def)
      have "\<forall>x<Suc ?o. x < NUM_PROCESSES (mem c) \<longrightarrow> active c x \<longrightarrow> r \<le> atEpoch c x"
        using tw(7) seen[OF counted] less_Suc_eq by blast
      then show ?thesis using True tw act o e by (cases adv) (simp_all add: thread_inv_def Let_def d a')
    next
      case False
      then have e: "checked d w = ?o" "\<not> adv" using st by (auto simp: startOp_scan_def Let_def)
      then show ?thesis using True tw act o by (simp add: thread_inv_def Let_def d a')
    qed
  next
    case False
    have "checked d v = checked (mem c) v" using False st by (auto simp: startOp_scan_def Let_def split: if_splits)
    moreover have "thread_inv c v" using inv v by (simp add: epoch_inv_def)
    ultimately show ?thesis using False thread_inv_frame[of c v ?c] by (simp add: d a)
  qed
  then show ?thesis using inv w(1) by (auto simp: epoch_inv_def d)
qed

lemma epoch_inv_advance:
  assumes inv: "epoch_inv c" and pc: "pc c w = Advancing r"
  shows "epoch_inv (c\<lparr>mem := startOp_advance r (mem c), pc := (pc c)(w := InOp), now := Suc (now c)\<rparr>)" (is "epoch_inv ?c")
proof -
  let ?d = "startOp_advance r (mem c)"
  have w: "w < NUM_PROCESSES (mem c)" "thread_inv c w" using epoch_invD[OF inv] pc by auto
  have d: "NUM_PROCESSES ?d = NUM_PROCESSES (mem c)" "checked ?d = checked (mem c)" "announcedEpoch ?d = announcedEpoch (mem c)"
      "localvar_announcedEpoch ?d = localvar_announcedEpoch (mem c)"
      "epoch ?d = (if epoch (mem c) = r then r + 2 else epoch (mem c))"
    by (auto simp: startOp_advance_def)
  have a: "active ?c v = active c v" for v using pc by (auto simp: active_def)
  have o: "localvar_announcedEpoch (mem c) w = r" "checked (mem c) w = NUM_PROCESSES (mem c)" "r \<le> epoch (mem c)"
    using w(2) pc by (auto simp: thread_inv_def Let_def)
  have all: "r \<le> atEpoch c x" if "x < NUM_PROCESSES (mem c)" "active c x" for x
    using w(2) that o by (simp add: thread_inv_def Let_def)
  have ev: "even (epoch (mem c))" using inv by (simp add: epoch_inv_def)
  have "thread_inv ?c v" if v: "v < NUM_PROCESSES (mem c)" for v
  proof (cases "v = w")
    case True
    have "active c w" using pc by (simp add: active_def)
    then show ?thesis using True w(2) pc o all[of w] w(1) by (auto simp: thread_inv_def Let_def d a)
  next
    case False
    have "thread_inv c v" using inv v by (simp add: epoch_inv_def)
    then show ?thesis by (rule thread_inv_frame) (use False all[OF v] ev in \<open>auto simp: d a\<close>)
  qed
  moreover have "even (epoch ?d)" using ev by (auto simp: d)
  ultimately show ?thesis using inv w(1) by (auto simp: epoch_inv_def d)
qed

lemma epoch_inv_finish:
  assumes inv: "epoch_inv c" and pc: "pc c w = InOp"
  shows "epoch_inv (c\<lparr>mem := debra_endOp w (mem c), pc := (pc c)(w := Quiet), now := Suc (now c)\<rparr>)" (is "epoch_inv ?c")
proof -
  let ?d = "debra_endOp w (mem c)"
  have w: "w < NUM_PROCESSES (mem c)" "thread_inv c w" using epoch_invD[OF inv] pc by auto
  have d: "NUM_PROCESSES ?d = NUM_PROCESSES (mem c)" "checked ?d = checked (mem c)" "epoch ?d = epoch (mem c)"
      "localvar_announcedEpoch ?d = localvar_announcedEpoch (mem c)"
      "announcedEpoch ?d = (announcedEpoch (mem c))(w := GET_WITH_QUIESCENT (localvar_announcedEpoch (mem c) w))"
    by (auto simp: debra_endOp_def)
  have a: "active ?c v = (v \<noteq> w \<and> active c v)" for v by (auto simp: active_def)
  have "thread_inv ?c v" if v: "v < NUM_PROCESSES (mem c)" for v
  proof (cases "v = w")
    case True
    then show ?thesis using w pc announced_bits(3) by (auto simp: thread_inv_def Let_def d a)
  next
    case False
    have "thread_inv c v" using inv v by (simp add: epoch_inv_def)
    then show ?thesis by (rule thread_inv_frame) (use False in \<open>auto simp: d a\<close>)
  qed
  then show ?thesis using inv w(1) by (auto simp: epoch_inv_def d)
qed

lemma epoch_inv_enter:
  assumes inv: "epoch_inv c" and pc: "pc c w = Quiet" and w: "w < NUM_PROCESSES (mem c)"
    and d: "NUM_PROCESSES d = NUM_PROCESSES (mem c)" "epoch d = epoch (mem c)" "announcedEpoch d = announcedEpoch (mem c)"
      "localvar_announcedEpoch d = (localvar_announcedEpoch (mem c))(w := epoch (mem c))"
      "checked d = (if rot then (checked (mem c))(w := 0) else checked (mem c))"
    and rot: "rot \<longleftrightarrow> localvar_announcedEpoch (mem c) w \<noteq> epoch (mem c)"
  shows "epoch_inv (c\<lparr>mem := d, pc := (pc c)(w := Entered (epoch (mem c))), now := t, rotations := R\<rparr>)" (is "epoch_inv ?c")
proof -
  have a: "active ?c v = active c v" for v using pc by (auto simp: active_def)
  have tw: "thread_inv c w" and ev: "even (epoch (mem c))" using inv w by (auto simp: epoch_inv_def)
  have "thread_inv ?c v" if v: "v < NUM_PROCESSES (mem c)" for v
  proof (cases "v = w")
    case True
    have "\<not> active c w" using pc by (simp add: active_def)
    then show ?thesis using True tw pc w rot ev by (auto simp: thread_inv_def Let_def d a)
  next
    case False
    have "thread_inv c v" using inv v by (simp add: epoch_inv_def)
    then show ?thesis by (rule thread_inv_frame) (use False in \<open>auto simp: d a\<close>)
  qed
  then show ?thesis using inv w by (auto simp: epoch_inv_def d)
qed

section \<open>Bags\<close>

text \<open>How many rotations ago a bag was the current one.\<close>

definition age :: "'a thread_bags \<Rightarrow> nat \<Rightarrow> nat" where
  "age tb i = (index tb + NUMBER_OF_EPOCH_BAGS - i) mod NUMBER_OF_EPOCH_BAGS"

lemma age_facts:
  assumes "index tb < NUMBER_OF_EPOCH_BAGS" and "i < NUMBER_OF_EPOCH_BAGS"
  shows "i = freed_ix tb \<longleftrightarrow> age tb i = 5" and "i = index tb \<longleftrightarrow> age tb i = 0"
    and "index tb' = (index tb + 1) mod NUMBER_OF_EPOCH_BAGS \<Longrightarrow> age tb' i = (age tb i + 1) mod NUMBER_OF_EPOCH_BAGS"
proof -
  have a: "age tb i = (if i \<le> index tb then index tb - i else index tb + 9 - i)"
    using assms by (auto simp: age_def mod_if)
  have f: "freed_ix tb = (if index tb < 5 then index tb + 4 else index tb - 5)" using assms(1) by (auto simp: mod_if)
  show "i = freed_ix tb \<longleftrightarrow> age tb i = 5" unfolding a f using assms by (auto split: if_splits)
  show "i = index tb \<longleftrightarrow> age tb i = 0" unfolding a using assms by auto
  assume n: "index tb' = (index tb + 1) mod 9"
  have "index tb' = (if index tb = 8 then 0 else index tb + 1)" using assms(1) by (simp add: n mod_if)
  then show "age tb' i = (age tb i + 1) mod 9" unfolding a using assms by (auto simp: age_def mod_if)
qed

text \<open>
  A record in a bag of age \<open>k > 0\<close> was retired no later than the rotation that gave the bag this age; records
  are freed at age 5, so older bags are empty.
\<close>

definition stamped :: "'a conc \<Rightarrow> nat \<Rightarrow> nat \<Rightarrow> nat \<Rightarrow> bool" where
  "stamped c v k t \<longleftrightarrow> t < now c \<and> k < 6 \<and> (0 < k \<longrightarrow> k \<le> length (rotations c v) \<and> t \<le> fst (rotations c v ! (k - 1)))"

definition bag_inv :: "'a conc \<Rightarrow> bool" where
  "bag_inv c \<longleftrightarrow> (\<forall>v<NUM_PROCESSES (mem c). \<forall>T. tb_ok (bags (mem c) T v) \<and>
     (\<forall>i<NUMBER_OF_EPOCH_BAGS. \<forall>x\<in>#tb_items (bags (mem c) T v) i. stamped c v (age (bags (mem c) T v) i) (snd x)))"

definition rotation_inv :: "'a conc \<Rightarrow> bool" where
  "rotation_inv c \<longleftrightarrow> (\<forall>v<NUM_PROCESSES (mem c).
     sorted_wrt (\<lambda>p q. snd q < snd p) (rotations c v) \<and>
     (rotations c v \<noteq> [] \<longrightarrow> snd (hd (rotations c v)) = localvar_announcedEpoch (mem c) v) \<and>
     (\<forall>p\<in>set (rotations c v). fst p < now c \<and> snd p \<le> epoch (mem c) \<and>
        (\<forall>u<NUM_PROCESSES (mem c). active c u \<longrightarrow> since c u \<le> fst p \<longrightarrow> atEpoch c u \<le> snd p)))"

definition freed_inv :: "'a conc \<Rightarrow> bool" where
  "freed_inv c \<longleftrightarrow> (\<forall>T. \<forall>x\<in>set (al_freed (allocs (mem c) T)). snd x < now c \<and>
     (\<forall>u<NUM_PROCESSES (mem c). active c u \<longrightarrow> snd x < since c u))"

definition debra_inv :: "'a conc \<Rightarrow> bool" where
  "debra_inv c \<longleftrightarrow> epoch_inv c \<and> bag_inv c \<and> rotation_inv c \<and> freed_inv c"

text \<open>The heart of the matter: whoever is active when a bag is freed announced after its last record was retired.\<close>

lemma sorted_drop:
  fixes xs :: "(nat \<times> int) list"
  assumes "sorted_wrt (\<lambda>p q. snd q < snd p) xs" and "k < length xs"
  shows "snd (xs ! k) + int k \<le> snd (hd xs)"
  using assms(2)
proof (induction k)
  case (Suc k)
  then have "snd (xs ! Suc k) < snd (xs ! k)" using sorted_wrt_nth_less[OF assms(1), of k "Suc k"] by simp
  then show ?case using Suc by simp
qed (simp add: hd_conv_nth)

lemma rotation_invD:
  assumes "rotation_inv c" and "v < NUM_PROCESSES (mem c)"
  shows "sorted_wrt (\<lambda>p q. snd q < snd p) (rotations c v)"
    and "rotations c v \<noteq> [] \<Longrightarrow> snd (hd (rotations c v)) = localvar_announcedEpoch (mem c) v"
    and "p \<in> set (rotations c v) \<Longrightarrow> fst p < now c \<and> snd p \<le> epoch (mem c)"
    and "p \<in> set (rotations c v) \<Longrightarrow> u < NUM_PROCESSES (mem c) \<Longrightarrow> active c u \<Longrightarrow> since c u \<le> fst p \<Longrightarrow> atEpoch c u \<le> snd p"
  using assms unfolding rotation_inv_def by (auto split: prod.splits)

lemma grace:
  assumes inv: "debra_inv c" and v: "v < NUM_PROCESSES (mem c)" and new: "localvar_announcedEpoch (mem c) v \<noteq> epoch (mem c)"
    and u: "u < NUM_PROCESSES (mem c)" "active c u" and k: "3 \<le> k" "stamped c v k t"
  shows "t < since c u"
proof (rule ccontr)
  assume "\<not> t < since c u"
  have "k \<le> length (rotations c v)" "t \<le> fst (rotations c v ! (k - 1))" using k by (auto simp: stamped_def)
  then have m: "k - 1 < length (rotations c v)" "since c u \<le> fst (rotations c v ! (k - 1))"
    using k(1) \<open>\<not> t < since c u\<close> by auto
  have "rotation_inv c" using inv by (simp add: debra_inv_def)
  note r = rotation_invD[OF this v]
  have ne: "rotations c v \<noteq> []" using m(1) by auto
  have "snd (hd (rotations c v)) \<le> epoch (mem c)" using r(3)[OF hd_in_set[OF ne]] by simp
  then have "snd (rotations c v ! (k - 1)) + int (k - 1) < epoch (mem c)"
    using sorted_drop[OF r(1) m(1)] new r(2)[OF ne] by simp
  moreover have "atEpoch c u \<le> snd (rotations c v ! (k - 1))" using r(4)[OF nth_mem[OF m(1)] u m(2)] .
  moreover have "epoch (mem c) \<le> atEpoch c u + 2" using inv u by (auto simp: debra_inv_def epoch_inv_def thread_inv_def Let_def)
  ultimately show False using k(1) by simp
qed

lemma rotated_stamped:
  assumes inv: "debra_inv c" and v: "v < NUM_PROCESSES (mem c)"
    and rot: "rotated_all v (\<lambda>(a, t). (ver a, now c)) (mem c) d" and i: "i < NUMBER_OF_EPOCH_BAGS"
    and x: "x \<in># tb_items (bags d T v) i"
    and c': "now c' = Suc (now c)" "rotations c' v = (now c, r) # rotations c v"
  shows "stamped c' v (age (bags d T v) i) (snd x)"
proof -
  let ?tb = "bags (mem c) T v"
  have ix: "index ?tb < 9" using inv v by (simp add: debra_inv_def bag_inv_def tb_ok_def)
  have idx: "index (bags d T v) = (index ?tb + 1) mod 9" using rot by (simp add: rotated_all_def)
  have nf: "i \<noteq> freed_ix ?tb" and it: "x \<in># tb_items ?tb i + new_versions v (\<lambda>(a, t). (ver a, now c)) (mem c) T i"
    using rot i x by (auto simp: rotated_all_def split: if_splits)
  note ag = age_facts[OF ix i] age_facts(3)[OF ix i idx]
  show ?thesis
  proof (cases "x \<in># tb_items ?tb i")
    case True
    then have s: "stamped c v (age ?tb i) (snd x)" using inv v i by (simp add: debra_inv_def bag_inv_def)
    then have "age ?tb i < 5" using nf ag(1) by (simp add: stamped_def)
    then show ?thesis using s ag(4) c' by (auto simp: stamped_def nth_Cons split: nat.splits)
  next
    case False
    then have "x \<in># new_versions v (\<lambda>(a, t). (ver a, now c)) (mem c) T i" using it by simp
    then have "T = VersionR" "i = index ?tb" "snd x = now c" by (auto simp: new_versions_def split: if_splits)
    then show ?thesis using ag c' by (simp add: stamped_def)
  qed
qed

section \<open>Every step keeps the invariant\<close>

lemma stamped_mono: "stamped c v k t \<Longrightarrow> now c \<le> now c' \<Longrightarrow> rotations c' v = rotations c v \<Longrightarrow> stamped c' v k t"
  by (auto simp: stamped_def)

lemma debra_inv_frame:
  assumes inv: "debra_inv c" and ei: "epoch_inv c'"
    and same: "NUM_PROCESSES (mem c') = NUM_PROCESSES (mem c)" "bags (mem c') = bags (mem c)" "allocs (mem c') = allocs (mem c)"
      "localvar_announcedEpoch (mem c') = localvar_announcedEpoch (mem c)" "rotations c' = rotations c" "now c' = Suc (now c)"
    and ep: "epoch (mem c) \<le> epoch (mem c')"
    and act: "\<And>u. active c' u \<Longrightarrow> active c u \<and> since c' u = since c u \<and> atEpoch c' u = atEpoch c u \<or> since c' u = now c"
  shows "debra_inv c'"
proof -
  have i: "bag_inv c" "rotation_inv c" "freed_inv c" using inv by (simp_all add: debra_inv_def)
  have "bag_inv c'"
    using i(1) stamped_mono[of c _ _ _ c'] unfolding bag_inv_def same by (simp add: same)
  moreover have "rotation_inv c'"
    unfolding rotation_inv_def same
  proof (intro allI impI conjI ballI)
    fix v assume v: "v < NUM_PROCESSES (mem c)"
    note r = rotation_invD[OF i(2) v]
    show "sorted_wrt (\<lambda>p q. snd q < snd p) (rotations c v)" by (rule r(1))
    show "snd (hd (rotations c v)) = localvar_announcedEpoch (mem c) v" if "rotations c v \<noteq> []" using r(2)[OF that] .
    fix p assume p: "p \<in> set (rotations c v)"
    show "fst p < Suc (now c)" "snd p \<le> epoch (mem c')" using r(3)[OF p] ep by auto
    show "atEpoch c' u \<le> snd p" if "u < NUM_PROCESSES (mem c)" "active c' u" "since c' u \<le> fst p" for u
      using act[OF that(2)] r(3)[OF p] r(4)[OF p that(1)] that(3) by auto
  qed
  moreover have "freed_inv c'"
    using i(3) act unfolding freed_inv_def same by (fastforce simp: less_Suc_eq)
  ultimately show ?thesis using ei by (simp add: debra_inv_def)
qed

lemma debra_inv_enter:
  assumes inv: "debra_inv c" and pc: "pc c w = Quiet" and w: "w < NUM_PROCESSES (mem c)"
    and st: "startOp_enter w (\<lambda>(a, t). (ver a, now c)) (mem c) = Some (r, rot, d)"
  shows "debra_inv (c\<lparr>mem := d, pc := (pc c)(w := Entered r), now := Suc (now c),
      rotations := (if rot then (rotations c)(w := (now c, r) # rotations c w) else rotations c)\<rparr>)" (is "debra_inv ?c")
proof -
  let ?ver = "\<lambda>(a, t). (ver a, now c)"
  have i: "epoch_inv c" "bag_inv c" "rotation_inv c" "freed_inv c" using inv by (simp_all add: debra_inv_def)
  have ok: "tb_ok (bags (mem c) T w)" for T using i(2) w by (simp add: bag_inv_def)
  obtain r' rot' d' where "startOp_enter w ?ver (mem c) = Some (r', rot', d')" "r' = epoch (mem c)"
      "rot' \<longleftrightarrow> localvar_announcedEpoch (mem c) w \<noteq> epoch (mem c)"
      "NUM_PROCESSES d' = NUM_PROCESSES (mem c)" "epoch d' = epoch (mem c)" "announcedEpoch d' = announcedEpoch (mem c)"
      "localvar_announcedEpoch d' = (localvar_announcedEpoch (mem c))(w := epoch (mem c))"
      "checked d' = (if rot' then (checked (mem c))(w := 0) else checked (mem c))"
      "if rot' then rotated_all w ?ver (mem c) ((mem c)\<lparr>bags := bags d', allocs := allocs d'\<rparr>)
       else bags d' = bags (mem c) \<and> allocs d' = allocs (mem c)"
    by (rule startOp_enter_spec[OF ok])
  then have e: "r = epoch (mem c)" "rot \<longleftrightarrow> localvar_announcedEpoch (mem c) w \<noteq> epoch (mem c)"
      "NUM_PROCESSES d = NUM_PROCESSES (mem c)" "epoch d = epoch (mem c)" "announcedEpoch d = announcedEpoch (mem c)"
      "localvar_announcedEpoch d = (localvar_announcedEpoch (mem c))(w := epoch (mem c))"
      "checked d = (if rot then (checked (mem c))(w := 0) else checked (mem c))"
      "if rot then rotated_all w ?ver (mem c) ((mem c)\<lparr>bags := bags d, allocs := allocs d\<rparr>)
       else bags d = bags (mem c) \<and> allocs d = allocs (mem c)"
    using st by auto
  have a: "active ?c v = active c v" for v using pc by (auto simp: active_def)
  have ei: "epoch_inv ?c" unfolding e(1) by (rule epoch_inv_enter[OF i(1) pc w e(3-7,2)])
  show ?thesis
  proof (cases rot)
    case False
    have loc: "localvar_announcedEpoch d = localvar_announcedEpoch (mem c)" using False e(2,6) by auto
    show ?thesis
      by (rule debra_inv_frame[OF inv ei]) (use False e a loc in auto)
  next
    case True
    let ?d = "(mem c)\<lparr>bags := bags d, allocs := allocs d\<rparr>"
    have rot: "rotated_all w ?ver (mem c) ?d" and new: "localvar_announcedEpoch (mem c) w \<noteq> epoch (mem c)" using True e(2,8) by auto
    have "bag_inv ?c"
      unfolding bag_inv_def
    proof (intro allI impI conjI ballI)
      fix v T assume v: "v < NUM_PROCESSES (mem ?c)"
      show "tb_ok (bags (mem ?c) T v)"
        using rot v i(2) e(3) by (cases "v = w") (auto simp: rotated_all_def bag_inv_def)
      fix i x assume i': "i < 9" and x: "x \<in># tb_items (bags (mem ?c) T v) i"
      show "stamped ?c v (age (bags (mem ?c) T v) i) (snd x)"
      proof (cases "v = w")
        case True
        then show ?thesis using rotated_stamped[OF inv w rot i', of x T ?c r] x \<open>rot\<close> by simp
      next
        case False
        then have "bags d T v = bags (mem c) T v" using rot by (simp add: rotated_all_def)
        then have "stamped c v (age (bags (mem ?c) T v) i) (snd x)" using i(2) v i' x e(3) by (simp add: bag_inv_def)
        then show ?thesis by (rule stamped_mono) (use False in auto)
      qed
    qed
    moreover have "rotation_inv ?c"
      unfolding rotation_inv_def
    proof (intro allI impI)
      fix v assume v: "v < NUM_PROCESSES (mem ?c)"
      then have v': "v < NUM_PROCESSES (mem c)" using e(3) by simp
      note r = rotation_invD[OF i(3) v']
      have at: "atEpoch c u \<le> epoch (mem c)" if "u < NUM_PROCESSES (mem c)" "active c u" for u
        using i(1) that by (auto simp: epoch_inv_def thread_inv_def Let_def)
      show "sorted_wrt (\<lambda>p q. snd q < snd p) (rotations ?c v) \<and>
         (rotations ?c v \<noteq> [] \<longrightarrow> snd (hd (rotations ?c v)) = localvar_announcedEpoch (mem ?c) v) \<and>
         (\<forall>p\<in>set (rotations ?c v). fst p < now ?c \<and> snd p \<le> epoch (mem ?c) \<and>
            (\<forall>u<NUM_PROCESSES (mem ?c). active ?c u \<longrightarrow> since ?c u \<le> fst p \<longrightarrow> atEpoch ?c u \<le> snd p))"
      proof (cases "v = w")
        case True
        have lt: "snd p < epoch (mem c)" if p: "p \<in> set (rotations c w)" for p
        proof -
          have ne: "rotations c w \<noteq> []" using p by auto
          obtain k where "k < length (rotations c w)" "p = rotations c w ! k" using p by (auto simp: in_set_conv_nth)
          then show ?thesis
            using sorted_drop[OF r(1), of k] r(2) r(3)[OF hd_in_set] ne new True by (auto simp: order.order_iff_strict)
        qed
        show ?thesis unfolding a using True \<open>rot\<close> r lt at e by (auto simp: less_Suc_eq)
      next
        case False
        then show ?thesis unfolding a using \<open>rot\<close> r e by (auto simp: less_Suc_eq)
      qed
    qed
    moreover have "freed_inv ?c"
      unfolding freed_inv_def
    proof (intro allI ballI)
      fix T x assume "x \<in> set (al_freed (allocs (mem ?c) T))"
      then have "x \<in># mset (al_freed (allocs (mem c) T)) + tb_items (bags (mem c) T w) (freed_ix (bags (mem c) T w))"
        using rot by (simp add: rotated_all_def flip: set_mset_mset)
      then consider (old) "x \<in> set (al_freed (allocs (mem c) T))" | (new) "x \<in># tb_items (bags (mem c) T w) (freed_ix (bags (mem c) T w))"
        by auto
      then show "snd x < now ?c \<and> (\<forall>u<NUM_PROCESSES (mem ?c). active ?c u \<longrightarrow> snd x < since ?c u)"
      proof cases
        case old
        then show ?thesis using i(4) unfolding a by (fastforce simp: freed_inv_def e(3))
      next
        case new
        have ix: "index (bags (mem c) T w) < 9" "freed_ix (bags (mem c) T w) < 9" using ok[of T] by (auto simp: tb_ok_def)
        have "stamped c w 5 (snd x)"
          using i(2) w new ix age_facts(1)[OF ix] unfolding bag_inv_def by fastforce
        then show ?thesis
          using grace[OF inv w \<open>localvar_announcedEpoch (mem c) w \<noteq> epoch (mem c)\<close>, of _ 5 "snd x"] unfolding a
          by (auto simp: stamped_def e(3))
      qed
    qed
    ultimately show ?thesis using ei by (simp add: debra_inv_def)
  qed
qed

lemma debra_inv_retire:
  assumes inv: "debra_inv c" and pc: "pc c w = InOp" and st: "debra_retire T w (a, now c) (mem c) = Some d"
  shows "debra_inv (c\<lparr>mem := d, now := Suc (now c)\<rparr>)" (is "debra_inv ?c")
proof -
  have i: "epoch_inv c" "bag_inv c" "rotation_inv c" "freed_inv c" using inv by (simp_all add: debra_inv_def)
  have w: "w < NUM_PROCESSES (mem c)" using epoch_invD[OF i(1)] pc by auto
  have ok: "tb_ok (bags (mem c) T w)" using i(2) w by (simp add: bag_inv_def)
  obtain tb where "debra_retire T w (a, now c) (mem c) = Some (set_bags T w tb (mem c))" and tb: "tb_ok tb" "index tb = index (bags (mem c) T w)"
      "\<And>i. i < 9 \<Longrightarrow> tb_items tb i = tb_items (bags (mem c) T w) i + (if i = index (bags (mem c) T w) then {#(a, now c)#} else {#})"
    by (rule debra_retire_spec[OF ok]) blast
  then have d: "d = set_bags T w tb (mem c)" using st by simp
  have ac: "active ?c v = active c v" for v by (simp add: active_def)
  have "thread_inv ?c v" if "v < NUM_PROCESSES (mem c)" for v
    by (rule thread_inv_frame[of c]) (use i(1) that ac in \<open>auto simp: epoch_inv_def d\<close>)
  then have ei: "epoch_inv ?c" using i(1) by (simp add: epoch_inv_def d)
  have "bag_inv ?c"
    unfolding bag_inv_def
  proof (intro allI impI conjI ballI)
    fix v T' assume v: "v < NUM_PROCESSES (mem ?c)"
    show "tb_ok (bags (mem ?c) T' v)" using i(2) v tb(1) by (auto simp: bag_inv_def d)
    fix i x assume i': "i < 9" and x: "x \<in># tb_items (bags (mem ?c) T' v) i"
    show "stamped ?c v (age (bags (mem ?c) T' v) i) (snd x)"
    proof (cases "T' = T \<and> v = w \<and> i = index (bags (mem c) T w) \<and> x = (a, now c)")
      case True
      then have "age (bags (mem ?c) T' v) i = 0" by (simp add: age_def d tb(2))
      then show ?thesis using True by (simp add: stamped_def)
    next
      case False
      then have "x \<in># tb_items (bags (mem c) T' v) i" using x tb(3)[OF i'] by (auto simp: d split: if_splits)
      then have "stamped c v (age (bags (mem c) T' v) i) (snd x)" using i(2) v i' by (simp add: bag_inv_def d)
      moreover have "age (bags (mem ?c) T' v) i = age (bags (mem c) T' v) i" by (simp add: age_def d tb(2))
      ultimately show ?thesis using stamped_mono[of c v _ "snd x" ?c] by simp
    qed
  qed
  moreover have "rotation_inv ?c"
    using i(3) unfolding rotation_inv_def ac by (fastforce simp: d less_Suc_eq)
  moreover have "freed_inv ?c"
    using i(4) unfolding freed_inv_def ac by (fastforce simp: d less_Suc_eq)
  ultimately show ?thesis using ei by (simp add: debra_inv_def)
qed

lemma debra_step_inv: "debra_step c c' \<Longrightarrow> debra_inv c \<Longrightarrow> debra_inv c'"
proof (induction rule: debra_step.induct)
  case (enter c v ver r rot d)
  then show ?case by (intro debra_inv_enter)
next
  case (announce c v r scan d)
  then have ei: "epoch_inv c" by (simp add: debra_inv_def)
  show ?case
    by (rule debra_inv_frame[OF announce(3) epoch_inv_announce[OF ei announce(1,2)]])
      (use announce(1,2) in \<open>auto simp: startOp_announce_def Let_def active_def split: if_splits\<close>)
next
  case (scan c v r adv d)
  then have ei: "epoch_inv c" by (simp add: debra_inv_def)
  show ?case
    by (rule debra_inv_frame[OF scan(3) epoch_inv_scan[OF ei scan(1,2)]])
      (use scan(1,2) in \<open>auto simp: startOp_scan_def Let_def active_def split: if_splits\<close>)
next
  case (advance c v r)
  then have ei: "epoch_inv c" by (simp add: debra_inv_def)
  show ?case
    by (rule debra_inv_frame[OF advance(2) epoch_inv_advance[OF ei advance(1)]])
      (use advance(1) in \<open>auto simp: startOp_advance_def active_def split: if_splits\<close>)
next
  case (retire c v T a d)
  then show ?case by (intro debra_inv_retire)
next
  case (finish c v)
  then have ei: "epoch_inv c" by (simp add: debra_inv_def)
  show ?case
    by (rule debra_inv_frame[OF finish(2) epoch_inv_finish[OF ei finish(1)]])
      (auto simp: debra_endOp_def active_def split: if_splits)
qed

lemma conc_start_inv:
  assumes "\<And>T. al_freed (al T) = []"
  shows "debra_inv (conc_start n al)"
proof -
  let ?d = "debra_start n al"
  have f: "NUM_PROCESSES ?d = n" "epoch ?d = 0" "localvar_announcedEpoch ?d = (\<lambda>_. 1)" "announcedEpoch ?d = (\<lambda>_. 1)"
      "checked ?d = (\<lambda>_. 0)" "allocs ?d = al"
    by (subst debra_start_spec(2), simp add: debra_new_def GET_WITH_QUIESCENT_def)+
  have "QUIESCENT 1" by (simp add: QUIESCENT_def)
  then have "epoch_inv (conc_start n al)"
    by (simp add: epoch_inv_def thread_inv_def Let_def active_def conc_start_def f)
  moreover have "bag_inv (conc_start n al)"
    using debra_start_spec(1)[of _ n al] by (auto simp: bag_inv_def conc_start_def f registered_def)
  ultimately show ?thesis using assms
    by (simp add: debra_inv_def rotation_inv_def freed_inv_def conc_start_def f)
qed

lemma debra_reachable_inv:
  assumes "debra_step\<^sup>*\<^sup>* (conc_start n al) c" and "\<And>T. al_freed (al T) = []"
  shows "debra_inv c"
  using assms(1)
proof (induction rule: rtranclp_induct)
  case base
  show ?case using conc_start_inv[of al n] assms(2) by blast
next
  case (step y z)
  show ?case by (rule debra_step_inv[OF step(2,3)])
qed

text \<open>The operations that a thread may run next never leave the bounds of the arrays and the blocks.\<close>

lemma debra_inv_enabled:
  assumes inv: "debra_inv c" and v: "v < NUM_PROCESSES (mem c)"
  shows "\<exists>r rot d. startOp_enter v ver (mem c) = Some (r, rot, d)" "\<exists>d. debra_retire T v p (mem c) = Some d"
    "pc c v = Scanning r \<Longrightarrow> checked (mem c) v < NUM_PROCESSES (mem c)"
proof -
  have ok: "tb_ok (bags (mem c) T v)" for T using inv v by (simp add: debra_inv_def bag_inv_def)
  show "\<exists>r rot d. startOp_enter v ver (mem c) = Some (r, rot, d)" by (rule startOp_enter_spec[OF ok]) blast
  show "\<exists>d. debra_retire T v p (mem c) = Some d" by (rule debra_retire_spec[OF ok]) blast
  show "checked (mem c) v < NUM_PROCESSES (mem c)" if "pc c v = Scanning r"
    using inv v that by (auto simp: debra_inv_def epoch_inv_def thread_inv_def Let_def)
qed

end
