(* ===== verification/Debra_Progress.thy ===== *)
theory Debra_Progress
  imports Debra_Safety
begin

text \<open>
  Progress of the reclaimer.  A thread that runs operations while the others are quiescent frees every record
  in its bags within a hundred operations per thread.  Deregistering a thread frees what its bags hold and
  leaves it without bags.  The last section has a run that the witnesses share.
\<close>

section \<open>Retired records are freed\<close>

text \<open>
  An operation of the data structure that retires nothing, and \<open>k\<close> of them in a row.  What the nodes point to
  may change from one operation to the next.
\<close>

definition debra_op :: "nat \<Rightarrow> ('a \<Rightarrow> 'a) \<Rightarrow> 'a debra \<Rightarrow> 'a debra option" where
  "debra_op tid ver d = do { (rot, d) \<leftarrow> debra_startOp tid ver d; Some (debra_endOp tid d) }"

fun debra_ops :: "nat \<Rightarrow> nat \<Rightarrow> (nat \<Rightarrow> 'a \<Rightarrow> 'a) \<Rightarrow> 'a debra \<Rightarrow> 'a debra option" where
  "debra_ops 0 tid vers d = Some d"
| "debra_ops (Suc k) tid vers d = do { d \<leftarrow> debra_op tid (vers k) d; debra_ops k tid vers d }"

text \<open>The thread is registered and between operations, and the other threads are quiescent.\<close>

definition solo :: "nat \<Rightarrow> 'a debra \<Rightarrow> bool" where
  "solo v d \<longleftrightarrow> v < NUM_PROCESSES d \<and> even (epoch d) \<and> opsSinceRead d v < MIN_OPS_BEFORE_READ \<and>
     (localvar_announcedEpoch d v = epoch d \<longrightarrow> checked d v < NUM_PROCESSES d) \<and>
     (\<forall>u<NUM_PROCESSES d. u \<noteq> v \<longrightarrow> QUIESCENT (announcedEpoch d u)) \<and> (\<forall>T. tb_ok (bags d T v))"

definition ops_left :: "nat \<Rightarrow> 'a debra \<Rightarrow> nat" where
  "ops_left v d = (if localvar_announcedEpoch d v = epoch d
     then MIN_OPS_BEFORE_READ * (NUM_PROCESSES d - checked d v) - opsSinceRead d v else 0)"

text \<open>After the rotation the operation announces, scans one thread at most, and may advance the epoch.\<close>

lemma op_after_enter:
  assumes enter: "startOp_enter v ver d = Some (r, rot, d1)" and r: "r = epoch d1"
    and so: "solo v d1" and own: "localvar_announcedEpoch d1 v = epoch d1"
  obtains d' where "debra_op v ver d = Some d'" and "solo v d'" and "Suc (ops_left v d') = ops_left v d1"
    and "bags d' = bags d1" and "allocs d' = allocs d1" and "NUM_PROCESSES d' = NUM_PROCESSES d1"
proof -
  let ?n = "NUM_PROCESSES d1" and ?c = "checked d1 v" and ?o = "opsSinceRead d1 v"
  have a: "v < ?n" "even (epoch d1)" "?o < 10" "?c < ?n" "\<And>u. u < ?n \<Longrightarrow> u \<noteq> v \<Longrightarrow> QUIESCENT (announcedEpoch d1 u)"
      "\<And>T. tb_ok (bags d1 T v)"
    using so own by (auto simp: solo_def)
  have seen: "BITS_EPOCH (((announcedEpoch d1)(v := epoch d1)) ?c) = epoch d1 \<or> QUIESCENT (((announcedEpoch d1)(v := epoch d1)) ?c)"
    using a(5)[OF a(4)] announced_bits(1)[OF a(2)] by simp
  show ?thesis
  proof (cases "Suc ?o = 10")
    case False
    have "debra_op v ver d = Some (d1\<lparr>announcedEpoch := (announcedEpoch d1)(v := GET_WITH_QUIESCENT (epoch d1)),
        opsSinceRead := (opsSinceRead d1)(v := Suc ?o)\<rparr>)"
      using False own by (simp add: debra_op_def debra_startOp_def enter r startOp_announce_def debra_endOp_def Let_def)
    then show ?thesis by (rule that) (use a own False in \<open>auto simp: solo_def ops_left_def\<close>)
  next
    case True
    define d2 where "d2 = d1\<lparr>announcedEpoch := (announcedEpoch d1)(v := epoch d1), opsSinceRead := (opsSinceRead d1)(v := 0)\<rparr>"
    let ?d3 = "d2\<lparr>checked := (checked d1)(v := Suc ?c)\<rparr>"
    have s: "startOp_scan v (epoch d1) d2 = (?n \<le> Suc ?c, ?d3)"
      using seen by (simp add: startOp_scan_def d2_def Let_def)
    have an: "startOp_announce v (epoch d1) d1 = (True, d2)" using True by (simp add: startOp_announce_def d2_def Let_def)
    have e: "debra_op v ver d = Some (debra_endOp v (if ?n \<le> Suc ?c then startOp_advance (epoch d1) ?d3 else ?d3))"
      by (simp add: debra_op_def debra_startOp_def enter r an s)
    show ?thesis
      by (rule that[OF e])
        (use a own True in \<open>auto simp: solo_def ops_left_def debra_endOp_def startOp_advance_def d2_def\<close>)
  qed
qed

lemma enter_ops:
  assumes "startOp_enter v ver d = Some (r, rot, d')" and "\<And>T. tb_ok (bags d T v)"
  shows "opsSinceRead d' = opsSinceRead d"
proof (cases "localvar_announcedEpoch d v = epoch d")
  case True
  then show ?thesis using assms(1) by (auto simp: startOp_enter_def Let_def)
next
  case False
  let ?d = "d\<lparr>localvar_announcedEpoch := (localvar_announcedEpoch d)(v := epoch d), checked := (checked d)(v := 0)\<rparr>"
  obtain d'' where d': "rotateAllEpochBags v ver ?d = Some d''" "rotated_all v ver ?d d''"
    by (rule rotateAll_spec[of ?d v ver]) (use assms in simp_all)
  have "d'' = ?d\<lparr>bags := bags d'', allocs := allocs d''\<rparr>" using d'(2) by (simp add: rotated_all_def)
  then have "opsSinceRead d'' = opsSinceRead ?d" by (metis debra.select_convs(6) debra.surjective debra.update_convs(7,8))
  then show ?thesis using assms(1) d'(1) False by (auto simp: startOp_enter_def Let_def)
qed

text \<open>How many rotations pass before the one that frees bag \<open>i\<close>, and after how many operations it is over.\<close>

definition until_freed :: "'a thread_bags \<Rightarrow> nat \<Rightarrow> nat" where
  "until_freed tb i = (i + 14 - index tb) mod NUMBER_OF_EPOCH_BAGS"

lemma until_freed_rotate:
  assumes "index tb < NUMBER_OF_EPOCH_BAGS" and "i < NUMBER_OF_EPOCH_BAGS" and "index tb' = (index tb + 1) mod NUMBER_OF_EPOCH_BAGS"
  shows "i = freed_ix tb \<or> Suc (until_freed tb' i) = until_freed tb i"
proof -
  have "index tb \<in> {0,1,2,3,4,5,6,7,8}" "i \<in> {0,1,2,3,4,5,6,7,8}" using assms(1,2) by auto
  then show ?thesis unfolding until_freed_def assms(3) by (elim insertE emptyE) simp_all
qed

definition work_left :: "record_type \<Rightarrow> nat \<Rightarrow> nat \<Rightarrow> 'a debra \<Rightarrow> nat" where
  "work_left T v i d = MIN_OPS_BEFORE_READ * NUM_PROCESSES d * until_freed (bags d T v) i + ops_left v d + 1"

lemma ops_left_bound: "ops_left v d \<le> MIN_OPS_BEFORE_READ * NUM_PROCESSES d"
proof -
  have "10 * (NUM_PROCESSES d - checked d v) \<le> 10 * NUM_PROCESSES d" by simp
  then have "10 * (NUM_PROCESSES d - checked d v) - opsSinceRead d v \<le> 10 * NUM_PROCESSES d"
    by (rule order_trans[OF diff_le_self])
  then show ?thesis by (simp add: ops_left_def)
qed

lemma work_left_bound:
  assumes "v < NUM_PROCESSES d"
  shows "work_left T v i d \<le> 100 * NUM_PROCESSES d"
proof -
  have "until_freed (bags d T v) i \<le> 8" unfolding until_freed_def by (simp add: less_Suc_eq_le[symmetric])
  then have "10 * NUM_PROCESSES d * until_freed (bags d T v) i \<le> 10 * NUM_PROCESSES d * 8" by (rule mult_le_mono2)
  then show ?thesis using assms ops_left_bound[of v d] unfolding work_left_def by linarith
qed

lemma solo_op:
  assumes so: "solo v d"
  obtains d' where "debra_op v ver d = Some d'" and "solo v d'" and "NUM_PROCESSES d' = NUM_PROCESSES d"
    and "\<And>T. set (al_freed (allocs d T)) \<subseteq> set (al_freed (allocs d' T))"
    and "\<And>T i x. i < NUMBER_OF_EPOCH_BAGS \<Longrightarrow> x \<in># tb_items (bags d T v) i \<Longrightarrow>
      x \<in> set (al_freed (allocs d' T)) \<or> x \<in># tb_items (bags d' T v) i \<and> work_left T v i d' < work_left T v i d"
proof -
  have ok: "tb_ok (bags d T v)" for T using so by (simp add: solo_def)
  obtain r rot d1 where e: "startOp_enter v ver d = Some (r, rot, d1)" "r = epoch d"
      "rot \<longleftrightarrow> localvar_announcedEpoch d v \<noteq> epoch d" "NUM_PROCESSES d1 = NUM_PROCESSES d" "epoch d1 = epoch d"
      "announcedEpoch d1 = announcedEpoch d" "localvar_announcedEpoch d1 = (localvar_announcedEpoch d)(v := epoch d)"
      "checked d1 = (if rot then (checked d)(v := 0) else checked d)"
      "if rot then rotated_all v ver d (d\<lparr>bags := bags d1, allocs := allocs d1\<rparr>) else bags d1 = bags d \<and> allocs d1 = allocs d"
    by (rule startOp_enter_spec[OF ok])
  have own: "localvar_announcedEpoch d1 v = epoch d1" using e by simp
  have ok1: "tb_ok (bags d1 T v)" for T using e(9) ok by (auto simp: rotated_all_def split: if_splits)
  have s1: "solo v d1" using e so ok1 enter_ops[OF e(1) ok] by (auto simp: solo_def split: if_splits)
  obtain d' where d': "debra_op v ver d = Some d'" "solo v d'" "Suc (ops_left v d') = ops_left v d1"
      "bags d' = bags d1" "allocs d' = allocs d1" "NUM_PROCESSES d' = NUM_PROCESSES d1"
    by (rule op_after_enter[OF e(1) _ s1 own]) (use e in simp)
  have fr: "mset (al_freed (allocs d1 T)) = mset (al_freed (allocs d T)) +
      (if rot then tb_items (bags d T v) (freed_ix (bags d T v)) else {#})" for T
    using e(9) by (auto simp: rotated_all_def split: if_splits)
  have sub: "set (al_freed (allocs d T)) \<subseteq> set (al_freed (allocs d' T))" for T
    using arg_cong[OF fr[of T], of set_mset] d'(5) by auto
  have "x \<in> set (al_freed (allocs d' T)) \<or> x \<in># tb_items (bags d' T v) i \<and> work_left T v i d' < work_left T v i d"
    if i: "i < 9" and x: "x \<in># tb_items (bags d T v) i" for T i x
  proof (cases rot)
    case False
    then have "ops_left v d1 = ops_left v d" using e enter_ops[OF e(1) ok] by (simp add: ops_left_def)
    then show ?thesis using False x d' e(4,9) by (simp add: work_left_def)
  next
    case True
    then have ro: "rotated_all v ver d (d\<lparr>bags := bags d1, allocs := allocs d1\<rparr>)" using e(9) by simp
    show ?thesis
    proof (cases "i = freed_ix (bags d T v)")
      case True
      then have "x \<in># mset (al_freed (allocs d1 T))" unfolding fr using x \<open>rot\<close> by simp
      then show ?thesis using d'(5) by simp
    next
      case ne: False
      have ix: "index (bags d T v) < 9" "index (bags d1 T v) = (index (bags d T v) + 1) mod 9"
        using ok[of T] ro by (simp_all add: tb_ok_def rotated_all_def)
      have u: "until_freed (bags d T v) i = Suc (until_freed (bags d1 T v) i)"
        using until_freed_rotate[OF ix(1) i ix(2)] ne by simp
      have "x \<in># tb_items (bags d1 T v) i" using ro x i ne by (simp add: rotated_all_def)
      moreover have "ops_left v d1 \<le> 10 * NUM_PROCESSES d" using e(4) ops_left_bound[of v d1] by simp
      ultimately show ?thesis using u d' e(4) by (simp add: work_left_def algebra_simps)
    qed
  qed
  with that[of d'] d' e(4) sub show ?thesis by simp
qed

lemma solo_ops_freed:
  assumes "solo v d" and "i < NUMBER_OF_EPOCH_BAGS"
    and "x \<in> set (al_freed (allocs d T)) \<or> x \<in># tb_items (bags d T v) i \<and> work_left T v i d \<le> k"
  shows "\<exists>d'. debra_ops k v vers d = Some d' \<and> solo v d' \<and> x \<in> set (al_freed (allocs d' T))"
  using assms(1,3)
proof (induction k arbitrary: d)
  case 0
  then show ?case by (auto simp: work_left_def)
next
  case (Suc k)
  obtain d1 where d1: "debra_op v (vers k) d = Some d1" "solo v d1" "NUM_PROCESSES d1 = NUM_PROCESSES d"
      "\<And>T. set (al_freed (allocs d T)) \<subseteq> set (al_freed (allocs d1 T))"
      "\<And>T i x. i < 9 \<Longrightarrow> x \<in># tb_items (bags d T v) i \<Longrightarrow>
        x \<in> set (al_freed (allocs d1 T)) \<or> x \<in># tb_items (bags d1 T v) i \<and> work_left T v i d1 < work_left T v i d"
    by (rule solo_op[OF Suc.prems(1), of "vers k"]) blast
  have "x \<in> set (al_freed (allocs d1 T)) \<or> x \<in># tb_items (bags d1 T v) i \<and> work_left T v i d1 \<le> k"
    using Suc.prems(2) d1(4)[of T] d1(5)[OF assms(2), of x T] by auto
  then show ?case using Suc.IH[OF d1(2)] d1(1) by simp
qed

text \<open>Every reachable state has the bookkeeping that progress needs.\<close>

lemma debra_step_ops:
  assumes "debra_step c c'" and "debra_inv c" and "\<And>v. opsSinceRead (mem c) v < MIN_OPS_BEFORE_READ"
  shows "opsSinceRead (mem c') v < MIN_OPS_BEFORE_READ"
  using assms
proof (induction rule: debra_step.induct)
  case (enter c w ver r rot d)
  have "tb_ok (bags (mem c) T w)" for T using enter by (simp add: debra_inv_def bag_inv_def)
  then have "opsSinceRead d = opsSinceRead (mem c)" using enter_ops enter(3) by blast
  then show ?case using enter by simp
next
  case (announce c w r scan d)
  have "opsSinceRead (mem c) w < 10" "opsSinceRead (mem c) v < 10" by (rule announce(4))+
  then show ?case using announce(2) by (auto simp: startOp_announce_def Let_def split: if_splits)
next
  case (scan c w r adv d)
  then show ?case by (auto simp: startOp_scan_def Let_def split: if_splits)
next
  case (advance c w r)
  then show ?case by (auto simp: startOp_advance_def)
next
  case (retire c w T a d)
  then have ok: "tb_ok (bags (mem c) T w)" using epoch_invD(1)[of c w] by (simp add: debra_inv_def bag_inv_def)
  show ?case by (rule debra_retire_spec[OF ok, of "(a, now c)"]) (use retire in auto)
next
  case (finish c w)
  then show ?case by (auto simp: debra_endOp_def)
qed

lemma debra_steps_procs:
  assumes "debra_step\<^sup>*\<^sup>* (conc_start n al) c" and "\<And>T. al_freed (al T) = []"
  shows "NUM_PROCESSES (mem c) = n"
  using assms(1)
proof (induction rule: rtranclp_induct)
  case base
  show ?case by (simp add: conc_start_def) (subst debra_start_spec(2), simp add: debra_new_def)
next
  case (step y z)
  have ok: "tb_ok (bags (mem y) T v)" if "v < NUM_PROCESSES (mem y)" for T v
    using debra_reachable_inv[OF step(1) assms(2)] that by (simp add: debra_inv_def bag_inv_def)
  from step(2,3) ok show ?case
  proof (induction rule: debra_step.induct)
    case (enter c w ver r rot d)
    show ?case by (rule startOp_enter_spec[of "mem c" w "\<lambda>(a, t). (ver a, now c)"]) (use enter in auto)
  qed (auto simp: startOp_announce_def startOp_scan_def startOp_advance_def debra_endOp_def debra_retire_def Let_def
      bind_eq_Some_conv split: if_splits option.splits)
qed

lemma debra_reachable_ops:
  assumes "debra_step\<^sup>*\<^sup>* (conc_start n al) c" and "\<And>T. al_freed (al T) = []"
  shows "opsSinceRead (mem c) v < MIN_OPS_BEFORE_READ"
  using assms(1)
proof (induction arbitrary: v rule: rtranclp_induct)
  case base
  have "opsSinceRead (debra_start n al) = (\<lambda>_. 0)" by (subst debra_start_spec(2)) (simp add: debra_new_def)
  then show ?case by (simp add: conc_start_def)
next
  case (step y z)
  show ?case by (rule debra_step_ops[OF step(2) debra_reachable_inv[OF step(1) assms(2)] step(3)])
qed

text \<open>\<open>startOp\<close> is the sequence of its steps, run without interruption.\<close>

lemma startOp_steps:
  assumes q: "pc c v = Quiet" and v: "v < NUM_PROCESSES (mem c)"
    and st: "debra_startOp v (\<lambda>(a, t). (ver a, now c)) (mem c) = Some (rot, d)"
  obtains c' where "debra_step\<^sup>*\<^sup>* c c'" and "mem c' = d" and "pc c' = (pc c)(v := InOp)" and "now c < now c'"
proof -
  obtain r rot' d1 where e': "startOp_enter v (\<lambda>(a, t). (ver a, now c)) (mem c) = Some (r, rot', d1)"
    using st by (cases "startOp_enter v (\<lambda>(a, t). (ver a, now c)) (mem c)") (auto simp: debra_startOp_def)
  then have e: "startOp_enter v (\<lambda>(a, t). (ver a, now c)) (mem c) = Some (r, rot, d1)"
    using st by (auto simp: debra_startOp_def split: prod.splits)
  obtain sc d2 where a: "startOp_announce v r d1 = (sc, d2)" by (meson surj_pair)
  obtain ad d3 where s: "startOp_scan v r d2 = (ad, d3)" by (meson surj_pair)
  have d: "d = (if sc then if ad then startOp_advance r d3 else d3 else d2)" using st e a s by (simp add: debra_startOp_def split: if_splits)
  define c1 where "c1 = c\<lparr>mem := d1, pc := (pc c)(v := Entered r), now := Suc (now c),
      rotations := (if rot then (rotations c)(v := (now c, r) # rotations c v) else rotations c)\<rparr>"
  define c2 where "c2 = c1\<lparr>mem := d2, pc := (pc c1)(v := (if sc then Scanning r else InOp)), now := Suc (now c1),
      since := (since c1)(v := now c1), atEpoch := (atEpoch c1)(v := epoch (mem c1))\<rparr>"
  define c3 where "c3 = c2\<lparr>mem := d3, pc := (pc c2)(v := (if ad then Advancing r else InOp)), now := Suc (now c2)\<rparr>"
  define c4 where "c4 = c3\<lparr>mem := startOp_advance r (mem c3), pc := (pc c3)(v := InOp), now := Suc (now c3)\<rparr>"
  have 1: "debra_step c c1" unfolding c1_def by (rule enter[OF q v e])
  have 2: "debra_step c1 c2" unfolding c2_def by (rule announce) (simp_all add: c1_def a)
  have 3: "debra_step c2 c3" if sc unfolding c3_def by (rule scan) (simp_all add: c2_def s that)
  have 4: "debra_step c3 c4" if ad unfolding c4_def by (rule advance) (simp add: c3_def that)
  show ?thesis
  proof (cases sc)
    case False
    show ?thesis by (rule that[of c2]) (use 1 2 False d in \<open>simp_all add: c2_def c1_def\<close>)
  next
    case sc: True
    show ?thesis
    proof (cases ad)
      case False
      show ?thesis by (rule that[of c3]) (use 1 2 3 sc False d in \<open>simp_all add: c3_def c2_def c1_def\<close>)
    next
      case True
      show ?thesis by (rule that[of c4]) (use 1 2 3 4 sc True d in \<open>simp_all add: c4_def c3_def c2_def c1_def\<close>)
    qed
  qed
qed

lemma solo_steps_freed:
  assumes "solo v (mem c)" and "pc c v = Quiet" and "i < NUMBER_OF_EPOCH_BAGS"
    and "x \<in> set (al_freed (allocs (mem c) T)) \<or> x \<in># tb_items (bags (mem c) T v) i \<and> work_left T v i (mem c) \<le> k"
  shows "\<exists>c'. debra_step\<^sup>*\<^sup>* c c' \<and> pc c' = pc c \<and> x \<in> set (al_freed (allocs (mem c') T))"
  using assms(1,2,4)
proof (induction k arbitrary: c)
  case 0
  then show ?case by (auto simp: work_left_def)
next
  case (Suc k)
  let ?ver = "\<lambda>(a, t). (a, now c)"
  obtain d where d: "debra_op v ?ver (mem c) = Some d" "solo v d" "NUM_PROCESSES d = NUM_PROCESSES (mem c)"
      "\<And>T. set (al_freed (allocs (mem c) T)) \<subseteq> set (al_freed (allocs d T))"
      "\<And>T i x. i < 9 \<Longrightarrow> x \<in># tb_items (bags (mem c) T v) i \<Longrightarrow>
        x \<in> set (al_freed (allocs d T)) \<or> x \<in># tb_items (bags d T v) i \<and> work_left T v i d < work_left T v i (mem c)"
    by (rule solo_op[OF Suc.prems(1), of ?ver]) blast
  obtain rot d1 where d1: "debra_startOp v (\<lambda>(a, t). (id a, now c)) (mem c) = Some (rot, d1)" "d = debra_endOp v d1"
    using d(1) by (auto simp: debra_op_def bind_eq_Some_conv)
  have v: "v < NUM_PROCESSES (mem c)" using Suc.prems(1) by (simp add: solo_def)
  obtain c1 where c1: "debra_step\<^sup>*\<^sup>* c c1" "mem c1 = d1" "pc c1 = (pc c)(v := InOp)" "now c < now c1"
    by (rule startOp_steps[OF Suc.prems(2) v d1(1)])
  let ?c = "c1\<lparr>mem := debra_endOp v (mem c1), pc := (pc c1)(v := Quiet), now := Suc (now c1)\<rparr>"
  have r: "debra_step\<^sup>*\<^sup>* c ?c" using c1(1) finish[of c1 v] c1(3) by (simp add: rtranclp.rtrancl_into_rtrancl)
  have c: "mem ?c = d" "pc ?c = pc c" using c1(2,3) d1(2) Suc.prems(2) by (simp_all add: fun_upd_idem_iff)
  have "x \<in> set (al_freed (allocs d T)) \<or> x \<in># tb_items (bags d T v) i \<and> work_left T v i d \<le> k"
    using Suc.prems(3) d(4)[of T] d(5)[OF assms(3), of x T] by auto
  then show ?case using Suc.IH[of ?c] c d(2) Suc.prems(2) r by (metis rtranclp_trans)
qed

lemma solo_reachable:
  assumes r: "debra_step\<^sup>*\<^sup>* (conc_start n al) c" and al: "\<And>T. al_freed (al T) = []"
    and q: "\<And>u. pc c u = Quiet" and v: "v < NUM_PROCESSES (mem c)"
  shows "solo v (mem c)"
proof -
  note inv = debra_reachable_inv[OF r al]
  have t: "thread_inv c u" if "u < NUM_PROCESSES (mem c)" for u using inv that by (simp add: debra_inv_def epoch_inv_def)
  have "even (epoch (mem c))" "\<And>T. tb_ok (bags (mem c) T v)" using inv v by (simp_all add: debra_inv_def epoch_inv_def bag_inv_def)
  moreover have "localvar_announcedEpoch (mem c) v = epoch (mem c) \<longrightarrow> checked (mem c) v < NUM_PROCESSES (mem c)"
    using t[OF v] q by (simp add: thread_inv_def Let_def)
  moreover have "QUIESCENT (announcedEpoch (mem c) u)" if "u < NUM_PROCESSES (mem c)" for u
    using t[OF that] q[of u] by (simp add: thread_inv_def Let_def active_def)
  ultimately show ?thesis using v debra_reachable_ops[OF r al] by (simp add: solo_def)
qed

section \<open>Deregistering\<close>

lemma deinit_bags_spec:
  assumes "pool_ok pool" and "\<forall>b\<in>set bs. \<exists>bag. b = Some bag \<and> bag_ok bag"
  shows "\<exists>pool' al'. deinit_bags bs pool al = Some (replicate (length bs) None, pool', al') \<and> pool_ok pool' \<and>
    mset (al_freed al') = mset (al_freed al) + (\<Sum>b\<leftarrow>bs. mset (bag_items (the b)))"
  using assms
proof (induction bs arbitrary: pool al)
  case (Cons b bs)
  obtain bag where bag: "b = Some bag" "bag_ok bag" using Cons.prems(2) by auto
  obtain b' p1 al1 where c: "deallocateAndClear bag pool al = Some (b', p1, al1)" "bag_ok b'" "bag_items b' = []" "pool_ok p1"
      "mset (al_freed al1) = mset (bag_items bag) + mset (al_freed al)" "al_next al1 = al_next al" "al_fresh al1 = al_fresh al"
    by (rule deallocateAndClear_spec[OF bag(2) Cons.prems(1)])
  obtain p2 where p2: "bag_delete b' p1 = Some p2" "pool_ok p2" by (rule bag_delete_spec[OF c(2,3,4)])
  obtain p3 al3 where i: "deinit_bags bs p2 al1 = Some (replicate (length bs) None, p3, al3)" "pool_ok p3"
      "mset (al_freed al3) = mset (al_freed al1) + (\<Sum>b\<leftarrow>bs. mset (bag_items (the b)))"
    using Cons.IH[OF p2(2), of al1] Cons.prems(2) by auto
  have "mset (al_freed al3) = mset (al_freed al) + (\<Sum>b\<leftarrow>b # bs. mset (bag_items (the b)))"
    unfolding i(3) c(5) by (simp add: bag(1))
  then show ?case using c(1) p2(1) i(1,2) by (simp add: bag(1) pool_none_addMoveAll_def)
qed simp

lemma deinitThread_type_spec:
  assumes "tb_ok (bags d T v)"
  obtains tb al where "deinitThread_type T v d = Some ((set_bags T v tb d)\<lparr>allocs := (allocs d)(T := al)\<rparr>)"
    and "unregistered tb" and "index tb = index (bags d T v)"
proof -
  have "pool_ok (tb_pool (bags d T v))" "\<forall>b\<in>set (epochbags (bags d T v)). \<exists>bag. b = Some bag \<and> bag_ok bag"
    and l: "length (epochbags (bags d T v)) = 9" "index (bags d T v) < 9" using assms by (simp_all add: tb_ok_def)
  then obtain pool al where "deinit_bags (epochbags (bags d T v)) (tb_pool (bags d T v)) (allocs d T) =
      Some (replicate 9 None, pool, al)" "pool_ok pool" using deinit_bags_spec[of "tb_pool (bags d T v)"] by metis
  then show ?thesis
    using that[of al "(bags d T v)\<lparr>epochbags := replicate 9 None, tb_pool := pool\<rparr>"] l
    by (simp add: deinitThread_type_def unregistered_def)
qed

section \<open>A sample run\<close>

definition sample_alloc :: "record_type \<Rightarrow> (nat \<times> nat) allocator_new" where
  "sample_alloc T = \<lparr>al_fresh = (\<lambda>k. (k, 0)), al_next = 0, al_freed = []\<rparr>"

text \<open>Thread 0 retires the SCX record at address 5 in its first operation.\<close>

lemma sample_retired:
  "\<exists>c t i. debra_step\<^sup>*\<^sup>* (conc_start 1 sample_alloc) c \<and> (\<forall>u. pc c u = Quiet) \<and> NUM_PROCESSES (mem c) = 1 \<and> i < 9 \<and>
    (5, t) \<in># tb_items (bags (mem c) SCXRecordR 0) i"
proof -
  let ?c0 = "conc_start 1 sample_alloc"
  have al: "al_freed (sample_alloc T) = []" for T by (simp add: sample_alloc_def)
  have N: "NUM_PROCESSES (mem ?c0) = 1" by (simp add: conc_start_def) (subst debra_start_spec(2), simp add: debra_new_def)
  have q: "pc ?c0 u = Quiet" for u by (simp add: conc_start_def)
  have v: "0 < NUM_PROCESSES (mem ?c0)" unfolding N by simp
  have so: "solo 0 (mem ?c0)" by (rule solo_reachable[OF rtranclp.rtrancl_refl al q v])
  obtain d' where d': "debra_op 0 (\<lambda>(a, t). (id a, now ?c0)) (mem ?c0) = Some d'" "NUM_PROCESSES d' = NUM_PROCESSES (mem ?c0)"
    by (rule solo_op[OF so, of "\<lambda>(a, t). (id a, now ?c0)"])
  then obtain rot d where d: "debra_startOp 0 (\<lambda>(a, t). (id a, now ?c0)) (mem ?c0) = Some (rot, d)" "d' = debra_endOp 0 d"
    by (auto simp: debra_op_def bind_eq_Some_conv)
  obtain c1 where c1: "debra_step\<^sup>*\<^sup>* ?c0 c1" "mem c1 = d" "pc c1 = (pc ?c0)(0 := InOp)" "now ?c0 < now c1"
    by (rule startOp_steps[OF q v d(1)])
  have N1: "NUM_PROCESSES (mem c1) = 1" using c1(2) d(2) d'(2) N unfolding debra_endOp_def by simp
  have ok: "tb_ok (bags (mem c1) SCXRecordR 0)"
    using debra_reachable_inv[OF c1(1) al] N1 by (simp add: debra_inv_def bag_inv_def)
  let ?i = "index (bags (mem c1) SCXRecordR 0)"
  have i: "?i < 9" using ok by (simp add: tb_ok_def)
  obtain tb where tb: "debra_retire SCXRecordR 0 (5, now c1) (mem c1) = Some (set_bags SCXRecordR 0 tb (mem c1))"
      "tb_items tb ?i = tb_items (bags (mem c1) SCXRecordR 0) ?i + {#(5, now c1)#}"
    by (rule debra_retire_spec[OF ok, of "(5, now c1)"]) (use i in auto)
  let ?c2 = "c1\<lparr>mem := set_bags SCXRecordR 0 tb (mem c1), now := Suc (now c1)\<rparr>"
  let ?c3 = "?c2\<lparr>mem := debra_endOp 0 (mem ?c2), pc := (pc ?c2)(0 := Quiet), now := Suc (now ?c2)\<rparr>"
  have "debra_step c1 ?c2" by (rule retire[OF _ tb(1)]) (simp add: c1(3))
  moreover have "debra_step ?c2 ?c3" by (rule finish) (simp add: c1(3))
  ultimately have "debra_step\<^sup>*\<^sup>* ?c0 ?c3" using c1(1) by (meson rtranclp.rtrancl_into_rtrancl)
  moreover have "\<forall>u. pc ?c3 u = Quiet" using c1(3) q by simp
  moreover have "NUM_PROCESSES (mem ?c3) = 1" using N1 by (simp add: debra_endOp_def)
  moreover have "(5, now c1) \<in># tb_items (bags (mem ?c3) SCXRecordR 0) ?i" using tb(2) by (simp add: debra_endOp_def)
  ultimately show ?thesis using i by blast
qed

text \<open>Later operations free it, and thread 0 goes on.\<close>

lemma sample_freed:
  "\<exists>c t. debra_step\<^sup>*\<^sup>* (conc_start 1 sample_alloc) c \<and> active c 0 \<and> (5, t) \<in> set (al_freed (allocs (mem c) SCXRecordR))"
proof -
  have al: "al_freed (sample_alloc T) = []" for T by (simp add: sample_alloc_def)
  obtain c t i where c: "debra_step\<^sup>*\<^sup>* (conc_start 1 sample_alloc) c" "\<And>u. pc c u = Quiet" "NUM_PROCESSES (mem c) = 1" "i < 9"
      "(5, t) \<in># tb_items (bags (mem c) SCXRecordR 0) i" using sample_retired by blast
  have so: "solo 0 (mem c)" by (rule solo_reachable[OF c(1) al c(2)]) (simp add: c(3))
  obtain c1 where c1: "debra_step\<^sup>*\<^sup>* c c1" "pc c1 = pc c" "(5, t) \<in> set (al_freed (allocs (mem c1) SCXRecordR))"
    using solo_steps_freed[OF so c(2,4), of "(5, t)" SCXRecordR "work_left SCXRecordR 0 i (mem c)"] c(5) by blast
  have r1: "debra_step\<^sup>*\<^sup>* (conc_start 1 sample_alloc) c1" using c(1) c1(1) by (rule rtranclp_trans)
  have q1: "pc c1 u = Quiet" for u using c1(2) c(2) by simp
  have "NUM_PROCESSES (mem c1) = 1" using debra_steps_procs[OF r1 al] .
  then have v: "0 < NUM_PROCESSES (mem c1)" by simp
  obtain d' where d': "debra_op 0 (\<lambda>(a, t). (id a, now c1)) (mem c1) = Some d'"
      "set (al_freed (allocs (mem c1) SCXRecordR)) \<subseteq> set (al_freed (allocs d' SCXRecordR))"
    by (rule solo_op[OF solo_reachable[OF r1 al q1 v], of "\<lambda>(a, t). (id a, now c1)"]) blast
  then obtain rot d where d: "debra_startOp 0 (\<lambda>(a, t). (id a, now c1)) (mem c1) = Some (rot, d)" "d' = debra_endOp 0 d"
    by (auto simp: debra_op_def bind_eq_Some_conv)
  obtain c2 where c2: "debra_step\<^sup>*\<^sup>* c1 c2" "mem c2 = d" "pc c2 = (pc c1)(0 := InOp)" "now c1 < now c2"
    by (rule startOp_steps[OF q1 v d(1)])
  have "(5, t) \<in> set (al_freed (allocs (mem c2) SCXRecordR))" using c1(3) d'(2) d(2) c2(2) by (auto simp: debra_endOp_def)
  moreover have "active c2 0" using c2(3) by (simp add: active_def)
  ultimately show ?thesis using rtranclp_trans[OF r1 c2(1)] by blast
qed

end
