(* ===== verification/Record_Manager.thy ===== *)
theory Record_Manager
  imports Debra_Progress
begin

text \<open>
  The record manager that the trees call (\<open>record_manager.h\<close>, \<open>record_manager_single_type.h\<close>): registration with
  one flag per thread, the guard around an operation, allocation and retirement.  It is instantiated as the
  microbenchmark does, with DEBRA, \<open>allocator_new\<close> and \<open>pool_none\<close>.  The recovery manager does nothing for
  DEBRA, which does not support crash recovery.
\<close>

section \<open>Operations\<close>

record 'a record_manager =
  rm_init :: "nat \<Rightarrow> bool"
  rm_set :: "'a debra"

definition record_manager_new :: "nat \<Rightarrow> (record_type \<Rightarrow> 'a allocator_new) \<Rightarrow> 'a record_manager" where
  "record_manager_new numProcesses al = \<lparr>rm_init = (\<lambda>_. False), rm_set = debra_new numProcesses al\<rparr>"

definition rm_initThread :: "nat \<Rightarrow> 'a record_manager \<Rightarrow> 'a record_manager" where
  "rm_initThread tid R =
    (if rm_init R tid then R
     else R\<lparr>rm_init := (rm_init R)(tid := True), rm_set := debra_initThread tid (rm_set R)\<rparr>)"

definition rm_deinitThread :: "nat \<Rightarrow> 'a record_manager \<Rightarrow> 'a record_manager option" where
  "rm_deinitThread tid R =
    (if \<not> rm_init R tid then Some R
     else do {
       d \<leftarrow> debra_deinitThread tid (rm_set R);
       Some (R\<lparr>rm_init := (rm_init R)(tid := False), rm_set := d\<rparr>)
     })"

definition rm_isQuiescent :: "nat \<Rightarrow> 'a record_manager \<Rightarrow> bool" where
  "rm_isQuiescent tid R = isQuiescent tid (rm_set R)"

definition rm_startOp :: "nat \<Rightarrow> ('a \<Rightarrow> 'a) \<Rightarrow> 'a record_manager \<Rightarrow> 'a record_manager option" where
  "rm_startOp tid ver R =
    do { asserting (rm_init R tid); (rotated, d) \<leftarrow> debra_startOp tid ver (rm_set R); Some (R\<lparr>rm_set := d\<rparr>) }"

definition rm_endOp :: "nat \<Rightarrow> 'a record_manager \<Rightarrow> 'a record_manager option" where
  "rm_endOp tid R = do { asserting (rm_init R tid); Some (R\<lparr>rm_set := debra_endOp tid (rm_set R)\<rparr>) }"

definition rm_retire :: "record_type \<Rightarrow> nat \<Rightarrow> 'a \<Rightarrow> 'a record_manager \<Rightarrow> 'a record_manager option" where
  "rm_retire T tid p R = do { d \<leftarrow> debra_retire T tid p (rm_set R); Some (R\<lparr>rm_set := d\<rparr>) }"

definition set_alloc :: "record_type \<Rightarrow> 'a allocator_new \<Rightarrow> 'a record_manager \<Rightarrow> 'a record_manager" where
  "set_alloc T al R = R\<lparr>rm_set := (rm_set R)\<lparr>allocs := (allocs (rm_set R))(T := al)\<rparr>\<rparr>"

definition rm_allocate :: "record_type \<Rightarrow> nat \<Rightarrow> 'a record_manager \<Rightarrow> ('a \<times> 'a record_manager) option" where
  "rm_allocate T tid R =
    do { asserting (rm_init R tid); let (p, al) = pool_none_get (allocs (rm_set R) T); Some (p, set_alloc T al R) }"

definition rm_deallocate :: "record_type \<Rightarrow> nat \<Rightarrow> 'a \<Rightarrow> 'a record_manager \<Rightarrow> 'a record_manager option" where
  "rm_deallocate T tid p R =
    do { asserting (rm_init R tid); Some (set_alloc T (pool_none_add p (allocs (rm_set R) T)) R) }"

text \<open>A function body that runs in the scope of a \<open>MemoryReclamationGuard\<close>.\<close>

definition rm_guarded ::
    "nat \<Rightarrow> ('a \<Rightarrow> 'a) \<Rightarrow> ('a record_manager \<Rightarrow> ('r \<times> 'a record_manager) option) \<Rightarrow> 'a record_manager \<Rightarrow>
     ('r \<times> 'a record_manager) option" where
  "rm_guarded tid ver body R =
    do { R \<leftarrow> rm_startOp tid ver R; (x, R) \<leftarrow> body R; R \<leftarrow> rm_endOp tid R; Some (x, R) }"

section \<open>Registering again\<close>

lemma debra_deinitThread_spec:
  assumes "\<And>T. tb_ok (bags d T v)"
  obtains d' where "debra_deinitThread v d = Some d'" and "\<And>T. unregistered (bags d' T v)"
    and "\<And>T. index (bags d' T v) = index (bags d T v)"
proof -
  obtain t1 a1 where 1: "deinitThread_type NodeR v d = Some ((set_bags NodeR v t1 d)\<lparr>allocs := (allocs d)(NodeR := a1)\<rparr>)"
      "unregistered t1" "index t1 = index (bags d NodeR v)"
    by (rule deinitThread_type_spec[OF assms])
  define d1 where "d1 = (set_bags NodeR v t1 d)\<lparr>allocs := (allocs d)(NodeR := a1)\<rparr>"
  have b1: "bags d1 T v = (if T = NodeR then t1 else bags d T v)" for T by (simp add: d1_def set_bags_def)
  obtain t2 a2 where 2: "deinitThread_type SCXRecordR v d1 = Some ((set_bags SCXRecordR v t2 d1)\<lparr>allocs := (allocs d1)(SCXRecordR := a2)\<rparr>)"
      "unregistered t2" "index t2 = index (bags d1 SCXRecordR v)"
    by (rule deinitThread_type_spec[of d1 SCXRecordR v]) (use assms b1 in auto)
  define d2 where "d2 = (set_bags SCXRecordR v t2 d1)\<lparr>allocs := (allocs d1)(SCXRecordR := a2)\<rparr>"
  have b2: "bags d2 T v = (if T = SCXRecordR then t2 else bags d1 T v)" for T by (simp add: d2_def set_bags_def)
  obtain t3 a3 where 3: "deinitThread_type VersionR v d2 = Some ((set_bags VersionR v t3 d2)\<lparr>allocs := (allocs d2)(VersionR := a3)\<rparr>)"
      "unregistered t3" "index t3 = index (bags d2 VersionR v)"
    by (rule deinitThread_type_spec[of d2 VersionR v]) (use assms b1 b2 in auto)
  let ?d3 = "(set_bags VersionR v t3 d2)\<lparr>allocs := (allocs d2)(VersionR := a3)\<rparr>"
  have b3: "bags ?d3 T v = (if T = VersionR then t3 else bags d2 T v)" for T by (simp add: set_bags_def)
  have "debra_deinitThread v d = Some ?d3"
    using 1(1) 2(1) 3(1) by (simp add: debra_deinitThread_def flip: d1_def d2_def)
  moreover have "unregistered (bags ?d3 T v)" "index (bags ?d3 T v) = index (bags d T v)" for T
    unfolding b3 b2 b1 using 1 2 3 b1 b2 by (cases T; simp)+
  ultimately show ?thesis by (rule that)
qed

text \<open>What \<open>initThread\<close> leaves in any case: new bags, \<open>currentBag\<close> on the first and \<open>index\<close> as it was.\<close>

lemma debra_initThread_bags:
  assumes "\<And>T. unregistered (bags d T v)"
  shows "currentBag (bags (debra_initThread v d) T v) = 0"
    and "index (bags (debra_initThread v d) T v) = index (bags d T v)"
    and "tb_ok ((bags (debra_initThread v d) T v)\<lparr>currentBag := index (bags d T v)\<rparr>)"
proof -
  define d1 where "d1 = initThread_type NodeR v d"
  define d2 where "d2 = initThread_type SCXRecordR v d1"
  define d3 where "d3 = initThread_type VersionR v d2"
  have init: "bags (initThread_type T v e) T' v = bags e T' v" if "T' \<noteq> T" for T T' and e :: "'a debra"
    using that by (simp add: initThread_type_def Let_def split: prod.splits)
  have new: "currentBag (bags (initThread_type T v e) T v) = 0 \<and> index (bags (initThread_type T v e) T v) = index (bags e T v) \<and>
      tb_ok ((bags (initThread_type T v e) T v)\<lparr>currentBag := index (bags e T v)\<rparr>)"
    if "unregistered (bags e T v)" for T and e :: "'a debra"
    by (rule initThread_type_spec[OF that]) simp
  have b: "bags (debra_initThread v d) = bags d3" by (simp add: debra_initThread_def Let_def d3_def d2_def d1_def)
  have u1: "unregistered (bags d1 SCXRecordR v)" "bags d1 SCXRecordR v = bags d SCXRecordR v"
    using assms[of SCXRecordR] by (simp_all add: d1_def init)
  have u2: "unregistered (bags d2 VersionR v)" "bags d2 VersionR v = bags d VersionR v"
    using assms[of VersionR] by (simp_all add: d2_def d1_def init)
  have "currentBag (bags d3 T v) = 0 \<and> index (bags d3 T v) = index (bags d T v) \<and>
      tb_ok ((bags d3 T v)\<lparr>currentBag := index (bags d T v)\<rparr>)"
    using new[OF assms[of NodeR]] new[OF u1(1)] new[OF u2(1)] u1(2) u2(2)
    by (cases T) (simp_all add: d3_def d2_def d1_def init)
  then show "currentBag (bags (debra_initThread v d) T v) = 0" "index (bags (debra_initThread v d) T v) = index (bags d T v)"
    "tb_ok ((bags (debra_initThread v d) T v)\<lparr>currentBag := index (bags d T v)\<rparr>)" by (simp_all add: b)
qed

text \<open>A record retired into bag 0 while \<open>index\<close> is 5 is freed by the next rotation.\<close>

lemma stale_index_frees:
  assumes cb: "currentBag (bags d T v) = 0" and ix: "index (bags d T v) = 5"
    and ok: "tb_ok ((bags d T v)\<lparr>currentBag := 5\<rparr>)" and T: "T \<noteq> NodeR"
  shows "\<exists>d' d''. debra_retire T v p d = Some d' \<and> rotateEpochBags T v ver d' = Some d'' \<and> p \<in> set (al_freed (allocs d'' T))"
proof -
  let ?t = "bags d T v"
  have l: "length (epochbags ?t) = 9" "pool_ok (tb_pool ?t)" using ok by (simp_all add: tb_ok_def)
  obtain bag where bag: "epochbags ?t ! 0 = Some bag" "bag_ok bag" by (rule tb_okD[OF ok, of 0]) auto
  obtain bag' pool' where b: "bag_add p bag (tb_pool ?t) = Some (bag', pool')" "bag_ok bag'"
      "mset (bag_items bag') = add_mset p (mset (bag_items bag))" "pool_ok pool'"
    by (rule bag_add_spec[OF bag(2) l(2)])
  define t2 where "t2 = ?t\<lparr>epochbags := (epochbags ?t)[0 := Some bag'], tb_pool := pool'\<rparr>"
  have r: "debra_retire T v p d = Some (set_bags T v t2 d)" using bag(1) b(1) cb by (simp add: debra_retire_def Let_def t2_def)
  have t2: "index t2 = 5" "epochbags t2 ! 0 = Some bag'" "tb_pool t2 = pool'" using ix l(1) by (simp_all add: t2_def)
  obtain bag2 pool2 al2 where c: "deallocateAndClear bag' pool' (allocs d T) = Some (bag2, pool2, al2)"
      "bag_ok bag2" "bag_items bag2 = []" "pool_ok pool2" "mset (al_freed al2) = mset (bag_items bag') + mset (al_freed (allocs d T))"
      "al_next al2 = al_next (allocs d T)" "al_fresh al2 = al_fresh (allocs d T)"
    by (rule deallocateAndClear_spec[OF b(2,4)])
  have "p \<in># mset (al_freed al2)" using c(5) b(3) by simp
  then have "p \<in> set (al_freed al2)" by simp
  then show ?thesis
    using r t2 T c(1) by (simp add: rotateEpochBags_def Let_def pool_none_addMoveFullBlocks_def)
qed

lemma reregistered_frees_early:
  assumes reg: "rm_init R v" and ok: "\<And>T. tb_ok (bags (rm_set R) T v)" and ix: "index (bags (rm_set R) T v) = 5" and T: "T \<noteq> NodeR"
  shows "\<exists>R1 R2 d. rm_deinitThread v R = Some R1 \<and> rm_retire T v p (rm_initThread v R1) = Some R2 \<and>
    rotateEpochBags T v ver (rm_set R2) = Some d \<and> p \<in> set (al_freed (allocs d T))"
proof -
  obtain d1 where d1: "debra_deinitThread v (rm_set R) = Some d1" "\<And>T. unregistered (bags d1 T v)"
      "\<And>T. index (bags d1 T v) = index (bags (rm_set R) T v)"
    by (rule debra_deinitThread_spec[OF ok]) blast
  note b = debra_initThread_bags[of d1 v T, OF d1(2)]
  have i: "index (bags d1 T v) = 5" using d1(3) ix by simp
  obtain d2 d3 where "debra_retire T v p (debra_initThread v d1) = Some d2" "rotateEpochBags T v ver d2 = Some d3"
      "p \<in> set (al_freed (allocs d3 T))"
    using stale_index_frees[of "debra_initThread v d1" T v p ver] b i T by auto
  then show ?thesis using reg d1(1) by (simp add: rm_deinitThread_def rm_initThread_def rm_retire_def)
qed

text \<open>A thread reaches that index by five rotations.\<close>

lemma rotations_index:
  assumes "\<And>T. tb_ok (bags d T v)"
  shows "\<exists>d'. foldo (\<lambda>_. rotateAllEpochBags v ver) xs d = Some d' \<and>
    (\<forall>T. tb_ok (bags d' T v) \<and> index (bags d' T v) = (index (bags d T v) + length xs) mod NUMBER_OF_EPOCH_BAGS)"
  using assms
proof (induction xs arbitrary: d)
  case Nil
  then show ?case by (auto simp: tb_ok_def)
next
  case (Cons x xs)
  obtain d1 where d1: "rotateAllEpochBags v ver d = Some d1" "rotated_all v ver d d1"
    by (rule rotateAll_spec[OF Cons.prems])
  then have "tb_ok (bags d1 T v)" "index (bags d1 T v) = (index (bags d T v) + 1) mod 9" for T by (simp_all add: rotated_all_def)
  then show ?case using Cons.IH[of d1] d1(1) by (simp add: mod_simps)
qed

definition sample_manager :: "nat record_manager" where
  "sample_manager = rm_initThread 0 (record_manager_new 1 (\<lambda>_. \<lparr>al_fresh = id, al_next = 0, al_freed = []\<rparr>))"

lemma sample_manager_registered: "rm_init sample_manager 0" "registered 0 (rm_set sample_manager)"
proof -
  let ?al = "\<lambda>_::record_type. \<lparr>al_fresh = id, al_next = 0, al_freed = []\<rparr> :: nat allocator_new"
  have "rm_set sample_manager = debra_start 1 ?al"
    by (simp add: sample_manager_def rm_initThread_def record_manager_new_def debra_start_def)
  then show "registered 0 (rm_set sample_manager)" using debra_start_spec(1)[of 0 1 ?al] by simp
  show "rm_init sample_manager 0" by (simp add: sample_manager_def rm_initThread_def)
qed

section \<open>Guarded operations\<close>

text \<open>Registration is idempotent, and a guarded body leaves the thread quiescent.\<close>

lemma rm_initThread_idem: "rm_initThread tid (rm_initThread tid R) = rm_initThread tid R"
  by (simp add: rm_initThread_def)

lemma rm_guarded_quiescent:
  assumes "rm_guarded tid ver body R = Some (x, R')"
  shows "rm_isQuiescent tid R' \<and> rm_init R tid"
proof -
  have "QUIESCENT (GET_WITH_QUIESCENT e)" for e by (rule announced_bits(3)[of 0]) simp
  then show ?thesis
    using assms by (auto simp: rm_guarded_def rm_startOp_def rm_endOp_def rm_isQuiescent_def isQuiescent_def debra_endOp_def
        asserting_def bind_eq_Some_conv split: if_splits)
qed

end
