(* ===== verification/Spec2Isabelle.thy ===== *)
theory Spec2Isabelle
  imports Sample_States Ellen_Plain Record_Manager
begin

text \<open>
  Verification of CBAT, the repository of the balanced augmented tree (BAT) and the structures it is compared
  with.  Paths are relative to \<open>src/\<close>.

  \<^bold>\<open>The program.\<close>  The BAT (\<open>ds/brown_ext_chromatic_augment_lf\<close>) is a leaf-oriented chromatic search tree
  whose updates are made with LLX and SCX, plus a tree of immutable versions with the number of keys below
  each node.  An update searches, replaces a subtree with one SCX, rebalances, and then propagates new versions
  to the root; queries run on the version of the root.  Two trees of Ellen et al., with and without versions
  (\<open>ds/ellen_augmented_ext_bst_lf\<close>, \<open>ds/ellen_ext_bst_lf\<close>), offer the same operations.  All sit behind one adapter
  (\<open>adapter.h\<close> of each), and free memory through the record manager (\<open>common/recordmgr\<close>) with the epoch-based
  reclaimer DEBRA.

  \<^bold>\<open>The balanced augmented tree.\<close>
  \<^item> \<open>CBAT_Prelude\<close>: addresses, collections of rewrite rules, generic lemmas.
  \<^item> \<open>CBAT_Memory\<close>: the records \<open>Node\<close>, \<open>Version\<close>, \<open>SCXRecord\<close> (\<open>node_types.h\<close>, \<open>scxrecord.h\<close>), the state \<open>Chromatic\<close>
    (\<open>chromatic.h\<close>), the operation tables, constructor, registration and allocation macros of \<open>chromatic_impl.h\<close>.
    The shared heap is one store per record type, updated by state passing.
  \<^item> \<open>LLX_SCX\<close>: \<open>llx\<close>, \<open>help_SCX\<close>, \<open>scx\<close>, \<open>reclaimMemoryAfterSCX\<close> from any memory, with unfinished records of
    other threads.  \<open>SCX_Outcomes\<close> shows that an SCX is all or nothing there (C20), that an LLX is a snapshot (C21)
    and fails on removed nodes (C22); C23 and C24 are about the state word and the tables.
  \<^item> \<open>Chromatic_Trees\<close>, \<open>Heap_Trees\<close>: the abstract trees, and when a memory holds one.  \<open>Subtree_Replacement\<close>: an
    undisturbed SCX replaces one subtree by another.
  \<^item> \<open>Rebalancing_Steps\<close>: the 21 steps \<open>doBlk\<close> ... \<open>doW7Sym\<close>, each a refinement of a tree transformation that
    \<open>Rebalancing_Trees\<close> shows to keep keys, order and path weights (C15-C17).  \<open>Chromatic_Rebalance\<close>:
    \<open>updateRebalancingStep\<close> and \<open>fixAllToKey\<close>, with termination (C13, C14).
  \<^item> \<open>Chromatic_Update\<close>: \<open>updateInsert\<close> and \<open>updateErase\<close> (C18, C19, C27).
  \<^item> \<open>Version_Propagation\<close>, \<open>Version_Paths\<close>: \<open>refresh\<close> and \<open>propagate\<close>, and why the stack of an update suffices to make
    every version right again (C12).
  \<^item> \<open>BAT_Operations\<close>: the public operations and the invariant between them (C2-C11, C25, C26).
  \<^item> \<open>Sample_States\<close>: concrete memories for the witnesses.

  \<^bold>\<open>Contracts.\<close>  \<open>Ordered_Map\<close> has the specification, a finite map, and the locales \<open>ordered_map\<close> and \<open>ordered_dict\<close>
  (the adapter) with the theorem that any sequence of operations returns what the map prescribes.  \<open>BAT_Map\<close>,
  \<open>Ellen_Map\<close> and \<open>Ellen_Plain\<close> interpret them on the three trees, which gives C1, C28, C34 and C35.

  \<^bold>\<open>The trees of Ellen et al.\<close>  \<open>Ellen_BST\<close> holds the definitions, update words with their flag bits and the helping
  routines included; \<open>Ellen_Trees\<close> and \<open>Ellen_Map\<close> the correctness of its operations (C29-C32).  \<open>Ellen_Plain\<close> has
  the tree without versions; erasing the versions is a simulation that holds in every memory (C33).

  \<^bold>\<open>Memory reclamation.\<close>
  \<^item> \<open>Block_Bag\<close>: blocks, block pool, bags and their iterator (\<open>blockbag.h\<close>, \<open>blockpool.h\<close>, \<open>lockfreeblockbag.h\<close>); the
    locale \<open>record_bag\<close> says that a bag loses and invents nothing (C40).
  \<^item> \<open>Record_Pool\<close>: \<open>allocator_new.h\<close>, \<open>pool_none.h\<close>, \<open>pool_perthread_and_shared.h\<close>, with the same for the pools.
  \<^item> \<open>Debra\<close>: \<open>reclaimer_debra.h\<close>, with \<open>startOp\<close> cut at its shared accesses.  \<open>Debra_Safety\<close>: the step relation of any
    number of threads and the invariant behind the grace period (C36) and the absence of faults (C37).
    \<open>Debra_Progress\<close>: retired records are freed (C38).
  \<^item> \<open>Record_Manager\<close>: registration, guard, allocation and retirement of \<open>record_manager.h\<close>; C39.

  \<^bold>\<open>Conventions.\<close>  Loops over the heap are partial functions into \<open>option\<close>: \<open>None\<close> means that the loop does not
  return, or, in the record manager, that an assertion fails.  The theorems state the result \<open>Some\<close>, so they
  include termination; no fuel is used.  Keys are any linear order and \<open>NO_KEY\<close>, \<open>NO_VALUE\<close>, \<open>KEY_MAX\<close> are
  parameters.  Sums, weights and epochs are unbounded integers: a tree of \<open>2^31\<close> keys, an overweight of \<open>2^31\<close>
  and \<open>2^62\<close> epochs are not considered.  A block holds 40 records, the value of \<open>BLOCK_SIZE\<close> with 8-byte words.
  Update words of the Ellen trees and the state words of SCX records are modelled at the level of their bits.

  \<^bold>\<open>Concurrency.\<close>  The operations of the trees are those of one thread.  LLX, SCX and the helping routines are
  modelled from arbitrary memory, and C20-C22, C33 hold there; the theorems about whole operations assume that
  no other thread writes during the operation.  DEBRA is modelled with all interleavings of its accesses to
  shared memory, which is assumed sequentially consistent: the source announces an epoch with a relaxed store
  and has its only fence at the end of \<open>startOp\<close>, so what weaker hardware may reorder is not covered.  Records that the trees retire do not return to
  the allocator in the model of the trees: that is the promise of the reclaimer that C36 proves.

  \<^bold>\<open>Not modelled.\<close>
  \<^item> The variants of the BAT that delegate propagation (\<open>brown_ext_chromatic_delegate*\<close>): a thread waits for another
    one, which one thread at a time cannot show.
  \<^item> The chromatic tree without versions (\<open>brown_ext_chromatic_lf\<close>) and the structures of other authors (\<open>fatorou_*\<close>,
    \<open>wei_*\<close>, \<open>arbel_*\<close>, \<open>blelloch_*\<close>), which serve as a comparison.
  \<^item> \<open>recoverAnyAttemptedSCX\<close> and the recovery manager: they run only under DEBRA+, which the sources do not have.
  \<^item> The other reclaimers, pools and allocators, and the amortised freeing of DEBRA (\<open>DEAMORTIZE_FREE_CALLS\<close>).
  \<^item> Weak memory orders; destructors; printing, statistics and validation of a finished run.
  \<^item> Drivers, experiments, tools and the libraries that the trees do not call (\<open>microbench\<close>, \<open>macrobench\<close>,
    \<open>tools\<close>, \<open>common/kcas\<close>, \<open>common/rlu\<close>, \<open>common/urcu\<close> and others).
\<close>

section \<open>The tree as a map\<close>

text \<open>
  C1: for any key type, any threads \<open>ts\<close> registered after the constructor and any sequence of
  \<open>insert\<close>, \<open>insertIfAbsent\<close>, \<open>erase\<close>, \<open>find\<close>, \<open>contains\<close> and \<open>rangeQuery\<close> calls by registered
  threads with keys other than \<open>NO_KEY\<close>, every call returns and the results are those of the map
  that starts empty; the final state represents the final map.
\<close>

theorem bat_run_refines:
  fixes nk :: "'k::linorder" and nv :: 'v
  assumes "\<forall>(tid, a)\<in>set as. tid \<in> insert 0 (set ts) \<and> nk \<notin> op_keys a"
  shows "\<exists>st'. impl_run bat_ops as (fold initThread ts (Chromatic_new nk nv n)) =
      Some (fst (spec_run nv as Map.empty), st') \<and>
    bat_rep nk nv (insert 0 (set ts)) st' (snd (spec_run nv as Map.empty))"
  using batm.run_refines[OF start_rep assms] .

theorem bat_run_refines_witness:
  "\<exists>st'. impl_run bat_ops [(0, Insert 5 50), (1, Find 5), (1, InsertIfAbsent 5 51), (0, RangeQuery 1 9),
       (0, Erase 5), (1, Contains 5)] (fold initThread [1] (Chromatic_new (0::nat) (0::nat) 6)) =
     Some ([Value 0, ValueFound 50 True, Value 50, Count 1, ValueFound 50 True, Flag False], st')"
proof -
  have "{k. k = (5::nat) \<and> 1 \<le> k \<and> k \<le> 9} = {5}" by auto
  then show ?thesis
    using bat_run_refines[of "[(0, Insert 5 50), (1, Find 5), (1, InsertIfAbsent 5 51), (0, RangeQuery 1 9),
      (0, Erase 5), (1, Contains 5)]" "[1]" "0::nat" "0::nat" 6]
    by (simp add: stored_def) blast
qed

text \<open>
  C2: \<open>insert\<close> returns the value that was stored under the key, or \<open>NO_VALUE\<close>, and stores the new
  value; the state represents the updated map for the same threads.
\<close>

theorem insert_correct:
  fixes nk :: "'k::linorder"
  assumes "bat_rep nk nv Th st m" and "tid \<in> Th" and "k \<noteq> nk"
  shows "\<exists>st'. insert_op tid k v st = Some (case m k of None \<Rightarrow> nv | Some w \<Rightarrow> w, st') \<and>
    bat_rep nk nv Th st' (m(k \<mapsto> v))"
  using batm.insert_law[OF assms, of v] by (simp add: bat_ops_def stored_def)

theorem insert_correct_witness:
  "\<exists>st'. insert_op 0 5 51 two_keys = Some (50, st') \<and> bat_rep 0 0 {0} st' [5 \<mapsto> 51, 8 \<mapsto> 80]"
  using insert_correct[OF two_keys_rep, of 0 5 51] by (simp add: fun_upd_twist)

text \<open>
  C3: \<open>insertIfAbsent\<close> returns the stored value, or \<open>NO_VALUE\<close>, and changes the map only when the
  key is absent.
\<close>

theorem insertIfAbsent_correct:
  fixes nk :: "'k::linorder"
  assumes "bat_rep nk nv Th st m" and "tid \<in> Th" and "k \<noteq> nk"
  shows "\<exists>st'. insertIfAbsent tid k v st = Some (case m k of None \<Rightarrow> nv | Some w \<Rightarrow> w, st') \<and>
    bat_rep nk nv Th st' (if m k = None then m(k \<mapsto> v) else m)"
  using batm.insertIfAbsent_law[OF assms, of v] by (simp add: bat_ops_def stored_def)

theorem insertIfAbsent_correct_witness:
  "\<exists>st'. insertIfAbsent 0 5 51 two_keys = Some (50, st') \<and> bat_rep 0 0 {0} st' [5 \<mapsto> 50, 8 \<mapsto> 80]"
  using insertIfAbsent_correct[OF two_keys_rep, of 0 5 51] by simp

text \<open>
  C4: \<open>erase\<close> returns the stored value (or \<open>NO_VALUE\<close>) with the flag whether it differs from
  \<open>NO_VALUE\<close>, and removes the key.
\<close>

theorem erase_correct:
  fixes nk :: "'k::linorder"
  assumes "bat_rep nk nv Th st m" and "tid \<in> Th" and "k \<noteq> nk"
    and "r = (case m k of None \<Rightarrow> nv | Some w \<Rightarrow> w)"
  shows "\<exists>st'. erase tid k st = Some ((r, r \<noteq> nv), st') \<and> bat_rep nk nv Th st' (m(k := None))"
  using batm.erase_law[OF assms(1-3)] assms(4) by (simp add: bat_ops_def stored_def)

theorem erase_correct_witness:
  "\<exists>st'. erase 0 5 two_keys = Some ((50, True), st') \<and> bat_rep 0 0 {0} st' [8 \<mapsto> 80]"
proof -
  have "[5 \<mapsto> 50, 8 \<mapsto> 80](5 := None) = [8::nat \<mapsto> 80::nat]" by auto
  then show ?thesis using erase_correct[OF two_keys_rep, of 0 5 50] by simp
qed

text \<open>C5: \<open>find\<close>, which searches the nodes, returns the stored value and whether the key is present.\<close>

theorem find_correct:
  fixes nk :: "'k::linorder"
  assumes "bat_rep nk nv Th st m" and "k \<noteq> nk"
  shows "find_op k st = Some (case m k of None \<Rightarrow> (nv, False) | Some v \<Rightarrow> (v, True))"
  using find_op_spec[of st _ k] assms by (auto simp: bat_rep_def)

theorem find_correct_witness: "find_op 8 two_keys = Some (80, True) \<and> find_op 7 two_keys = Some (0, False)"
  using find_correct[OF two_keys_rep, of 8] find_correct[OF two_keys_rep, of 7] by simp

text \<open>
  C6: \<open>contains\<close>, which searches the version tree hanging off the root's version, agrees with the map.
\<close>

theorem contains_correct:
  fixes nk :: "'k::linorder"
  assumes "bat_rep nk nv Th st m" and "k \<noteq> nk"
  shows "contains_op k st = Some (m k \<noteq> None)"
  using contains_op_spec[of st _ k] assms by (auto simp: bat_rep_def)

theorem contains_correct_witness: "contains_op 8 two_keys = Some True \<and> contains_op 7 two_keys = Some False"
  using contains_correct[OF two_keys_rep, of 8] contains_correct[OF two_keys_rep, of 7] by simp

text \<open>
  C7: \<open>rangeQuery\<close> returns the number of keys between \<open>lo\<close> and \<open>hi\<close>, where a bound that is \<open>NO_KEY\<close>
  stands for an open end, unless both ends are open.
\<close>

theorem rangeQuery_correct:
  fixes nk :: "'k::linorder"
  assumes "bat_rep nk nv Th st m" and "lo \<noteq> nk \<or> hi \<noteq> nk"
  shows "rangeQuery lo hi st =
    Some (int (card {k \<in> dom m. (lo = nk \<or> lo \<le> k) \<and> (hi = nk \<or> k \<le> hi)}))"
  using rangeQuery_spec[of st _ lo hi] assms by (auto simp: bat_rep_def in_range_def)

theorem rangeQuery_correct_witness: "rangeQuery 6 9 two_keys = Some 1 \<and> rangeQuery 0 5 two_keys = Some 1"
proof -
  have "{k. (k = 8 \<or> k = 5) \<and> 6 \<le> k \<and> k \<le> (9::nat)} = {8}" "{k. (k = 8 \<or> k = 5) \<and> k \<le> (5::nat)} = {5}"
    by auto
  then show ?thesis
    using rangeQuery_correct[OF two_keys_rep, of 6 9] rangeQuery_correct[OF two_keys_rep, of 0 5]
    by simp
qed

text \<open>C8: \<open>size\<close>, which counts the leaves, returns the number of keys of the map.\<close>

theorem size_correct:
  fixes nk :: "'k::linorder"
  assumes "bat_rep nk nv Th st m"
  shows "size_op st = Some (int (card (dom m)))"
proof -
  obtain T where T: "bat st T" "m = map_of (contents T)" using assms by (auto simp: bat_rep_def)
  then have "chrom (NO_KEY st) T" by (auto simp: bat_def bat_at_def)
  then show ?thesis using size_op_spec[OF T(1)] contents_card[of "NO_KEY st" T "\<lambda>_. True"] T(2) by (simp add: dom_def)
qed

theorem size_correct_witness: "size_op two_keys = Some 2"
  using size_correct[OF two_keys_rep] by simp

text \<open>
  C9: a lookup after an insertion by another thread returns the inserted value, and every other key
  keeps its answer.
\<close>

theorem find_after_insert_correct:
  fixes nk :: "'k::linorder"
  assumes "bat_rep nk nv Th st m" and "tid \<in> Th" and "k \<noteq> nk" and "j \<noteq> nk"
    and "insert_op tid k v st = Some (r, st')"
  shows "find_op j st' = (if j = k then Some (v, True) else find_op j st)"
  using batm.find_after_insert[OF assms(1,2,2,3,4), of v r st'] assms(5) by (simp add: bat_ops_def)

theorem find_after_insert_correct_witness:
  "\<exists>st'. insert_op 0 6 60 two_keys = Some (0, st') \<and> find_op 6 st' = Some (60, True)"
proof -
  obtain st' where "insert_op 0 6 60 two_keys = Some (0, st')"
    using batm.insert_law[OF two_keys_rep, of 0 6 60] by (auto simp: bat_ops_def stored_def)
  then show ?thesis using find_after_insert_correct[OF two_keys_rep, of 0 6 6 60 0 st'] by simp
qed

text \<open>C10: a lookup after an erasure does not find the key, and every other key keeps its answer.\<close>

theorem find_after_erase_correct:
  fixes nk :: "'k::linorder"
  assumes "bat_rep nk nv Th st m" and "tid \<in> Th" and "k \<noteq> nk" and "j \<noteq> nk"
    and "erase tid k st = Some (r, st')"
  shows "find_op j st' = (if j = k then Some (nv, False) else find_op j st)"
  using batm.find_after_erase[OF assms(1,2,2,3,4), of r st'] assms(5) by (simp add: bat_ops_def)

theorem find_after_erase_correct_witness:
  "\<exists>st'. erase 0 5 two_keys = Some ((50, True), st') \<and> find_op 5 st' = Some (0, False)"
proof -
  obtain st' where "erase 0 5 two_keys = Some ((50, True), st')"
    using batm.erase_law[OF two_keys_rep, of 0 5] by (auto simp: bat_ops_def stored_def)
  then show ?thesis using find_after_erase_correct[OF two_keys_rep, of 0 5 5 "(50, True)" st'] by simp
qed

section \<open>The version tree\<close>

text \<open>
  C11: with at least one key stored, \<open>rangeQuery(NO_KEY, NO_KEY)\<close>, which reads the sum field of the
  root's version only, returns the number of keys of the map.
\<close>

theorem rangeQuery_open_correct:
  fixes nk :: "'k::linorder"
  assumes "bat_rep nk nv Th st m" and "m \<noteq> Map.empty"
  shows "rangeQuery nk nk st = Some (int (card (dom m)))"
proof -
  obtain z T where T: "bat_at st z T" "m = map_of (contents T)" "NO_KEY st = nk"
    using assms(1) by (auto simp: bat_rep_def bat_def)
  then have "\<not> is_leaf T" using assms(2) by (cases T) auto
  then show ?thesis using rangeQuery_all[OF T(1)] T(2,3) by simp
qed

theorem rangeQuery_open_correct_witness: "rangeQuery 0 0 two_keys = Some 2"
  using rangeQuery_open_correct[OF two_keys_rep] by simp

text \<open>
  C12: \<open>propagate\<close> returns.  When the versions are right everywhere off the search path of the key,
  it leaves the nodes in place, gives every node of the tree a version tree that mirrors the subtree
  below it, and the root a version that mirrors the whole tree.
\<close>

theorem propagate_correct:
  fixes st :: "('k::linorder, 'v) Chromatic"
  assumes "hwf st T" and "ready st tid" and "offpath st z x T" and "\<forall>s\<in>set ss. stacked st z x s"
  shows "\<exists>st'. propagate tid x (ss @ [root st]) st = Some st' \<and> hwf st' T \<and> framed st st' \<and>
    vfull st' z T \<and> vroot st' z T"
  using propagate_spec[OF assms] .

theorem propagate_correct_witness:
  "\<exists>z T st'. map_of (contents T) = [5 \<mapsto> 50, 8 \<mapsto> 80] \<and> propagate 0 5 [root two_keys] two_keys = Some st' \<and>
     vfull st' z T \<and> vroot st' z T"
proof -
  obtain z T where T: "bat_at two_keys z T" "map_of (contents T) = [5 \<mapsto> 50, 8 \<mapsto> 80]" "ready two_keys 0"
    using two_keys_rep by (auto simp: bat_rep_def bat_def)
  then have "hwf two_keys T" "offpath two_keys z 5 T" using vfull_offpath by (auto simp: bat_at_def vsync_def)
  then show ?thesis using propagate_correct[of two_keys T 0 z 5 "[]"] T by auto
qed

section \<open>Rebalancing\<close>

text \<open>
  C13: one rebalancing step towards a key commits on its first attempt, whatever violations the tree
  has: the search order, the leaves and the internal keys in order are unchanged, all root-to-leaf
  paths of the tree below the sentinels still have equal weight, and memory holds the new tree.
\<close>

theorem updateRebalancingStep_correct:
  fixes st :: "('k::linorder, 'v) Chromatic"
  assumes "hwf st T" and "chrom (NO_KEY st) T" and "ready st tid"
  shows "\<exists>st' T'. updateRebalancingStep tid x st = Some (True, st') \<and> hwf st' T' \<and>
    chrom (NO_KEY st) T' \<and> tokens T' = tokens T"
proof -
  obtain st' T' where "updateRebalancingStep tid x st = Some (True, st')" "hwf st' T'"
      "chrom (NO_KEY st) T'" "same_map x st T st' T'"
    using updateRebalancingStep_spec[OF assms, of x] by blast
  then show ?thesis using tokens_plug unfolding same_map_def by blast
qed

theorem updateRebalancingStep_correct_witness:
  "\<exists>st' T'. updateRebalancingStep 0 1 (load red_red) = Some (True, st') \<and> hwf st' T' \<and> tokens T' = tokens red_red"
  using updateRebalancingStep_correct[OF red_red_hwf, of 0 1] red_red_chrom by auto

text \<open>
  C14: \<open>fixAllToKey\<close> returns, and keeps the map, the search order and the equality of path weights.
\<close>

theorem fixAllToKey_correct:
  fixes st :: "('k::linorder, 'v) Chromatic"
  assumes "hwf st T" and "chrom (NO_KEY st) T" and "ready st tid"
  shows "\<exists>st' T'. fixAllToKey tid x st = Some st' \<and> hwf st' T' \<and> chrom (NO_KEY st) T' \<and>
    tokens T' = tokens T"
proof -
  obtain st' T' where "fixAllToKey tid x st = Some st'" "hwf st' T'"
      "chrom (NO_KEY st) T'" "same_map x st T st' T'"
    using fixAllToKey_spec[OF assms, of x] by blast
  then show ?thesis using tokens_plug unfolding same_map_def by blast
qed

theorem fixAllToKey_correct_witness:
  "\<exists>st' T'. fixAllToKey 0 1 (load red_red) = Some st' \<and> hwf st' T' \<and> chrom 0 T' \<and> tokens T' = tokens red_red"
  using fixAllToKey_correct[OF red_red_hwf, of 0 1] red_red_chrom by auto

text \<open>
  C15: \<open>doBlk\<close> on a node of positive weight with two red children commits.  The three nodes are replaced by
  copies: the parent gives one unit of weight to each child, unless it is under a sentinel, where it
  keeps weight 1.  The order of leaves and keys and the equality of path weights survive.
\<close>

theorem doBlk_correct:
  fixes st :: "('k, 'v) Chromatic"
  assumes "hwf st (plug C (Nd x k v w L R))" and "ready st tid"
    and "nodes = [fst (hole (root st) C), x, adr L, adr R]"
    and "s = IS_SENTINEL st x (fst (hole (root st) C))"
    and "S' = Nd (allocatedNodes st tid 0) k v (if s then 1 else w - 1)
      (copy (allocatedNodes st tid 1) 1 L) (copy (allocatedNodes st tid 2) 1 R)"
    and "wt L = 0" and "wt R = 0" and "0 < w" and "s \<longrightarrow> w = 1"
  shows "\<exists>st'. doBlk tid nodes (map (llx_value st) nodes) (snd (hole (root st) C)) st = (True, st') \<and>
    hwf st' (plug C S') \<and> good_step s (Nd x k v w L R) S'"
  using doBlk_spec[OF assms(1,2) refl assms(3)] good_blk[OF refl assms(6,7,8), of s x k v] assms(4,5,9)
  unfolding step_to_def
  by (cases "doBlk tid nodes (map (llx_value st) nodes) (snd (hole (root st) C)) st") auto

theorem doBlk_correct_witness:
  "\<exists>st'. doBlk 0 [11, 12, 13, 16] (map (llx_value (load red_children)) [11, 12, 13, 16]) True (load red_children) =
       (True, st') \<and>
     hwf st' (Nd 10 0 0 1 (Nd 11 8 0 1 (Nd 2 4 0 0 (Nd 3 2 0 1 (Lf 14 1 10 1) (Lf 15 2 20 1))
     (Nd 4 6 0 1 (Lf 19 4 40 1) (Lf 20 6 60 1))) (Lf 17 8 80 2)) (Lf 18 0 0 1))"
proof -
  let ?C = "[FL 11 8 0 1 (Lf 17 8 80 2), FL 10 0 0 1 (Lf 18 0 0 1)]"
  let ?L = "Nd 13 2 0 0 (Lf 14 1 10 1) (Lf 15 2 20 1)" and ?R = "Nd 16 6 0 0 (Lf 19 4 40 1) (Lf 20 6 60 1)"
  have "hwf (load red_children) (plug ?C (Nd 12 4 0 1 ?L ?R))"
    using red_children_hwf by (simp add: red_children_def)
  moreover have "False = IS_SENTINEL (load red_children) 12 11"
    using hwfD(2)[OF red_children_hwf] by (simp add: IS_SENTINEL_def red_children_def)
  ultimately show ?thesis
    using doBlk_correct[of "load red_children" ?C 12 4 0 1 ?L ?R 0 "[11, 12, 13, 16]" False] by auto
qed

text \<open>
  C16: \<open>doRb2\<close> on a red node with a red right child, the left child of its parent, commits and is the
  double rotation: the grandchild becomes the root of the subtree with the old weight, over two red
  nodes.
\<close>

theorem doRb2_correct:
  fixes st :: "('k, 'v) Chromatic"
  assumes "hwf st (plug C S)" and "ready st tid"
    and "S = Nd x k v w (Nd y ky vy 0 A (Nd z kz vz 0 B D)) E"
    and "nodes = [fst (hole (root st) C), x, y, z]"
    and "S' = Nd (allocatedNodes st tid 0) kz vz w (Nd (allocatedNodes st tid 1) ky vy 0 A B)
      (Nd (allocatedNodes st tid 2) k v 0 D E)"
  shows "\<exists>st'. doRb2 tid nodes (map (llx_value st) nodes) (snd (hole (root st) C)) st = (True, st') \<and>
    hwf st' (plug C S') \<and> good_step False S S'"
  using doRb2_spec[OF assms(1,2,3,4)] good_rb2[OF assms(3) refl refl, of False] assms(3,5)
  unfolding step_to_def
  by (cases "doRb2 tid nodes (map (llx_value st) nodes) (snd (hole (root st) C)) st") auto

theorem doRb2_correct_witness:
  "\<exists>st'. doRb2 0 [10, 11, 12, 14] (map (llx_value (load red_zigzag)) [10, 11, 12, 14]) True (load red_zigzag) =
       (True, st') \<and>
     hwf st' (Nd 10 0 0 1 (Nd 2 4 0 1 (Nd 3 2 0 0 (Lf 13 1 10 1) (Lf 15 2 20 1)) (Nd 4 8 0 0 (Lf 16 4 40 1)
     (Lf 17 8 80 1))) (Lf 18 0 0 1))"
proof -
  have "hwf (load red_zigzag) (plug [FL 10 0 0 1 (Lf 18 0 0 1)] (lft red_zigzag))"
    using load_hwf[of red_zigzag] by (simp add: red_zigzag_def)
  then show ?thesis
    using doRb2_correct[of "load red_zigzag" "[FL 10 0 0 1 (Lf 18 0 0 1)]" "lft red_zigzag" 0 11 8 0 1 12 2 0
      "Lf 13 1 10 1" 14 4 0 "Lf 15 2 20 1" "Lf 16 4 40 1" "Lf 17 8 80 1" "[10, 11, 12, 14]"]
    by (auto simp: red_zigzag_def)
qed

text \<open>
  C17: \<open>doW3\<close>, the step with most nodes, commits: with an overweight left child of \<open>x\<close>, a red right child
  \<open>y\<close>, its left child \<open>z\<close> of weight 1 and the red left child \<open>q\<close> of that, the five new nodes relieve
  the overweight child by one and keep the order and the path weights.
\<close>

theorem doW3_correct:
  fixes st :: "('k, 'v) Chromatic"
  assumes "hwf st (plug C S)" and "ready st tid"
    and "S = Nd x k v w L (Nd y ky vy 0 (Nd z kz vz 1 (Nd q kq vq 0 A B) D) R)"
    and "nodes = [fst (hole (root st) C), x, adr L, y, z, q]" and "1 < wt L" and "al = allocatedNodes st tid"
    and "S' = Nd (al 0) ky vy w (Nd (al 1) kq vq 0 (Nd (al 2) k v 1 (copy (al 4) (wt L - 1) L) A)
      (Nd (al 3) kz vz 1 B D)) R"
  shows "\<exists>st'. doW3 tid nodes (map (llx_value st) nodes) (snd (hole (root st) C)) st = (True, st') \<and>
    hwf st' (plug C S') \<and> good_step False S S'"
  using doW3_spec[OF assms(1,2,3,4)] good_w3[OF assms(3) refl refl refl assms(5), of False al] assms(3,6,7)
  unfolding step_to_def
  by (cases "doW3 tid nodes (map (llx_value st) nodes) (snd (hole (root st) C)) st") auto

theorem doW3_correct_witness:
  "\<exists>st'. doW3 0 [10, 11, 12, 13, 14, 15] (map (llx_value (load overweight)) [10, 11, 12, 13, 14, 15]) True
       (load overweight) = (True, st') \<and>
     hwf st' (Nd 10 0 0 1 (Nd 2 9 0 1 (Nd 3 4 0 0 (Nd 4 2 0 1 (Lf 6 1 10 1) (Lf 16 2 20 1))
       (Nd 5 6 0 1 (Lf 17 4 40 1) (Lf 18 6 60 1))) (Lf 19 9 90 2)) (Lf 20 0 0 1))"
proof -
  have "hwf (load overweight) (plug [FL 10 0 0 1 (Lf 20 0 0 1)] (lft overweight))"
    using load_hwf[of overweight] by (simp add: overweight_def)
  then show ?thesis
    using doW3_correct[of "load overweight" "[FL 10 0 0 1 (Lf 20 0 0 1)]" "lft overweight" 0 11 2 0 1
      "Lf 12 1 10 2" 13 9 0 14 6 0 15 4 0 "Lf 16 2 20 1" "Lf 17 4 40 1" "Lf 18 6 60 1" "Lf 19 9 90 2"
      "[10, 11, 12, 13, 14, 15]"]
    by (auto simp: overweight_def)
qed

section \<open>One attempt of an update\<close>

text \<open>
  C18: without interference one attempt of \<open>updateInsert\<close> commits: the tree stays chromatic, the result is
  the old value and the new tree holds the updated map.
\<close>

theorem updateInsert_correct:
  fixes st :: "('k::linorder, 'v) Chromatic"
  assumes "hwf st T" and "chrom (NO_KEY st) T" and "ready st tid" and "x \<noteq> NO_KEY st"
    and "node_stack out = []"
  shows "\<exists>out' st' T'. updateInsert tid x v onlyIfAbsent out st = Some (True, out', st') \<and>
    hwf st' T' \<and> chrom (NO_KEY st) T' \<and>
    result out' = (case map_of (contents T) x of None \<Rightarrow> NO_VALUE st | Some b \<Rightarrow> b) \<and>
    map_of (contents T') = (if onlyIfAbsent \<and> map_of (contents T) x \<noteq> None then map_of (contents T)
       else (map_of (contents T))(x \<mapsto> v))"
  using updateInsert_spec[OF assms, of v onlyIfAbsent] by blast

theorem updateInsert_correct_witness:
  "\<exists>out' st' T'. updateInsert 0 3 30 False \<lparr>result = 0, shouldRebalance = False, node_stack = []\<rparr> (load red_red) =
     Some (True, out', st') \<and> hwf st' T' \<and> result out' = 0 \<and>
     map_of (contents T') = [1 \<mapsto> 10, 2 \<mapsto> 20, 3 \<mapsto> 30, 4 \<mapsto> 40, 6 \<mapsto> 60]"
proof -
  have "map_of (contents red_red) = [6 \<mapsto> 60, 4 \<mapsto> 40, 2 \<mapsto> 20, 1 \<mapsto> 10]" by (simp add: red_red_def)
  then have c: "(map_of (contents red_red))(3 \<mapsto> 30) = [1 \<mapsto> 10, 2 \<mapsto> 20, 3 \<mapsto> 30, 4 \<mapsto> 40, 6 \<mapsto> 60]"
    "map_of (contents red_red) 3 = None" by auto
  have h: "chrom (NO_KEY (load red_red)) red_red" "ready (load red_red) 0" "3 \<noteq> NO_KEY (load red_red)"
      "node_stack \<lparr>result = 0::nat, shouldRebalance = False, node_stack = []\<rparr> = []"
    using red_red_chrom by simp_all
  show ?thesis using updateInsert_correct[OF red_red_hwf h, of 30 False] c by auto
qed

text \<open>C19: without interference one attempt of \<open>updateErase\<close> on a non-empty tree commits and removes the key.\<close>

theorem updateErase_correct:
  fixes st :: "('k::linorder, 'v) Chromatic"
  assumes "hwf st T" and "chrom (NO_KEY st) T" and "ready st tid" and "x \<noteq> NO_KEY st"
    and "node_stack out = []" and "\<not> is_leaf T"
  shows "\<exists>out' st' T'. updateErase tid x out st = Some (True, out', st') \<and>
    hwf st' T' \<and> chrom (NO_KEY st) T' \<and>
    result out' = (case map_of (contents T) x of None \<Rightarrow> NO_VALUE st | Some b \<Rightarrow> b) \<and>
    map_of (contents T') = (map_of (contents T))(x := None)"
proof -
  obtain out' st' T' where "updateErase tid x out st = Some (True, out', st')"
      "hwf st' T'" "chrom (NO_KEY st) T'" "map_of (contents T') = (map_of (contents T))(x := None)"
      "result out' = (case map_of (contents T) x of None \<Rightarrow> if is_leaf T then result out else NO_VALUE st | Some b \<Rightarrow> b)"
    using updateErase_spec[OF assms(1-5)] by blast
  then show ?thesis using assms(6) by auto
qed

theorem updateErase_correct_witness:
  "\<exists>out' st' T'. updateErase 0 2 \<lparr>result = 0, shouldRebalance = False, node_stack = []\<rparr> (load red_red) =
     Some (True, out', st') \<and> hwf st' T' \<and> result out' = 20 \<and>
     map_of (contents T') = [1 \<mapsto> 10, 4 \<mapsto> 40, 6 \<mapsto> 60]"
proof -
  have "map_of (contents red_red) = [6 \<mapsto> 60, 4 \<mapsto> 40, 2 \<mapsto> 20, 1 \<mapsto> 10]" by (simp add: red_red_def)
  then have c: "(map_of (contents red_red))(2 := None) = [1 \<mapsto> 10, 4 \<mapsto> 40, 6 \<mapsto> 60]"
    "map_of (contents red_red) 2 = Some 20" by auto
  have h: "chrom (NO_KEY (load red_red)) red_red" "ready (load red_red) 0" "2 \<noteq> NO_KEY (load red_red)"
      "node_stack \<lparr>result = 0::nat, shouldRebalance = False, node_stack = []\<rparr> = []" "\<not> is_leaf red_red"
    using red_red_chrom by (simp_all add: red_red_def)
  show ?thesis using updateErase_correct[OF red_red_hwf h] c by auto
qed

section \<open>LLX and SCX\<close>

text \<open>
  C20: an SCX is all or nothing, in any memory and however other threads' records interfere.  If it
  returns false, no node has another key, value, weight, child, version or mark.  If it returns true,
  the child field holds the new node if it held the old one, every other child pointer is unchanged,
  and the nodes that got marked are the frozen internal nodes after the first.
\<close>

theorem scx_all_or_nothing:
  fixes st :: "('k, 'v) Chromatic"
  assumes "ty < 32" and "scx tid ty nodes seen fld new st = (ok, st')"
  shows "(\<not> ok \<longrightarrow> (\<forall>a. same_fields (nodeH st' a) (nodeH st a) \<and>
      marked (nodeH st' a) = marked (nodeH st a) \<and> version (nodeH st' a) = version (nodeH st a))) \<and>
    (ok \<longrightarrow> get_field st' fld = (if get_field st fld = nodes ! 1 then new else get_field st fld) \<and>
      (\<forall>f. f \<noteq> fld \<longrightarrow> get_field st' f = get_field st f) \<and>
      (\<forall>a. marked (nodeH st' a) \<longleftrightarrow> marked (nodeH st a) \<or> a \<in> finalized ty nodes seen))"
proof (intro conjI impI)
  assume "\<not> ok"
  then show "\<forall>a. same_fields (nodeH st' a) (nodeH st a) \<and> marked (nodeH st' a) = marked (nodeH st a) \<and>
      version (nodeH st' a) = version (nodeH st a)"
    using scx_outcome(1)[OF assms] scx_onlyD by blast
next
  assume ok
  then obtain st1 where st1: "scx_only st st1" "nodeH st' =
      put_field fld (if get_field st fld = nodes ! 1 then new else get_field st fld)
        (\<lambda>a. if a \<in> finalized ty nodes seen then (nodeH st1 a)\<lparr>marked := True\<rparr> else nodeH st1 a)"
    using scx_outcome(2)[OF assms] by blast
  show "get_field st' fld = (if get_field st fld = nodes ! 1 then new else get_field st fld)"
    unfolding get_field_def[of st'] st1(2) by (simp add: put_field_def)
  show "\<forall>f. f \<noteq> fld \<longrightarrow> get_field st' f = get_field st f"
    using scx_onlyD(1)[OF st1(1)] unfolding get_field_def[of st'] st1(2)
    by (cases fld) (auto simp: put_field_def get_field_def same_fields_def)
  show "\<forall>a. marked (nodeH st' a) \<longleftrightarrow> marked (nodeH st a) \<or> a \<in> finalized ty nodes seen"
    using scx_onlyD(2)[OF st1(1)] unfolding st1(2) by (auto simp: put_field_def)
qed

theorem scx_all_or_nothing_witness:
  "get_field (snd (scx 0 TYPE_INS [10, 11] [9, 9] (10, True) 5 (load red_red))) (10, True) = 11 \<and>
   get_field (snd (scx 0 TYPE_INS [10, 11] [3, 3] (10, True) 5 (load red_red))) (10, True) = 5"
proof -
  have t: "get_field (load red_red) (10, True) = 11"
    using hwfD(2)[OF red_red_hwf] by (simp add: red_red_def get_field_def)
  have 3: "scxRecord (nodeH (load red_red) 10) = 3" by (simp add: load_def red_red_def Let_def)
  obtain ok st1 where s1: "scx 0 TYPE_INS [10, 11] [9, 9] (10, True) 5 (load red_red) = (ok, st1)" by (meson surj_pair)
  have "scxRecord (nodeH (load red_red) 10) \<noteq> allocatedSCXRecord (load red_red) 0" using 3 by simp
  then have "\<not> ok" 
    using s1 3 abort_state_fields(1)[of 0 0] abort_not_committed[of 0 0]
    by (simp add: scx_def help_SCX_def initializeSCXRecord_def Let_def table_defs freeze_loop.simps[of 0]
      reclaimMemoryAfterSCX_def)
  moreover obtain ok2 st2 where s2: "scx 0 TYPE_INS [10, 11] [3, 3] (10, True) 5 (load red_red) = (ok2, st2)" by (meson surj_pair)
  moreover have ok2 
    using s2 t 3 scx_commits[of TYPE_INS "[10, 11]" "[3, 3]" "load red_red" 0 "(10, True)" 5]
    by (auto simp: table_defs)
  ultimately show ?thesis
    using scx_all_or_nothing[OF _ s1] scx_all_or_nothing[OF _ s2] t s1 by (simp add: get_field_def same_fields_def)
qed



text \<open>
  C22: an LLX on a node that a committed SCX has removed returns the null result, without helping or
  changing anything, so no operation proceeds on a removed node.
\<close>

theorem llx_fails_on_finalized:
  fixes st :: "('k, 'v) Chromatic"
  assumes "marked (nodeH st node)" and "scx_state (scxH st (scxRecord (nodeH st node))) = STATE_COMMITTED"
  shows "llx node st = ((NULL, NULL, NULL), st)"
  by (rule llx_finalized[OF assms])

theorem llx_fails_on_finalized_witness: "llx 7 finalized_state = ((NULL, NULL, NULL), finalized_state)"
  by (rule llx_fails_on_finalized)
    (simp_all add: finalized_state_def Let_def set_state_def set_marked_def Chromatic_new_eq[OF refl])

text \<open>
  C23: the state word of an aborted SCX record holds the index at which freezing stopped and the
  flags of the frozen nodes; both are read back unchanged, the low bits say \<open>STATE_ABORTED\<close>, and the
  word fits in the 31 value bits of a C \<open>int\<close>.
\<close>

theorem abort_state_roundtrip:
  assumes "i < 32" and "0 \<le> flags" and "flags < 2 ^ 24"
  shows "STATE_GET_HIGHEST_INDEX_REACHED (ABORT_STATE_INIT i flags) = i \<and>
    STATE_GET_FLAGS (ABORT_STATE_INIT i flags) = push_bit 7 flags \<and>
    ABORT_STATE_INIT i flags mod 4 = STATE_ABORTED \<and>
    STATE_ABORTED \<le> ABORT_STATE_INIT i flags \<and> ABORT_STATE_INIT i flags < 2 ^ 31"
  using abort_state_fields[OF assms] abort_state_bounds[OF assms] by simp

theorem abort_state_roundtrip_witness:
  "STATE_GET_HIGHEST_INDEX_REACHED (ABORT_STATE_INIT 3 7) = 3 \<and>
   STATE_GET_FLAGS (ABORT_STATE_INIT 3 7) = push_bit 7 7"
  using abort_state_roundtrip[of 3 7] by simp



section \<open>Where the code departs from its intent\<close>

text \<open>
  C25: erasing the last key leaves a sentinel leaf that was copied by \<open>initializeNode\<close> and counts as one
  key: \<open>size\<close> then says 0, but \<open>rangeQuery(NO_KEY, NO_KEY)\<close> says 1.
\<close>

theorem erase_last_counts_sentinel:
  fixes nk :: "'k::linorder"
  assumes "bat_rep nk nv Th st [k \<mapsto> v]" and "tid \<in> Th" and "k \<noteq> nk"
  shows "\<exists>st'. erase tid k st = Some ((v, v \<noteq> nv), st') \<and> size_op st' = Some 0 \<and>
    rangeQuery nk nk st' = Some 1"
proof -
  obtain T where T: "bat st T" "map_of (contents T) = [k \<mapsto> v]" "NO_KEY st = nk" "NO_VALUE st = nv" "ready st tid"
    using assms(1,2) by (auto simp: bat_rep_def)
  obtain st' z T' where st': "erase tid k st = Some ((v, v \<noteq> NO_VALUE st), st')" "bat_at st' z T'"
      "framed st st'" "map_of (contents T') = (map_of (contents T))(k := None)"
      "map_of (contents T) k \<noteq> None \<and> is_leaf T' \<longrightarrow> z = 1"
    using erase_spec[OF T(1,5), of k v] T(2,3) assms(3) by auto
  have c: "contents T' = []" using st'(4) T(2) by simp
  then have "is_leaf T'"
    using contents_inner(1)[of "NO_KEY st'" T'] st'(2) leaves_nonempty unfolding bat_at_def
    by (cases T') (auto simp del: leaves_nonempty)
  moreover have "size_op st' = Some 0" using size_op_spec[of st' T'] st'(2) c by (auto simp: bat_def)
  ultimately show ?thesis
    using st' T rangeQuery_all[OF st'(2)] c by (auto simp: framed_def)
qed

theorem erase_last_counts_sentinel_witness:
  "\<exists>st'. erase 0 5 one_key = Some ((50, True), st') \<and> size_op st' = Some 0 \<and> rangeQuery 0 0 st' = Some 1"
proof -
  have "bat_rep 0 0 {0} one_key [5 \<mapsto> 50]" using after_rep[of "[(0, Insert 5 50)]"] by (simp add: one_key_def)
  from erase_last_counts_sentinel[OF this, of 0] show ?thesis by simp
qed

text \<open>
  C26: \<open>doGetRank\<close> descends to the left child in both directions (\<open>currRight\<close> is read from
  \<open>curr->left\<close>), so with two keys stored the rank of the larger one is reported as 0, although the
  smaller one has rank 1.
\<close>

theorem getRank_misses_right:
  fixes nk :: "'k::linorder"
  assumes "bat_rep nk nv Th st [k1 \<mapsto> v1, k2 \<mapsto> v2]" and "k1 < k2"
  shows "getRank k1 st = Some 1 \<and> getRank k2 st = Some 0"
proof -
  obtain z T where T: "bat_at st z T" "map_of (contents T) = [k1 \<mapsto> v1, k2 \<mapsto> v2]" "NO_KEY st = nk"
    using assms(1) by (auto simp: bat_rep_def bat_def)
  obtain a k v w l r where N: "T = Nd a k v w l r" using T(2)[symmetric] by (cases T) auto
  have ch: "chrom nk T" using T(1,3) by (auto simp: bat_at_def)
  note c = contents_inner[OF ch N]
  obtain b c' v' w' a1 w1 a2 w2 where l: "l = Nd b c' v' w' (Lf a1 k1 v1 w1) (Lf a2 k2 v2 w2)"
      "k1 < c'" "c' \<le> k2"
    using two_leaves[OF c(2), of k1 v1 k2 v2] T(2) c(1) assms(2) by metis
  have "nk \<noteq> c'" "nk \<noteq> k1" using c(3,4) l(1) by auto
  then show ?thesis
    using getRank_spine[OF T(1), of k1] getRank_spine[OF T(1), of k2] c(5) assms(2) l
    by (auto simp: N T(3))
qed

theorem getRank_misses_right_witness: "getRank 5 two_keys = Some 1 \<and> getRank 8 two_keys = Some 0"
  using getRank_misses_right[OF two_keys_rep] by simp

text \<open>
  C27: on an empty tree \<open>updateErase\<close> reports success without writing \<open>*result\<close>: the value that an earlier,
  failed attempt of the same \<open>erase\<close> left there is returned to the caller.
\<close>

theorem updateErase_empty_keeps_result:
  fixes st :: "('k::linorder, 'v) Chromatic"
  assumes "hwf st T" and "is_leaf T"
  shows "\<exists>out'. updateErase tid x out st = Some (True, out', st) \<and> result out' = result out"
  using assms updateErase_empty[of st _ _ _ _ tid x out] by (cases T) auto

theorem updateErase_empty_keeps_result_witness:
  "\<exists>out'. updateErase 0 5 \<lparr>result = 77, shouldRebalance = False, node_stack = []\<rparr> (Chromatic_new (0::nat) (0::nat) 6) =
     Some (True, out', Chromatic_new 0 0 6) \<and> result out' = 77"
proof -
  have "hwf (Chromatic_new (0::nat) (0::nat) 6) (Lf 7 0 0 1)"
    using Chromatic_new_bat(1)[of "0::nat" "0::nat" 6] by (simp add: bat_at_def)
  from updateErase_empty_keeps_result[OF this] show ?thesis by fastforce
qed

section \<open>The trees of Ellen et al.\<close>

lemma two_ops:
  "fst (dspec_run (0::nat) [(0, DInsert (5::nat) 50), (1, DFind 5), (1, DInsert 5 51), (0, DRange 1 8), (0, DErase 5), (1, DContains 5)]
     Map.empty) = [DValue 0, DValue 50, DValue 50, DCount 1, DValue 50, DFlag False]"
proof -
  have "{k. k = (5::nat) \<and> 1 \<le> k \<and> k \<le> 8} = {5}" by auto
  then show ?thesis by (simp add: stored_def)
qed

lemma ellen_one: "\<exists>st. ellen_rep (9::nat) (0::nat) UNIV st [5 \<mapsto> 50]"
  using elm.dinsert_law[OF ellen_start[of "9::nat" "0::nat" UNIV 0], of 0 5 50] by auto

text \<open>
  C28: from the constructor on, any sequence of calls of the adapter of the augmented Ellen tree
  (\<open>bst_insert\<close>, \<open>bst_delete\<close>, \<open>bst_find\<close>, \<open>contains\<close> and the range query on versions) with keys below
  \<open>KEY_MAX\<close> and values other than \<open>NO_VALUE\<close> returns, with the results of a map that starts empty.
\<close>

theorem ellen_run_refines:
  fixes kmax :: "'k::linorder"
  assumes "\<forall>(tid, a)\<in>set as. (\<forall>k\<in>dop_keys a. k < kmax) \<and> nv \<notin> dop_vals a"
  shows "\<exists>st'. adapter_run ellen_adapter as (ellen_new kmin kmax nv) = Some (fst (dspec_run nv as Map.empty), st') \<and>
    ellen_rep kmax nv UNIV st' (snd (dspec_run nv as Map.empty))"
  using elm.drun_refines[OF ellen_start[of kmax nv UNIV kmin], of as] assms by fast

theorem ellen_run_refines_witness:
  "\<exists>st'. adapter_run ellen_adapter [(0, DInsert (5::nat) 50), (1, DFind 5), (1, DInsert 5 51), (0, DRange 1 8),
       (0, DErase 5), (1, DContains 5)] (ellen_new 0 9 (0::nat)) =
     Some ([DValue 0, DValue 50, DValue 50, DCount 1, DValue 50, DFlag False], st')"
  using ellen_run_refines[of "[(0, DInsert 5 50), (1, DFind 5), (1, DInsert 5 51), (0, DRange 1 8), (0, DErase 5),
    (1, DContains 5)]" "9::nat" "0::nat" 0] two_ops by (simp del: dspec_run.simps adapter_run.simps) blast

text \<open>
  C29: \<open>bst_insert\<close> returns, with the value stored under the key and no change of the map when the key is
  present, and with \<open>NO_VALUE\<close> and the pair added when it is absent.
\<close>

theorem bst_insert_correct:
  fixes nk :: "'k::linorder"
  assumes "ellen_rep nk nv Th st m" and "k < nk" and "v \<noteq> nv"
  shows "\<exists>st'. bst_insert k v st = Some (case m k of None \<Rightarrow> nv | Some x \<Rightarrow> x, st') \<and>
    ellen_rep nk nv Th st' (if m k = None then m(k \<mapsto> v) else m)"
proof -
  have "ellen_rep nk nv UNIV st m" using assms(1) by (simp add: ellen_rep_def)
  from elm.dinsert_law[OF this UNIV_I assms(2,3)] show ?thesis
    by (auto simp: ellen_adapter_def stored_def ellen_rep_def)
qed

theorem bst_insert_correct_witness:
  "\<exists>st st'. bst_insert (7::nat) (70::nat) st = Some (0, st') \<and> ellen_rep 9 0 UNIV st' [5 \<mapsto> 50, 7 \<mapsto> 70]"
proof -
  obtain st where "ellen_rep (9::nat) (0::nat) UNIV st [5 \<mapsto> 50]" using ellen_one by blast
  from bst_insert_correct[OF this, of 7 70] show ?thesis by auto
qed

text \<open>
  C30: \<open>bst_delete\<close> returns, with the value stored under the key or \<open>NO_VALUE\<close>, and removes the key from
  the map.
\<close>

theorem bst_delete_correct:
  fixes nk :: "'k::linorder"
  assumes "ellen_rep nk nv Th st m" and "k < nk"
  shows "\<exists>st'. bst_delete k st = Some (case m k of None \<Rightarrow> nv | Some x \<Rightarrow> x, st') \<and>
    ellen_rep nk nv Th st' (m(k := None))"
proof -
  have "ellen_rep nk nv UNIV st m" using assms(1) by (simp add: ellen_rep_def)
  from elm.derase_law[OF this UNIV_I assms(2)] show ?thesis
    by (auto simp: ellen_adapter_def stored_def ellen_rep_def)
qed

theorem bst_delete_correct_witness:
  "\<exists>st st'. bst_delete (5::nat) st = Some (50::nat, st') \<and> ellen_rep 9 0 UNIV st' Map.empty"
proof -
  obtain st where "ellen_rep (9::nat) (0::nat) UNIV st [5 \<mapsto> 50]" using ellen_one by blast
  moreover have "[5::nat \<mapsto> 50::nat](5 := None) = Map.empty" by auto
  ultimately show ?thesis using bst_delete_correct[of 9 0 UNIV st "[5 \<mapsto> 50]" 5] by auto
qed

text \<open>
  C31: the range query on the versions returns the number of keys between the bounds, where \<open>KEY_MAX\<close> is
  an open end on either side.
\<close>

theorem bst_rangequery_correct:
  fixes nk :: "'k::linorder"
  assumes "ellen_rep nk nv Th st m"
  shows "bst_rangequery lo hi st =
    Some (int (card {k \<in> dom m. (lo = nk \<or> lo \<le> k) \<and> (hi = nk \<or> k \<le> hi)}))"
  using assms bst_rangequery_spec[of st _ lo hi] by (auto simp: ellen_rep_def in_range_def)

theorem bst_rangequery_correct_witness: "\<exists>st. bst_rangequery (9::nat) 8 (st :: (nat, nat) ellen) = Some 1"
proof -
  obtain st where st: "ellen_rep (9::nat) (0::nat) UNIV st [5 \<mapsto> 50]" using ellen_one by blast
  have "{k \<in> dom [5::nat \<mapsto> 50::nat]. ((9::nat) = 9 \<or> 9 \<le> k) \<and> ((8::nat) = 9 \<or> k \<le> 8)} = {5}" by auto
  then show ?thesis using bst_rangequery_correct[OF st, of 9 8] by auto
qed

text \<open>
  C32: an update word made from an aligned descriptor address and a state yields both back, so a thread
  that reads the word of another operation helps the right operation in the right phase.
\<close>

theorem update_word_roundtrip:
  assumes "op mod 4 = 0" and "s < 4"
  shows "UNFLAG (FLAG op s) = op \<and> GETFLAG (FLAG op s) = s"
  using flag_fields[OF assms(2), of op] assms(1) by simp

theorem update_word_roundtrip_witness:
  "UNFLAG (FLAG (fst (create_iinfo_t 1 2 3 (ellen_new (0::nat) 9 (0::nat)))) STATE_MARK) =
     fst (create_iinfo_t 1 2 3 (ellen_new (0::nat) 9 (0::nat))) \<and> GETFLAG (FLAG 8 STATE_IFLAG) = STATE_IFLAG"
  using update_word_roundtrip[of 8 STATE_IFLAG]
    update_word_roundtrip[of "fst (create_iinfo_t 1 2 3 (ellen_new (0::nat) 9 (0::nat)))" STATE_MARK]
  by (simp add: create_iinfo_t_def Let_def)

text \<open>
  C33: the augmentation is transparent.  Whatever the memory, when \<open>bst_insert\<close>, \<open>bst_delete\<close> or
  \<open>bst_find\<close> of the augmented tree returns, the same operation of the tree without versions returns
  the same value from the state without the versions, and leaves the final state without the versions:
  nodes, update words, descriptors and retired records are the same.
\<close>

theorem augmentation_transparent:
  "(bst_insert k v st = Some (r, st') \<longrightarrow> pl_insert k v (forget st) = Some (r, forget st')) \<and>
   (bst_delete k st = Some (r, st') \<longrightarrow> pl_delete k (forget st) = Some (r, forget st')) \<and>
   (bst_find k st = Some r \<longrightarrow> pl_find k (forget st) = Some r)"
  using forget_insert[of k v st "(r, st')"] forget_delete[of k st "(r, st')"] forget_find[of k st r] by simp

theorem augmentation_transparent_witness:
  "\<exists>st st' :: (nat, nat) ellen. bst_delete 5 st = Some (50, st') \<and> pl_delete 5 (forget st) = Some (50, forget st')"
proof -
  obtain st where "ellen_rep (9::nat) (0::nat) UNIV st [5 \<mapsto> 50]" using ellen_one by blast
  from elm.derase_law[OF this, of 0 5] obtain st' where "bst_delete 5 st = Some (50, st')"
    by (auto simp: ellen_adapter_def stored_def)
  then show ?thesis using augmentation_transparent[of 5 0 st 50 st'] by blast
qed

text \<open>
  C34: from the constructor on, the tree without versions refines the map too, with its recursive range
  query on the nodes.
\<close>

theorem plain_run_refines:
  fixes kmax :: "'k::linorder"
  assumes "\<forall>(tid, a)\<in>set as. (\<forall>k\<in>dop_keys a. k < kmax) \<and> nv \<notin> dop_vals a"
  shows "\<exists>st'. adapter_run plain_adapter as (pl_new kmin kmax nv) = Some (fst (dspec_run nv as Map.empty), st')"
  using plain_adapter_run[OF assms] .

theorem plain_run_refines_witness:
  "\<exists>st'. adapter_run plain_adapter [(0, DInsert (5::nat) 50), (1, DFind 5), (1, DInsert 5 51), (0, DRange 1 8),
       (0, DErase 5), (1, DContains 5)] (pl_new 0 9 (0::nat)) =
     Some ([DValue 0, DValue 50, DValue 50, DCount 1, DValue 50, DFlag False], st')"
  using plain_run_refines[of "[(0, DInsert 5 50), (1, DFind 5), (1, DInsert 5 51), (0, DRange 1 8), (0, DErase 5),
    (1, DContains 5)]" "9::nat" "0::nat" 0] two_ops by (simp del: dspec_run.simps adapter_run.simps)



section \<open>Memory reclamation\<close>

text \<open>
  C36: the grace period.  Threads register with the reclaimer and then run \<open>startOp\<close>, retire records and run
  \<open>endOp\<close> in any interleaving.  In every state reached that way a record that has been freed was retired
  before every active thread announced its operation, so no thread inside an operation can have met the
  record while it was reachable.  \<open>t\<close> is the time of the retirement, \<open>since c u\<close> that of the announcement.
\<close>

theorem debra_grace_period:
  assumes "debra_step\<^sup>*\<^sup>* (conc_start n al) c" and "\<And>T. al_freed (al T) = []"
    and "(a, t) \<in> set (al_freed (allocs (mem c) T))" and "active c u"
  shows "t < since c u"
proof -
  have inv: "debra_inv c" by (rule debra_reachable_inv[OF assms(1,2)])
  have "pc c u \<noteq> Quiet" using assms(4) by (auto simp: active_def)
  then have "u < NUM_PROCESSES (mem c)" using inv epoch_invD(1)[of c u] by (simp add: debra_inv_def)
  then show ?thesis using inv assms(3,4) unfolding debra_inv_def freed_inv_def by fastforce
qed

theorem debra_grace_period_witness:
  "\<exists>c t. debra_step\<^sup>*\<^sup>* (conc_start 1 sample_alloc) c \<and> active c 0 \<and> (5, t) \<in> set (al_freed (allocs (mem c) SCXRecordR)) \<and>
     t < since c 0"
proof -
  obtain c t where c: "debra_step\<^sup>*\<^sup>* (conc_start 1 sample_alloc) c" "active c 0" "(5, t) \<in> set (al_freed (allocs (mem c) SCXRecordR))"
    using sample_freed by blast
  have "t < since c 0" by (rule debra_grace_period[OF c(1) _ c(3,2)]) (simp add: sample_alloc_def)
  with c show ?thesis by blast
qed

text \<open>
  C37: no thread leaves the bounds of an array or violates an assertion of the bags.  In every reachable state
  the entry of \<open>startOp\<close> and \<open>retire\<close> return for every registered thread, and a thread that scans the
  announcements reads the entry of an existing thread.
\<close>

theorem debra_no_fault:
  assumes "debra_step\<^sup>*\<^sup>* (conc_start n al) c" and "\<And>T. al_freed (al T) = []" and "v < n"
  shows "(\<exists>out. startOp_enter v ver (mem c) = Some out) \<and> (\<exists>d. debra_retire T v p (mem c) = Some d) \<and>
    (\<forall>r. pc c v = Scanning r \<longrightarrow> checked (mem c) v < n)"
proof -
  have N: "NUM_PROCESSES (mem c) = n" by (rule debra_steps_procs[OF assms(1,2)])
  show ?thesis using debra_inv_enabled[OF debra_reachable_inv[OF assms(1,2)], of v] assms(3) unfolding N by blast
qed

theorem debra_no_fault_witness:
  "\<exists>c. debra_step\<^sup>*\<^sup>* (conc_start 1 sample_alloc) c \<and> active c 0 \<and> (\<exists>d. debra_retire SCXRecordR 0 (6, 0) (mem c) = Some d)"
proof -
  obtain c where c: "debra_step\<^sup>*\<^sup>* (conc_start 1 sample_alloc) c" "active c 0" using sample_freed by blast
  have "\<exists>d. debra_retire SCXRecordR 0 (6, 0) (mem c) = Some d"
    using debra_no_fault[OF c(1), of 0 "\<lambda>x. x" SCXRecordR "(6, 0)"] by (simp add: sample_alloc_def)
  with c show ?thesis by blast
qed

text \<open>
  C38: no record stays in limbo.  From any reachable state in which no operation is running, a hundred
  operations per thread by a single thread free every record that was in its bags, whatever the nodes that
  are freed point to.
\<close>

theorem debra_frees_retired:
  assumes "debra_step\<^sup>*\<^sup>* (conc_start n al) c" and "\<And>T. al_freed (al T) = []" and "\<And>u. pc c u = Quiet" and "v < n"
    and "i < 9" and "x \<in># tb_items (bags (mem c) T v) i"
  shows "\<exists>d. debra_ops (100 * n) v vers (mem c) = Some d \<and> x \<in> set (al_freed (allocs d T))"
proof -
  have N: "NUM_PROCESSES (mem c) = n" by (rule debra_steps_procs[OF assms(1,2)])
  have so: "solo v (mem c)" by (rule solo_reachable[OF assms(1,2,3)]) (simp add: N assms(4))
  show ?thesis
    using solo_ops_freed[OF so assms(5), of x T "100 * n" vers] assms(4,6) work_left_bound[of v "mem c" T i] N by auto
qed

theorem debra_frees_retired_witness:
  "\<exists>c t d. debra_step\<^sup>*\<^sup>* (conc_start 1 sample_alloc) c \<and> debra_ops 100 0 (\<lambda>_ x. x) (mem c) = Some d \<and>
     (5, t) \<in> set (al_freed (allocs d SCXRecordR))"
proof -
  obtain c t i where c: "debra_step\<^sup>*\<^sup>* (conc_start 1 sample_alloc) c" "\<And>u. pc c u = Quiet" "i < 9"
      "(5, t) \<in># tb_items (bags (mem c) SCXRecordR 0) i" using sample_retired by blast
  have "\<exists>d. debra_ops (100 * 1) 0 (\<lambda>_ x. x) (mem c) = Some d \<and> (5, t) \<in> set (al_freed (allocs d SCXRecordR))"
    by (rule debra_frees_retired[OF c(1) _ c(2) _ c(3,4)]) (simp_all add: sample_alloc_def)
  with c(1) show ?thesis by auto
qed

text \<open>
  C39: a thread that deregisters and registers again loses the grace period.  \<open>initThread\<close> resets
  \<open>currentBag\<close> but not \<open>index\<close>: if \<open>index\<close> was 5, a record retired right after the registration is freed by the
  next rotation instead of the sixth.
\<close>

theorem reinit_frees_early:
  assumes "rm_init R v" and "\<And>T. tb_ok (bags (rm_set R) T v)" and "index (bags (rm_set R) T v) = 5" and "T \<noteq> NodeR"
  shows "\<exists>R1 R2 d. rm_deinitThread v R = Some R1 \<and> rm_retire T v p (rm_initThread v R1) = Some R2 \<and>
    rotateEpochBags T v ver (rm_set R2) = Some d \<and> p \<in> set (al_freed (allocs d T))"
  by (rule reregistered_frees_early[OF assms])

theorem reinit_frees_early_witness:
  "\<exists>d5 R1 R2 d. foldo (\<lambda>_. rotateAllEpochBags 0 (\<lambda>x. x)) [1..5] (rm_set sample_manager) = Some d5 \<and>
     rm_deinitThread 0 (sample_manager\<lparr>rm_set := d5\<rparr>) = Some R1 \<and>
     rm_retire VersionR 0 7 (rm_initThread 0 R1) = Some R2 \<and>
     rotateEpochBags VersionR 0 (\<lambda>x. x) (rm_set R2) = Some d \<and> 7 \<in> set (al_freed (allocs d VersionR))"
proof -
  have ok: "tb_ok (bags (rm_set sample_manager) T 0)" and ix: "index (bags (rm_set sample_manager) T 0) = 0" for T
    using sample_manager_registered(2) by (simp_all add: registered_def)
  obtain d5 where d5: "foldo (\<lambda>_. rotateAllEpochBags 0 (\<lambda>x. x)) [1..5] (rm_set sample_manager) = Some d5"
      "\<And>T. tb_ok (bags d5 T 0)" "\<And>T. index (bags d5 T 0) = 5"
    using rotations_index[OF ok, of "\<lambda>x. x" "[1..5]"] ix by auto
  let ?R = "sample_manager\<lparr>rm_set := d5\<rparr>"
  have "\<exists>R1 R2 d. rm_deinitThread 0 ?R = Some R1 \<and> rm_retire VersionR 0 7 (rm_initThread 0 R1) = Some R2 \<and>
      rotateEpochBags VersionR 0 (\<lambda>x. x) (rm_set R2) = Some d \<and> 7 \<in> set (al_freed (allocs d VersionR))"
    by (rule reinit_frees_early) (simp_all add: d5 sample_manager_registered)
  then show ?thesis using d5(1) by blast
qed

text \<open>
  C40: a bag conserves records.  Any sequence of additions and removals on a new bag returns, none of the
  assertions fails; what was added is what was handed out together with what is left, counted with
  multiplicity; the bag passes its own validation and \<open>computeSizeFast\<close> is its size.
\<close>

theorem blockbag_conserves:
  "\<exists>xs bag pool. bag_run blockbag_ops as (bag_new tid blockpool_new) = Some (xs, (bag, pool)) \<and> bag_validate bag \<and>
     mset (added as) = mset xs + mset (bag_items bag) \<and> computeSizeFast bag = Some (int (length (bag_items bag)))"
proof -
  obtain b p where n: "(bag_new tid blockpool_new :: 'a blockbag \<times> blockpool) = (b, p)" by (meson surj_pair)
  have "bag_ok b" "pool_ok p" "bag_items b = []"
    using bag_new_ok[OF n] bag_new_spec(4)[OF _ n] by (simp_all add: pool_ok_def blockpool_new_def)
  then obtain xs bag pool where r: "bag_run blockbag_ops as (b, p) = Some (xs, (bag, pool))" "bag_ok bag"
      "mset (added as) = mset xs + mset (bag_items bag)"
    using bb.bag_run_conserves[of "(b, p)" as] by auto
  show ?thesis using r computeSizeFast_spec[OF r(2)] n unfolding bag_ok_def by auto
qed

end
